(* ===== verification/Prelude.thy ===== *)
theory Prelude
  imports Main "HOL-Library.AList" "HOL-Library.Multiset"
begin

text \<open>
  Shared vocabulary of the SpanBarn development: Go's clock and integer arithmetic as the
  sources use them, decimal formatting, Go maps as association lists with distinct keys, and
  the generic facts on those that the components share.
\<close>

section \<open>Time\<close>

text \<open>
  A \<^verbatim>\<open>time.Time\<close> is the number of nanoseconds since Go's zero time (1 January of
  year 1, UTC), so \<^verbatim>\<open>IsZero\<close> is comparison with 0. A \<^verbatim>\<open>time.Duration\<close> is a number of
  nanoseconds. \<^verbatim>\<open>Sub\<close> saturates at the bounds of a 64-bit duration, as Go documents.
\<close>

type_synonym gotime = int
type_synonym duration = int

definition zero_time :: gotime where
  "zero_time = 0"

definition IsZero :: "gotime \<Rightarrow> bool" where
  "IsZero t \<longleftrightarrow> t = zero_time"

definition second :: duration where "second = 1000000000"
definition minute :: duration where "minute = 60 * second"
definition hour :: duration where "hour = 60 * minute"

definition max_duration :: duration where "max_duration = 2 ^ 63 - 1"
definition min_duration :: duration where "min_duration = - (2 ^ 63)"

definition time_sub :: "gotime \<Rightarrow> gotime \<Rightarrow> duration" where
  "time_sub t u = max min_duration (min max_duration (t - u))"

text \<open>Seconds between Go's zero time and the Unix epoch.\<close>

definition unix_offset_seconds :: int where
  "unix_offset_seconds = 62135596800"

definition UnixMicro :: "gotime \<Rightarrow> int" where
  "UnixMicro t = (t - unix_offset_seconds * second) div 1000"

lemmas time_units = second_def minute_def hour_def

lemma time_sub_exact:
  "min_duration \<le> t - u \<Longrightarrow> t - u \<le> max_duration \<Longrightarrow> time_sub t u = t - u"
  by (simp add: time_sub_def)

lemma time_sub_mono: "t \<le> t' \<Longrightarrow> time_sub t u \<le> time_sub t' u"
  by (simp add: time_sub_def min_def max_def)

section \<open>Integers\<close>

text \<open>
  \<open>s64\<close> and \<open>u64\<close> are Go's conversions to \<^verbatim>\<open>int64\<close> and \<^verbatim>\<open>uint64\<close>, which wrap around.
  \<open>go_div\<close> and \<open>go_mod\<close> are Go's truncating division and its remainder.
\<close>

definition u64 :: "int \<Rightarrow> int" where
  "u64 x = x mod 2 ^ 64"

definition s64 :: "int \<Rightarrow> int" where
  "s64 x = (x + 2 ^ 63) mod 2 ^ 64 - 2 ^ 63"

definition in_s64 :: "int \<Rightarrow> bool" where
  "in_s64 x \<longleftrightarrow> - (2 ^ 63) \<le> x \<and> x < 2 ^ 63"

definition go_div :: "int \<Rightarrow> int \<Rightarrow> int" where
  "go_div a b = sgn a * sgn b * (\<bar>a\<bar> div \<bar>b\<bar>)"

definition go_mod :: "int \<Rightarrow> int \<Rightarrow> int" where
  "go_mod a b = a - b * go_div a b"

lemma u64_range: "0 \<le> u64 x \<and> u64 x < 2 ^ 64"
  by (simp add: u64_def)

lemma s64_range: "in_s64 (s64 x)"
proof -
  have "0 \<le> (x + 2 ^ 63) mod 2 ^ 64" "(x + 2 ^ 63) mod 2 ^ 64 < (2 :: int) ^ 64"
    by simp_all
  then show ?thesis unfolding in_s64_def s64_def by simp
qed

lemma s64_id: "in_s64 x \<Longrightarrow> s64 x = x"
  by (simp add: in_s64_def s64_def)

lemma s64_mod_eq: "s64 x mod 2 ^ 64 = x mod 2 ^ 64"
  by (simp add: s64_def mod_diff_left_eq)

lemma s64_cong: "x mod 2 ^ 64 = y mod 2 ^ 64 \<Longrightarrow> s64 x = s64 y"
  unfolding s64_def by (metis mod_add_left_eq)

lemma s64_u64: "s64 (u64 x) = s64 x"
  by (rule s64_cong) (simp add: u64_def)

lemma s64_add_s64: "s64 (a + s64 b) = s64 (a + b)"
  by (rule s64_cong) (metis mod_add_right_eq s64_mod_eq)

lemma go_div_nonneg: "0 \<le> a \<Longrightarrow> 0 < b \<Longrightarrow> go_div a b = a div b"
  by (auto simp: go_div_def sgn_if)

lemma go_mod_nonneg: "0 \<le> a \<Longrightarrow> 0 < b \<Longrightarrow> go_mod a b = a mod b"
  by (simp add: go_mod_def go_div_nonneg minus_mult_div_eq_mod)

section \<open>Decimal formatting\<close>

text \<open>\<^verbatim>\<open>strconv.FormatInt(n, 10)\<close>, and \<^verbatim>\<open>%d\<close> of \<^verbatim>\<open>fmt.Sprintf\<close>.\<close>

definition digit_char :: "nat \<Rightarrow> char" where
  "digit_char d = char_of (48 + d)"

fun show_nat :: "nat \<Rightarrow> string" where
  "show_nat n = (if n < 10 then [digit_char n] else show_nat (n div 10) @ [digit_char (n mod 10)])"

declare show_nat.simps [simp del]

definition FormatInt :: "int \<Rightarrow> string" where
  "FormatInt i = (if i < 0 then CHR ''-'' # show_nat (nat (- i)) else show_nat (nat i))"

definition NUL :: char where
  "NUL = char_of (0 :: nat)"

definition read_digits :: "string \<Rightarrow> nat" where
  "read_digits s = foldl (\<lambda>a c. a * 10 + (of_char c - 48)) 0 s"

lemma of_char_digit [simp]: "d < 10 \<Longrightarrow> of_char (digit_char d) = 48 + d"
  by (simp add: digit_char_def)

lemma read_digits_show_nat [simp]: "read_digits (show_nat n) = n"
proof (induction n rule: show_nat.induct)
  case (1 n)
  show ?case
  proof (cases "n < 10")
    case True
    then show ?thesis by (simp add: show_nat.simps [of n] read_digits_def)
  next
    case False
    then have "foldl (\<lambda>a c. a * 10 + (of_char c - 48)) 0 (show_nat (n div 10)) = n div 10"
      using 1 by (simp add: read_digits_def)
    with False show ?thesis
      by (simp add: show_nat.simps [of n] read_digits_def)
  qed
qed

lemma show_nat_nonempty [simp]: "show_nat n \<noteq> []"
  by (subst show_nat.simps) simp

lemma show_nat_digits: "c \<in> set (show_nat n) \<Longrightarrow> \<exists>d < 10. c = digit_char d"
proof (induction n rule: show_nat.induct)
  case (1 n)
  have "\<exists>d < 10. digit_char (n mod 10) = digit_char d"
    by (rule exI [of _ "n mod 10"]) simp
  with 1 show ?case
    by (cases "n < 10") (auto simp: show_nat.simps [of n])
qed

lemma digit_char_range: "d < 10 \<Longrightarrow> digit_char d \<noteq> NUL \<and> digit_char d \<noteq> CHR ''-''"
proof
  assume d: "d < 10"
  then have "(of_char (digit_char d) :: nat) \<noteq> 0" by simp
  then show "digit_char d \<noteq> NUL" by (auto simp: NUL_def)
  from d have "(of_char (digit_char d) :: nat) \<noteq> of_char (CHR ''-'')" by simp
  then show "digit_char d \<noteq> CHR ''-''" by metis
qed

lemma show_nat_no_minus: "CHR ''-'' \<notin> set (show_nat n)"
proof
  assume "CHR ''-'' \<in> set (show_nat n)"
  then obtain d where "d < 10" "CHR ''-'' = digit_char d"
    using show_nat_digits by blast
  with digit_char_range [of d] show False by simp
qed

lemma show_nat_no_NUL: "NUL \<notin> set (show_nat n)"
proof
  assume "NUL \<in> set (show_nat n)"
  then obtain d where "d < 10" "NUL = digit_char d"
    using show_nat_digits by blast
  with digit_char_range [of d] show False by simp
qed

lemma FormatInt_no_NUL: "NUL \<notin> set (FormatInt i)"
proof -
  have "NUL \<noteq> CHR ''-''" by (simp add: NUL_def char_of_def)
  then show ?thesis
    using show_nat_no_NUL by (auto simp: FormatInt_def)
qed

lemma FormatInt_inj: "FormatInt i = FormatInt j \<Longrightarrow> i = j"
proof -
  have head: "show_nat n \<noteq> CHR ''-'' # s" for n s
    using show_nat_no_minus [of n] by (metis list.set_intros(1))
  have inj: "show_nat m = show_nat n \<Longrightarrow> m = n" for m n
    by (metis read_digits_show_nat)
  assume eq: "FormatInt i = FormatInt j"
  show "i = j"
  proof (cases "i < 0"; cases "j < 0")
    assume "i < 0" "j < 0"
    with eq show ?thesis by (auto simp: FormatInt_def dest!: inj)
  next
    assume "i < 0" "\<not> j < 0"
    with eq show ?thesis by (simp add: FormatInt_def head [symmetric])
  next
    assume "\<not> i < 0" "j < 0"
    with eq show ?thesis by (simp add: FormatInt_def head)
  next
    assume "\<not> i < 0" "\<not> j < 0"
    with eq show ?thesis by (auto simp: FormatInt_def dest!: inj)
  qed
qed

section \<open>Go maps\<close>

text \<open>
  A Go map is an association list with distinct keys, read with \<open>map_of\<close> and written with
  \<open>AList.update\<close> and \<open>AList.delete\<close>. Ranging over a map visits every entry once in an order
  the language leaves open: operations that range take the order as an argument, a function
  on lists that \<open>permutes\<close> its input.
\<close>

named_theorems gomap_simps

lemmas [gomap_simps] = AList.update_conv' AList.delete_conv' AList.distinct_update
  AList.distinct_delete

definition permutes :: "('a list \<Rightarrow> 'a list) \<Rightarrow> bool" where
  "permutes ord \<longleftrightarrow> (\<forall>xs. mset (ord xs) = mset xs)"

abbreviation gomap_wf :: "('k \<times> 'v) list \<Rightarrow> bool" where
  "gomap_wf m \<equiv> distinct (map fst m)"

lemma permutes_id [simp]: "permutes id" "permutes (\<lambda>x. x)"
  by (simp_all add: permutes_def)

lemma permutes_rev [simp]: "permutes rev"
  by (simp add: permutes_def)

lemma permutes_mset: "permutes ord \<Longrightarrow> mset (ord xs) = mset xs"
  by (simp add: permutes_def)

lemma permutes_set: "permutes ord \<Longrightarrow> set (ord xs) = set xs"
  by (metis permutes_mset set_mset_mset)

lemma permutes_length: "permutes ord \<Longrightarrow> length (ord xs) = length xs"
  by (metis permutes_mset size_mset)

lemma permutes_distinct: "permutes ord \<Longrightarrow> distinct (map f (ord xs)) = distinct (map f xs)"
  by (rule mset_eq_imp_distinct_iff) (simp add: permutes_mset)

text \<open>The sum of a measure of the values of a map.\<close>

definition asum :: "('v \<Rightarrow> 'a::comm_monoid_add) \<Rightarrow> ('k \<times> 'v) list \<Rightarrow> 'a" where
  "asum f m = sum_list (map (\<lambda>kv. f (snd kv)) m)"

lemma asum_Nil [simp]: "asum f [] = 0"
  by (simp add: asum_def)

lemma asum_Cons [simp]: "asum f (kv # m) = f (snd kv) + asum f m"
  by (simp add: asum_def)

lemma asum_append [simp]: "asum f (m @ n) = asum f m + asum f n"
  by (simp add: asum_def)

lemma map_of_Some_in: "map_of m k = Some v \<Longrightarrow> (k, v) \<in> set m"
  by (rule map_of_SomeD)

lemma asum_split:
  "gomap_wf m \<Longrightarrow> map_of m k = Some v \<Longrightarrow> asum f m = f v + asum f (AList.delete k m)"
proof (induction m)
  case Nil
  then show ?case by simp
next
  case (Cons kv m)
  obtain k' v' where kv: "kv = (k', v')" by fastforce
  show ?case
  proof (cases "k' = k")
    case True
    with Cons.prems kv have "k \<notin> fst ` set m" "v' = v" by auto
    with kv True show ?thesis by simp
  next
    case False
    with Cons kv show ?thesis by (simp add: add.left_commute)
  qed
qed

lemma asum_update_new:
  "map_of m k = None \<Longrightarrow> asum f (AList.update k v m) = asum f m + f v"
  by (induction m) (auto simp: algebra_simps split: if_splits)

lemma delete_update_None: "map_of m k = None \<Longrightarrow> AList.delete k m = m"
  by (simp add: map_of_eq_None_iff)

lemma asum_update_old:
  assumes "gomap_wf m" "map_of m k = Some v"
  shows "asum f (AList.update k v' m) = f v' + asum f (AList.delete k m)"
proof -
  have "gomap_wf (AList.update k v' m)" "map_of (AList.update k v' m) k = Some v'"
    using assms by (simp_all add: gomap_simps)
  then show ?thesis by (simp add: asum_split delete_update_same)
qed

lemma length_delete_Some:
  "gomap_wf m \<Longrightarrow> map_of m k = Some v \<Longrightarrow> length m = Suc (length (AList.delete k m))"
  using asum_split [of m k v "\<lambda>_. 1 :: nat"]
  by (simp add: asum_def sum_list_triv)

lemma length_delete_less:
  "map_of m k = Some v \<Longrightarrow> length (AList.delete k m) < length m"
proof (induction m)
  case (Cons kv m)
  then show ?case
    using length_delete_le [of k m] by (cases kv) (auto split: if_splits)
qed simp

lemma length_update_None:
  "map_of m k = None \<Longrightarrow> length (AList.update k v m) = Suc (length m)"
  by (induction m) (auto split: if_splits)

lemma length_update_Some:
  "map_of m k = Some w \<Longrightarrow> length (AList.update k v m) = length m"
  by (induction m) (auto split: if_splits)

lemma gomap_in_iff: "gomap_wf m \<Longrightarrow> (k, v) \<in> set m \<longleftrightarrow> map_of m k = Some v"
  by auto

lemma set_delete: "(k, v) \<in> set (AList.delete j m) \<longleftrightarrow> k \<noteq> j \<and> (k, v) \<in> set m"
  by (induction m) auto

lemma set_update:
  "gomap_wf m \<Longrightarrow>
   (k, v) \<in> set (AList.update j w m) \<longleftrightarrow> (if k = j then v = w else (k, v) \<in> set m)"
  by (induction m) (auto split: if_splits simp: AList.dom_update rev_image_eqI)

section \<open>Lists\<close>

lemma sort_key_perm_unique:
  assumes "mset xs = mset ys" and "distinct (map f xs)"
  shows "sort_key f xs = sort_key f ys"
proof -
  have "inj_on f (set xs)"
    using assms(2) by (simp add: distinct_map)
  then show ?thesis
    using assms(1) by (intro sort_key_inj_key_eq) simp_all
qed

lemma length_filter_mono:
  "(\<And>x. x \<in> set xs \<Longrightarrow> P x \<Longrightarrow> Q x) \<Longrightarrow> length (filter P xs) \<le> length (filter Q xs)"
  by (induction xs) (auto simp: le_SucI)

lemma sum_list_perm: "mset xs = mset ys \<Longrightarrow> sum_list xs = (sum_list ys :: 'a::comm_monoid_add)"
  by (metis sum_mset_sum_list)

lemma sum_list_map_perm:
  "mset xs = mset ys \<Longrightarrow> (\<Sum>x\<leftarrow>xs. f x) = (\<Sum>y\<leftarrow>ys. f y :: 'a::comm_monoid_add)"
  by (metis mset_map sum_list_perm)

end
