(* ===== verification/SpanModel.thy ===== *)
theory SpanModel
  imports Prelude
begin

text \<open>
  The data model shared by ingest and storage (\<^verbatim>\<open>internal/model\<close>): the span record, and the
  5-minute ledger bucket of a span's start time. Runs of an operation over a list of calls,
  used by the state machines of the later theories, are defined here too.
\<close>

record SpanRecord =
  sr_ProjectID :: int
  sr_TraceID :: string
  sr_SpanID :: string
  sr_ParentSpanID :: string
  sr_Name :: string
  sr_Service :: string
  sr_Resource :: string
  sr_Kind :: string
  sr_Status :: string
  sr_StartTimeUs :: int
  sr_DurationUs :: int
  sr_Attributes :: string
  sr_Events :: string
  sr_SampleWeight :: int

definition SpanLedgerBucketSeconds :: int where
  "SpanLedgerBucketSeconds = 300"

definition SpanLedgerBucket :: "int \<Rightarrow> int" where
  "SpanLedgerBucket startUs =
     (let sec = go_div startUs 1000000 in sec - go_mod sec SpanLedgerBucketSeconds)"

text \<open>The zero value of a span record, which fills a fresh ring buffer.\<close>

definition zero_span :: SpanRecord where
  "zero_span = \<lparr>sr_ProjectID = 0, sr_TraceID = [], sr_SpanID = [], sr_ParentSpanID = [],
     sr_Name = [], sr_Service = [], sr_Resource = [], sr_Kind = [], sr_Status = [],
     sr_StartTimeUs = 0, sr_DurationUs = 0, sr_Attributes = [], sr_Events = [],
     sr_SampleWeight = 0\<rparr>"

section \<open>Runs of an operation\<close>

text \<open>
  \<open>run_ops f s es\<close> performs the calls \<open>es\<close> of \<open>f\<close> one after another from state \<open>s\<close> and
  collects what they return.
\<close>

fun run_ops :: "('s \<Rightarrow> 'e \<Rightarrow> 'o \<times> 's) \<Rightarrow> 's \<Rightarrow> 'e list \<Rightarrow> 'o list \<times> 's" where
  "run_ops f s [] = ([], s)"
| "run_ops f s (e # es) =
     (let (r, s') = f s e; (rs, t) = run_ops f s' es in (r # rs, t))"

lemma run_ops_length [simp]: "length (fst (run_ops f s es)) = length es"
proof (induction es arbitrary: s)
  case (Cons e es)
  obtain r s' where f: "f s e = (r, s')" by fastforce
  obtain rs t where "run_ops f s' es = (rs, t)" by fastforce
  with f Cons.IH [of s'] show ?case by simp
qed simp

lemma run_ops_Cons_fst: "fst (run_ops f s (e # es)) = fst (f s e) # fst (run_ops f (snd (f s e)) es)"
  by (simp split: prod.splits)

lemma run_ops_Cons_snd: "snd (run_ops f s (e # es)) = snd (run_ops f (snd (f s e)) es)"
  by (simp split: prod.splits)

lemmas run_ops_Cons = run_ops_Cons_fst run_ops_Cons_snd

lemma run_ops_inv:
  assumes "\<And>s e. I s \<Longrightarrow> I (snd (f s e))" and "I s"
  shows "I (snd (run_ops f s es))"
  using assms(2) by (induction es arbitrary: s) (simp_all add: run_ops_Cons_snd assms(1) del: run_ops.simps(2))

lemma SpanLedgerBucket_bounds:
  assumes "0 \<le> us"
  shows "SpanLedgerBucket us * 1000000 \<le> us"
    and "us < (SpanLedgerBucket us + SpanLedgerBucketSeconds) * 1000000"
    and "SpanLedgerBucketSeconds dvd SpanLedgerBucket us"
proof -
  let ?s = "us div 1000000"
  have b: "SpanLedgerBucket us = ?s - ?s mod 300"
    using assms
    by (simp add: SpanLedgerBucket_def SpanLedgerBucketSeconds_def Let_def go_div_nonneg go_mod_nonneg)
  have m: "0 \<le> ?s mod 300" "?s mod 300 < 300" by simp_all
  have d: "?s * 1000000 \<le> us" "us < (?s + 1) * 1000000" by simp_all
  show "SpanLedgerBucket us * 1000000 \<le> us" using b m d by linarith
  show "us < (SpanLedgerBucket us + SpanLedgerBucketSeconds) * 1000000"
    using b m d by (simp add: SpanLedgerBucketSeconds_def)
  show "SpanLedgerBucketSeconds dvd SpanLedgerBucket us"
    using b by (simp add: SpanLedgerBucketSeconds_def)
qed

end
