(* ===== verification/SpanLedger.thy ===== *)
theory SpanLedger
  imports SpanModel
begin

text \<open>
  The span ledger (\<^verbatim>\<open>internal/spanledger/tally.go\<close>): spans counted per project and 5-minute
  bucket at each stage between acceptance and storage, and the report that hands the counts to
  a sink and keeps them when the sink fails. A nil \<^verbatim>\<open>*Tally\<close> is \<open>None\<close>.
\<close>

datatype Column = Accepted | SampledOut | ShedUnsampled | LostInBuffer | Forwarded
  | Processed | Failed

definition all_columns :: "Column list" where
  "all_columns = [Accepted, SampledOut, ShedUnsampled, LostInBuffer, Forwarded, Processed, Failed]"

record rowKey =
  rk_bucket :: int
  rk_projectID :: int

type_synonym counts = "Column \<Rightarrow> int"
type_synonym rows = "(rowKey \<times> counts) list"
type_synonym Tally = "rows option"

record SpanLedgerRow =
  lr_Bucket :: int
  lr_ProjectID :: int
  lr_Accepted :: int
  lr_SampledOut :: int
  lr_ShedUnsampled :: int
  lr_LostInBuffer :: int
  lr_Forwarded :: int
  lr_Processed :: int
  lr_Failed :: int

definition tally_New :: Tally where
  "tally_New = Some []"

definition zero_counts :: counts where
  "zero_counts = (\<lambda>_. 0)"

text \<open>\<^verbatim>\<open>row\<close> returns the counts of a key, creating them when missing; the caller writes them.\<close>

definition tally_row :: "rows \<Rightarrow> rowKey \<Rightarrow> counts" where
  "tally_row t k = (case map_of t k of None \<Rightarrow> zero_counts | Some r \<Rightarrow> r)"

definition tally_add :: "rows \<Rightarrow> Column \<Rightarrow> int \<Rightarrow> int \<Rightarrow> int \<Rightarrow> rows" where
  "tally_add t col projectID startUs n =
     (let k = \<lparr>rk_bucket = SpanLedgerBucket startUs, rk_projectID = projectID\<rparr>;
          r = tally_row t k
      in AList.update k (r(col := r col + n)) t)"

definition tally_Add :: "Tally \<Rightarrow> Column \<Rightarrow> int \<Rightarrow> int \<Rightarrow> int \<Rightarrow> Tally" where
  "tally_Add t col projectID startUs n =
     (case t of None \<Rightarrow> None | Some rs \<Rightarrow> Some (tally_add rs col projectID startUs n))"

definition tally_AddSpans :: "Tally \<Rightarrow> Column \<Rightarrow> SpanRecord list \<Rightarrow> int \<Rightarrow> Tally" where
  "tally_AddSpans t col spans sign =
     (case t of None \<Rightarrow> None
      | Some rs \<Rightarrow>
          if spans = [] then Some rs
          else Some (fold (\<lambda>s rs. tally_add rs col (sr_ProjectID s) (sr_StartTimeUs s) sign) spans rs))"

definition ledger_row :: "rowKey \<Rightarrow> counts \<Rightarrow> SpanLedgerRow" where
  "ledger_row k r =
     \<lparr>lr_Bucket = rk_bucket k, lr_ProjectID = rk_projectID k,
      lr_Accepted = r Accepted, lr_SampledOut = r SampledOut, lr_ShedUnsampled = r ShedUnsampled,
      lr_LostInBuffer = r LostInBuffer, lr_Forwarded = r Forwarded,
      lr_Processed = r Processed, lr_Failed = r Failed\<rparr>"

text \<open>\<^verbatim>\<open>Take\<close>: \<open>ord\<close> is the order in which the map is ranged over.\<close>

definition tally_Take :: "((rowKey \<times> counts) list \<Rightarrow> (rowKey \<times> counts) list) \<Rightarrow> Tally
    \<Rightarrow> SpanLedgerRow list \<times> Tally" where
  "tally_Take ord t =
     (case t of None \<Rightarrow> ([], None)
      | Some rs \<Rightarrow>
          (map (\<lambda>(k, r). ledger_row k r)
             (filter (\<lambda>(k, r). list_ex (\<lambda>c. r c \<noteq> 0) all_columns) (ord rs)), Some []))"

definition merge_row :: "rows \<Rightarrow> SpanLedgerRow \<Rightarrow> rows" where
  "merge_row t s =
     (let k = \<lparr>rk_bucket = lr_Bucket s, rk_projectID = lr_ProjectID s\<rparr>;
          r = tally_row t k;
          r' = r(Accepted := r Accepted + lr_Accepted s,
                 SampledOut := r SampledOut + lr_SampledOut s,
                 ShedUnsampled := r ShedUnsampled + lr_ShedUnsampled s,
                 LostInBuffer := r LostInBuffer + lr_LostInBuffer s,
                 Forwarded := r Forwarded + lr_Forwarded s,
                 Processed := r Processed + lr_Processed s,
                 Failed := r Failed + lr_Failed s)
      in AList.update k r' t)"

definition tally_Merge :: "Tally \<Rightarrow> SpanLedgerRow list \<Rightarrow> Tally" where
  "tally_Merge t rs = (case t of None \<Rightarrow> None | Some m \<Rightarrow> Some (fold (\<lambda>s m. merge_row m s) rs m))"

text \<open>
  \<^verbatim>\<open>Report\<close> against a sink that returns an error or not. Between \<^verbatim>\<open>Take\<close> and \<^verbatim>\<open>Merge\<close> the
  lock is free, so other goroutines count spans meanwhile: \<open>calls\<close> are the \<^verbatim>\<open>Add\<close> calls they
  make. The result says which rows the sink took.
\<close>

type_synonym add_call = "Column \<times> int \<times> int \<times> int"

definition run_calls :: "add_call list \<Rightarrow> Tally \<Rightarrow> Tally" where
  "run_calls calls t = fold (\<lambda>(col, p, us, n) t. tally_Add t col p us n) calls t"

definition tally_Report :: "((rowKey \<times> counts) list \<Rightarrow> (rowKey \<times> counts) list)
    \<Rightarrow> (SpanLedgerRow list \<Rightarrow> 'err option) \<Rightarrow> add_call list \<Rightarrow> Tally
    \<Rightarrow> 'err option \<times> SpanLedgerRow list \<times> Tally" where
  "tally_Report ord sink calls t =
     (case tally_Take ord t of (rs, t') \<Rightarrow>
        if rs = [] then (None, [], run_calls calls t')
        else case sink rs of
            Some e \<Rightarrow> (Some e, [], tally_Merge (run_calls calls t') rs)
          | None \<Rightarrow> (None, rs, run_calls calls t'))"

section \<open>Reading the counts\<close>

text \<open>\<open>cell\<close> reads one count of the tally, \<open>row_cell\<close> one count of a list of reported rows.\<close>

definition cell :: "Tally \<Rightarrow> rowKey \<Rightarrow> Column \<Rightarrow> int" where
  "cell t k c = (case t of None \<Rightarrow> 0 | Some rs \<Rightarrow> tally_row rs k c)"

definition row_count :: "SpanLedgerRow \<Rightarrow> counts" where
  "row_count s c = (case c of Accepted \<Rightarrow> lr_Accepted s | SampledOut \<Rightarrow> lr_SampledOut s
     | ShedUnsampled \<Rightarrow> lr_ShedUnsampled s | LostInBuffer \<Rightarrow> lr_LostInBuffer s
     | Forwarded \<Rightarrow> lr_Forwarded s | Processed \<Rightarrow> lr_Processed s | Failed \<Rightarrow> lr_Failed s)"

definition row_cell :: "SpanLedgerRow list \<Rightarrow> rowKey \<Rightarrow> Column \<Rightarrow> int" where
  "row_cell rs k c =
     (\<Sum>s\<leftarrow>rs. if lr_Bucket s = rk_bucket k \<and> lr_ProjectID s = rk_projectID k then row_count s c else 0)"

definition span_key :: "SpanRecord \<Rightarrow> rowKey" where
  "span_key s = \<lparr>rk_bucket = SpanLedgerBucket (sr_StartTimeUs s), rk_projectID = sr_ProjectID s\<rparr>"

definition tally_wf :: "Tally \<Rightarrow> bool" where
  "tally_wf t \<longleftrightarrow> (case t of None \<Rightarrow> True | Some rs \<Rightarrow> gomap_wf rs)"

definition nspans :: "rowKey \<Rightarrow> SpanRecord list \<Rightarrow> int" where
  "nspans k spans = int (length (filter (\<lambda>s. span_key s = k) spans))"

lemma nspans_simps [simp]:
  "nspans k [] = 0"
  "nspans k (s # ss) = (if span_key s = k then 1 else 0) + nspans k ss"
  "nspans k (ss @ ts) = nspans k ss + nspans k ts"
  by (simp_all add: nspans_def)

lemma tally_row_update [simp]:
  "tally_row (AList.update k r t) k' = (if k' = k then r else tally_row t k')"
  by (simp add: tally_row_def AList.update_conv')

lemma tally_row_Nil [simp]: "tally_row [] k = zero_counts"
  by (simp add: tally_row_def)

lemma tally_row_add:
  "tally_row (tally_add t col p us n) k c =
     tally_row t k c + (if c = col \<and> k = \<lparr>rk_bucket = SpanLedgerBucket us, rk_projectID = p\<rparr> then n else 0)"
  by (auto simp: tally_add_def Let_def)

lemma tally_row_fold_add:
  "tally_row (fold (\<lambda>s rs. tally_add rs col (sr_ProjectID s) (sr_StartTimeUs s) sign) spans rs) k c =
     tally_row rs k c + (if c = col then sign * nspans k spans else 0)"
  by (induction spans arbitrary: rs)
    (auto simp: tally_row_add span_key_def algebra_simps)

lemma cell_Add:
  "t \<noteq> None \<Longrightarrow> cell (tally_Add t col (sr_ProjectID s) (sr_StartTimeUs s) n) k c =
     cell t k c + (if c = col \<and> k = span_key s then n else 0)"
  by (auto simp: cell_def tally_Add_def tally_row_add span_key_def split: option.splits)

lemma cell_AddSpans:
  "t \<noteq> None \<Longrightarrow> cell (tally_AddSpans t col spans sign) k c =
     cell t k c + (if c = col then sign * nspans k spans else 0)"
  by (auto simp: cell_def tally_AddSpans_def tally_row_fold_add split: option.splits)

lemma tally_live [simp]:
  "tally_Add t col p us n = None \<longleftrightarrow> t = None"
  "tally_AddSpans t col spans sign = None \<longleftrightarrow> t = None"
  "tally_Merge t rs = None \<longleftrightarrow> t = None"
  by (auto simp: tally_Add_def tally_AddSpans_def tally_Merge_def split: option.splits)

lemma tally_row_merge:
  "tally_row (merge_row t s) k c =
     tally_row t k c +
       (if lr_Bucket s = rk_bucket k \<and> lr_ProjectID s = rk_projectID k then row_count s c else 0)"
  by (cases c; cases k) (auto simp: merge_row_def Let_def row_count_def)

lemma tally_row_fold_merge:
  "tally_row (fold (\<lambda>s m. merge_row m s) rs t) k c = tally_row t k c + row_cell rs k c"
  by (induction rs arbitrary: t) (auto simp: tally_row_merge row_cell_def)

lemma cell_Merge: "t \<noteq> None \<Longrightarrow> cell (tally_Merge t rs) k c = cell t k c + row_cell rs k c"
  by (auto simp: cell_def tally_Merge_def tally_row_fold_merge split: option.splits)

lemma row_count_ledger_row [simp]: "row_count (ledger_row k r) c = r c"
  by (cases c) (simp_all add: row_count_def ledger_row_def)

lemma ledger_row_key [simp]:
  "lr_Bucket (ledger_row k r) = rk_bucket k" "lr_ProjectID (ledger_row k r) = rk_projectID k"
  by (simp_all add: ledger_row_def)

lemma rowKey_eq_iff: "rk_bucket k = rk_bucket j \<and> rk_projectID k = rk_projectID j \<longleftrightarrow> k = (j :: rowKey)"
  by (cases k; cases j) auto

lemma all_columns_UNIV: "set all_columns = UNIV"
proof -
  have "c \<in> set all_columns" for c by (cases c) (simp_all add: all_columns_def)
  then show ?thesis by blast
qed

lemma row_cell_Take:
  assumes "gomap_wf rs"
  shows "row_cell (map (\<lambda>(k, r). ledger_row k r)
           (filter (\<lambda>(k, r). list_ex (\<lambda>c. r c \<noteq> 0) all_columns) rs)) k c = tally_row rs k c"
  using assms
proof (induction rs)
  case Nil
  show ?case by (simp add: row_cell_def zero_counts_def)
next
  case (Cons kr rs)
  obtain j r where kr: "kr = (j, r)" by fastforce
  have zero: "\<not> list_ex (\<lambda>c. r c \<noteq> 0) all_columns \<Longrightarrow> r c = 0"
    using all_columns_UNIV by (auto simp: list_ex_iff)
  have new: "j = k \<Longrightarrow> tally_row rs k = zero_counts"
    using Cons.prems kr
    by (force simp: tally_row_def split: option.splits dest: map_of_SomeD)
  show ?case
    using Cons kr zero new rowKey_eq_iff [of j k]
    by (auto simp: row_cell_def tally_row_def zero_counts_def)
qed

lemma row_cell_perm:
  "mset rs = mset ss \<Longrightarrow> row_cell rs k c = row_cell ss k c"
  unfolding row_cell_def by (rule sum_list_map_perm)

lemma row_cell_Take_perm:
  assumes "permutes ord" and "tally_wf t"
  shows "row_cell (fst (tally_Take ord t)) k c = cell t k c"
proof (cases t)
  case None
  then show ?thesis by (simp add: tally_Take_def cell_def row_cell_def)
next
  case (Some rs)
  let ?rows = "\<lambda>xs. map (\<lambda>(k, r). ledger_row k r)
    (filter (\<lambda>(k, r). list_ex (\<lambda>c. r c \<noteq> 0) all_columns) xs)"
  have "mset (?rows (ord rs)) = mset (?rows rs)"
    using permutes_mset [OF assms(1), of rs] by (simp add: mset_filter)
  then have "row_cell (?rows (ord rs)) k c = row_cell (?rows rs) k c"
    by (rule row_cell_perm)
  also have "\<dots> = tally_row rs k c"
    using assms(2) Some by (intro row_cell_Take) (simp add: tally_wf_def)
  finally show ?thesis using Some by (simp add: tally_Take_def cell_def)
qed

section \<open>Well-formedness\<close>

lemma tally_wf_New: "tally_wf tally_New"
  by (simp add: tally_wf_def tally_New_def)

lemma gomap_wf_tally_add: "gomap_wf t \<Longrightarrow> gomap_wf (tally_add t col p us n)"
  by (simp add: tally_add_def Let_def AList.distinct_update)

lemma tally_wf_Add: "tally_wf t \<Longrightarrow> tally_wf (tally_Add t col p us n)"
  by (auto simp: tally_wf_def tally_Add_def gomap_wf_tally_add split: option.splits)

lemma gomap_wf_fold_tally_add:
  "gomap_wf rs \<Longrightarrow>
   gomap_wf (fold (\<lambda>s rs. tally_add rs col (sr_ProjectID s) (sr_StartTimeUs s) sign) spans rs)"
  by (induction spans arbitrary: rs) (simp_all add: gomap_wf_tally_add)

lemma tally_wf_AddSpans: "tally_wf t \<Longrightarrow> tally_wf (tally_AddSpans t col spans sign)"
  by (auto simp: tally_wf_def tally_AddSpans_def gomap_wf_fold_tally_add split: option.splits)

lemma gomap_wf_fold_merge: "gomap_wf m \<Longrightarrow> gomap_wf (fold (\<lambda>s m. merge_row m s) rs m)"
  by (induction rs arbitrary: m) (simp_all add: merge_row_def Let_def AList.distinct_update)

lemma tally_wf_Merge: "tally_wf t \<Longrightarrow> tally_wf (tally_Merge t rs)"
  by (auto simp: tally_wf_def tally_Merge_def gomap_wf_fold_merge split: option.splits)

section \<open>Reports lose nothing\<close>

definition calls_cell :: "add_call list \<Rightarrow> rowKey \<Rightarrow> Column \<Rightarrow> int" where
  "calls_cell calls k c =
     (\<Sum>(col, p, us, n)\<leftarrow>calls.
        if c = col \<and> k = \<lparr>rk_bucket = SpanLedgerBucket us, rk_projectID = p\<rparr> then n else 0)"

lemma cell_run_calls:
  "t \<noteq> None \<Longrightarrow> cell (run_calls calls t) k c = cell t k c + calls_cell calls k c"
proof (induction calls arbitrary: t)
  case (Cons x calls)
  obtain col p us n where x: "x = (col, p, us, n)" by (cases x)
  have "cell (run_calls calls (tally_Add t col p us n)) k c =
      cell (tally_Add t col p us n) k c + calls_cell calls k c"
    by (rule Cons.IH) (use Cons.prems in \<open>simp del: not_None_eq\<close>)
  moreover have "cell (tally_Add t col p us n) k c = cell t k c +
      (if c = col \<and> k = \<lparr>rk_bucket = SpanLedgerBucket us, rk_projectID = p\<rparr> then n else 0)"
    using Cons.prems by (auto simp: cell_def tally_Add_def tally_row_add split: option.splits)
  ultimately show ?case by (simp add: x run_calls_def calls_cell_def)
qed (simp add: run_calls_def calls_cell_def)

lemma run_calls_live [simp]: "run_calls calls t = None \<longleftrightarrow> t = None"
proof (induction calls arbitrary: t)
  case (Cons x calls)
  obtain col p us n where "x = (col, p, us, n)" by (cases x)
  with Cons [of "tally_Add t col p us n"] show ?case by (simp add: run_calls_def)
qed (simp add: run_calls_def)

lemma tally_wf_run_calls: "tally_wf t \<Longrightarrow> tally_wf (run_calls calls t)"
proof (induction calls arbitrary: t)
  case (Cons x calls)
  obtain col p us n where "x = (col, p, us, n)" by (cases x)
  with Cons.IH [of "tally_Add t col p us n"] Cons.prems show ?case
    by (simp add: run_calls_def tally_wf_Add)
qed (simp add: run_calls_def)

lemma tally_Take_rest: "t \<noteq> None \<Longrightarrow> snd (tally_Take ord t) = Some []"
  by (auto simp: tally_Take_def)

lemma cell_Some_Nil [simp]: "cell (Some []) k c = 0"
  by (simp add: cell_def zero_counts_def)

text \<open>
  C38: a report loses no count and counts nothing twice. Whether the sink takes the rows or
  fails, and whatever other goroutines count while the sink runs, for every project, bucket and
  column the rows the sink took plus the counts left in the tally are the counts before the
  report plus the concurrent ones.
\<close>

theorem tally_Report_conserves:
  assumes "permutes ord" and "tally_wf t" and "t \<noteq> None"
  shows "case tally_Report ord sink calls t of (e, sent, t') \<Rightarrow>
    row_cell sent k c + cell t' k c = cell t k c + calls_cell calls k c \<and> tally_wf t'
    \<and> (e \<noteq> None \<longrightarrow> sent = [])"
proof -
  obtain rs t' where take: "tally_Take ord t = (rs, t')" by fastforce
  have t': "t' = Some []" using tally_Take_rest [OF assms(3), of ord] take by simp
  have rs: "row_cell rs k c = cell t k c"
    using row_cell_Take_perm [OF assms(1,2), of k c] take by simp
  have wf: "tally_wf (run_calls calls t')"
    by (rule tally_wf_run_calls) (simp add: t' tally_wf_def)
  have cells: "cell (run_calls calls t') k c = calls_cell calls k c"
    using cell_run_calls [of t' calls k c] by (simp add: t')
  have nil: "row_cell [] k c = 0" by (simp add: row_cell_def)
  show ?thesis
    using rs wf cells nil
    by (auto simp: tally_Report_def take t' cell_Merge tally_wf_Merge split: option.splits)
qed

theorem tally_Report_conserves_witness:
  "case tally_Report rev (\<lambda>_. Some ''down'') [(Forwarded, 1, 600000000, 2)]
       (tally_Add tally_New Accepted 1 600000000 3) of (e, sent, t') \<Rightarrow>
    row_cell sent \<lparr>rk_bucket = 600, rk_projectID = 1\<rparr> Accepted
      + cell t' \<lparr>rk_bucket = 600, rk_projectID = 1\<rparr> Accepted
      = cell (tally_Add tally_New Accepted 1 600000000 3) \<lparr>rk_bucket = 600, rk_projectID = 1\<rparr> Accepted
        + calls_cell [(Forwarded, 1, 600000000, 2)] \<lparr>rk_bucket = 600, rk_projectID = 1\<rparr> Accepted
    \<and> tally_wf t' \<and> (e \<noteq> None \<longrightarrow> sent = [])"
  by (rule tally_Report_conserves) (simp_all add: tally_wf_Add tally_wf_New, simp add: tally_New_def)

end
