(* ===== verification/CarryTally.thy ===== *)
theory CarryTally
  imports SpanLedger
begin

text \<open>
  Counting the traces the buffer drops (\<^verbatim>\<open>internal/ingest/trace_buffer_carry.go\<close>): per project
  and root operation, the clean traces dropped since the last kept one, and a dropped trace
  held back to be stored as their carrier. The buffered trace itself, which the buffer's
  components share, is declared here.
\<close>

record bufferedTrace =
  bt_id :: string
  bt_spans :: "SpanRecord list"
  bt_hasError :: bool
  bt_rootOp :: string
  bt_projectID :: int
  bt_firstSeen :: gotime
  bt_rootSeen :: gotime
  bt_sacrificial :: bool
  bt_seq :: nat
  bt_droppedAs :: Column

definition hasRoot :: "bufferedTrace \<Rightarrow> bool" where
  "hasRoot tr \<longleftrightarrow> \<not> IsZero (bt_rootSeen tr)"

definition stampWeight :: "bufferedTrace \<Rightarrow> int \<Rightarrow> bufferedTrace" where
  "stampWeight tr w = tr\<lparr>bt_spans := map (\<lambda>s. s\<lparr>sr_SampleWeight := w\<rparr>) (bt_spans tr)\<rparr>"

definition traceOp :: "bufferedTrace \<Rightarrow> string" where
  "traceOp tr =
     (if bt_rootOp tr \<noteq> [] \<or> bt_spans tr = [] then bt_rootOp tr else sr_Name (hd (bt_spans tr)))"

record carryKey =
  ck_projectID :: int
  ck_op :: string

record carryEntry =
  ce_dropped :: int
  ce_held :: "bufferedTrace option"
  ce_since :: gotime

record carryTally =
  ct_m :: "(carryKey \<times> carryEntry) list"
  ct_heldSpans :: int
  ct_maxHeldSpans :: int
  ct_carriedTotal :: int
  ct_uncarriedTotal :: int

definition carryWait :: duration where
  "carryWait = hour"

definition defaultMaxHeldSpans :: int where
  "defaultMaxHeldSpans = 10000"

definition newCarryTally :: "int \<Rightarrow> carryTally" where
  "newCarryTally maxBufferedSpans =
     (let limit = go_div maxBufferedSpans 5;
          limit = (if limit \<le> 0 then defaultMaxHeldSpans else limit)
      in \<lparr>ct_m = [], ct_heldSpans = 0, ct_maxHeldSpans = limit, ct_carriedTotal = 0,
          ct_uncarriedTotal = 0\<rparr>)"

definition held_len :: "carryEntry \<Rightarrow> int" where
  "held_len e = (case ce_held e of None \<Rightarrow> 0 | Some tr \<Rightarrow> int (length (bt_spans tr)))"

definition carry_drop :: "carryTally \<Rightarrow> bufferedTrace \<Rightarrow> gotime \<Rightarrow> carryTally" where
  "carry_drop c tr now =
     (if bt_spans tr = [] \<or> \<not> hasRoot tr then c
      else let k = \<lparr>ck_projectID = bt_projectID tr, ck_op = traceOp tr\<rparr>;
               e = (case map_of (ct_m c) k of
                      None \<Rightarrow> \<lparr>ce_dropped = 0, ce_held = None, ce_since = now\<rparr> | Some e \<Rightarrow> e);
               e = e\<lparr>ce_dropped := ce_dropped e + 1\<rparr>;
               held = held_len e;
               n = int (length (bt_spans tr))
        in if ct_heldSpans c - held + n \<le> ct_maxHeldSpans c
           then c\<lparr>ct_m := AList.update k (e\<lparr>ce_held := Some tr\<rparr>) (ct_m c),
                  ct_heldSpans := ct_heldSpans c + (n - held)\<rparr>
           else c\<lparr>ct_m := AList.update k e (ct_m c)\<rparr>)"

definition carry_release :: "carryTally \<Rightarrow> carryKey \<Rightarrow> carryEntry \<Rightarrow> carryTally" where
  "carry_release c k e =
     c\<lparr>ct_m := AList.delete k (ct_m c), ct_heldSpans := ct_heldSpans c - held_len e\<rparr>"

definition carry_take :: "carryTally \<Rightarrow> int \<Rightarrow> string \<Rightarrow> int \<times> carryTally" where
  "carry_take c projectID opn =
     (let k = \<lparr>ck_projectID = projectID, ck_op = opn\<rparr> in
      case map_of (ct_m c) k of
        None \<Rightarrow> (0, c)
      | Some e \<Rightarrow>
          (ce_dropped e,
           (carry_release c k e)\<lparr>ct_carriedTotal := ct_carriedTotal c + ce_dropped e\<rparr>))"

definition expire_entry :: "gotime \<Rightarrow> bool \<Rightarrow> carryKey \<times> carryEntry \<Rightarrow> bufferedTrace list \<times> carryTally
    \<Rightarrow> bufferedTrace list \<times> carryTally" where
  "expire_entry now all ke st =
     (case ke of (k, e) \<Rightarrow> case st of (out, c) \<Rightarrow>
        if \<not> all \<and> time_sub now (ce_since e) < carryWait then (out, c)
        else let c = carry_release c k e in
          case ce_held e of
            None \<Rightarrow> (out, c\<lparr>ct_uncarriedTotal := ct_uncarriedTotal c + ce_dropped e\<rparr>)
          | Some tr \<Rightarrow> (out @ [stampWeight tr (ce_dropped e)],
                        c\<lparr>ct_carriedTotal := ct_carriedTotal c + ce_dropped e\<rparr>))"

type_synonym carry_order = "(carryKey \<times> carryEntry) list \<Rightarrow> (carryKey \<times> carryEntry) list"

definition carry_expired :: "carry_order \<Rightarrow> carryTally \<Rightarrow> gotime \<Rightarrow> bool \<Rightarrow> bufferedTrace list \<times> carryTally" where
  "carry_expired ord c now all = fold (expire_entry now all) (ord (ct_m c)) ([], c)"

definition carry_stats :: "carryTally \<Rightarrow> int \<times> int \<times> int" where
  "carry_stats c = (ct_heldSpans c, ct_carriedTotal c, ct_uncarriedTotal c)"

section \<open>Well-formedness\<close>

text \<open>
  The traces waiting for a carrier, and the invariant: the held spans are counted exactly and
  stay within the budget, and a held trace is a rooted trace with spans.
\<close>

definition pending_drops :: "carryTally \<Rightarrow> int" where
  "pending_drops c = asum ce_dropped (ct_m c)"

definition entry_ok :: "carryEntry \<Rightarrow> bool" where
  "entry_ok e \<longleftrightarrow> 1 \<le> ce_dropped e \<and>
     (case ce_held e of None \<Rightarrow> True | Some tr \<Rightarrow> bt_spans tr \<noteq> [] \<and> hasRoot tr)"

definition carry_wf :: "carryTally \<Rightarrow> bool" where
  "carry_wf c \<longleftrightarrow> gomap_wf (ct_m c) \<and> ct_heldSpans c = asum held_len (ct_m c)
     \<and> ct_heldSpans c \<le> ct_maxHeldSpans c
     \<and> (\<forall>(k, e) \<in> set (ct_m c). entry_ok e)"

lemma held_len_nonneg: "0 \<le> held_len e"
  by (simp add: held_len_def split: option.splits)

lemma carry_wf_new: "carry_wf (newCarryTally n)"
  by (simp add: carry_wf_def newCarryTally_def Let_def defaultMaxHeldSpans_def)

lemma entry_okD: "carry_wf c \<Longrightarrow> map_of (ct_m c) k = Some e \<Longrightarrow> entry_ok e"
  unfolding carry_wf_def using map_of_SomeD by fastforce

lemma asum_upsert:
  fixes f :: "'v \<Rightarrow> int"
  assumes "gomap_wf m"
  shows "asum f (AList.update k v' m) =
    asum f m + f v' - (case map_of m k of None \<Rightarrow> 0 | Some v \<Rightarrow> f v)"
proof (cases "map_of m k")
  case None
  then show ?thesis by (simp add: asum_update_new)
next
  case (Some v)
  then show ?thesis using assms asum_split [OF assms Some, of f] by (simp add: asum_update_old)
qed

lemma carry_drop_entry:
  assumes "carry_wf c" and "bt_spans tr \<noteq> []" and "hasRoot tr"
  obtains k e h where "ct_m (carry_drop c tr now) = AList.update k (e\<lparr>ce_dropped := ce_dropped e + 1, ce_held := h\<rparr>) (ct_m c)"
    and "e = (case map_of (ct_m c) k of None \<Rightarrow> \<lparr>ce_dropped = 0, ce_held = None, ce_since = now\<rparr> | Some e \<Rightarrow> e)"
    and "h = Some tr \<and> ct_heldSpans c - held_len e + int (length (bt_spans tr)) \<le> ct_maxHeldSpans c
          \<and> ct_heldSpans (carry_drop c tr now) = ct_heldSpans c + int (length (bt_spans tr)) - held_len e
       \<or> h = ce_held e \<and> ct_heldSpans (carry_drop c tr now) = ct_heldSpans c"
proof -
  let ?k = "\<lparr>ck_projectID = bt_projectID tr, ck_op = traceOp tr\<rparr>"
  define e where "e = (case map_of (ct_m c) ?k of
    None \<Rightarrow> \<lparr>ce_dropped = 0, ce_held = None, ce_since = now\<rparr> | Some e \<Rightarrow> e)"
  have hl: "held_len (e\<lparr>ce_dropped := d\<rparr>) = held_len e" for d by (simp add: held_len_def)
  show ?thesis
  proof (cases "ct_heldSpans c - held_len e + int (length (bt_spans tr)) \<le> ct_maxHeldSpans c")
    case True
    then show ?thesis
      using assms(2,3) hl
      by (intro that [where k = ?k and e = e and h = "Some tr"]) (simp_all add: carry_drop_def Let_def e_def [symmetric])
  next
    case False
    then show ?thesis
      using assms(2,3) hl
      by (intro that [where k = ?k and e = e and h = "ce_held e"]) (simp_all add: carry_drop_def Let_def e_def [symmetric])
  qed
qed

lemma carry_drop_frame [simp]:
  "ct_maxHeldSpans (carry_drop c tr now) = ct_maxHeldSpans c"
  "ct_carriedTotal (carry_drop c tr now) = ct_carriedTotal c"
  "ct_uncarriedTotal (carry_drop c tr now) = ct_uncarriedTotal c"
  by (simp_all add: carry_drop_def Let_def)

lemma carry_drop_none: "bt_spans tr = [] \<or> \<not> hasRoot tr \<Longrightarrow> carry_drop c tr now = c"
  by (simp add: carry_drop_def)

lemma carry_wf_drop:
  assumes "carry_wf c"
  shows "carry_wf (carry_drop c tr now)"
proof (cases "bt_spans tr = [] \<or> \<not> hasRoot tr")
  case True
  then show ?thesis using assms by (simp add: carry_drop_none)
next
  case False
  then obtain k e h where m: "ct_m (carry_drop c tr now) =
      AList.update k (e\<lparr>ce_dropped := ce_dropped e + 1, ce_held := h\<rparr>) (ct_m c)"
    and e: "e = (case map_of (ct_m c) k of None \<Rightarrow> \<lparr>ce_dropped = 0, ce_held = None, ce_since = now\<rparr> | Some e \<Rightarrow> e)"
    and h: "h = Some tr \<and> ct_heldSpans c - held_len e + int (length (bt_spans tr)) \<le> ct_maxHeldSpans c
          \<and> ct_heldSpans (carry_drop c tr now) = ct_heldSpans c + int (length (bt_spans tr)) - held_len e
       \<or> h = ce_held e \<and> ct_heldSpans (carry_drop c tr now) = ct_heldSpans c"
    using carry_drop_entry [OF assms] by metis
  let ?e = "e\<lparr>ce_dropped := ce_dropped e + 1, ce_held := h\<rparr>"
  have wf: "gomap_wf (ct_m c)" "ct_heldSpans c = asum held_len (ct_m c)"
    "ct_heldSpans c \<le> ct_maxHeldSpans c" "\<forall>(k, e) \<in> set (ct_m c). entry_ok e"
    using assms by (simp_all add: carry_wf_def)
  have old: "(case map_of (ct_m c) k of None \<Rightarrow> 0 | Some v \<Rightarrow> held_len v) = held_len e"
    using e by (auto simp: held_len_def split: option.splits)
  have ok: "entry_ok ?e"
  proof -
    have "0 \<le> ce_dropped e \<and> (case ce_held e of None \<Rightarrow> True | Some tr \<Rightarrow> bt_spans tr \<noteq> [] \<and> hasRoot tr)"
      using e entry_okD [OF assms, of k] by (auto simp: entry_ok_def split: option.splits)
    then show ?thesis using h False by (auto simp: entry_ok_def split: option.splits)
  qed
  have "asum held_len (ct_m (carry_drop c tr now)) = ct_heldSpans c + held_len ?e - held_len e"
    using asum_upsert [OF wf(1), of held_len k ?e] m old wf(2) by simp
  then have "ct_heldSpans (carry_drop c tr now) = asum held_len (ct_m (carry_drop c tr now))"
    using h by (auto simp: held_len_def)
  moreover have "ct_heldSpans (carry_drop c tr now) \<le> ct_maxHeldSpans c"
    using h wf(3) by auto
  ultimately show ?thesis
    using wf ok by (auto simp: carry_wf_def m AList.distinct_update set_update split: if_splits)
qed

lemma pending_drop:
  assumes "carry_wf c"
  shows "pending_drops (carry_drop c tr now) =
    pending_drops c + (if bt_spans tr = [] \<or> \<not> hasRoot tr then 0 else 1)"
proof (cases "bt_spans tr = [] \<or> \<not> hasRoot tr")
  case True
  then show ?thesis by (simp add: carry_drop_none)
next
  case False
  then obtain k e h where m: "ct_m (carry_drop c tr now) =
      AList.update k (e\<lparr>ce_dropped := ce_dropped e + 1, ce_held := h\<rparr>) (ct_m c)"
    and e: "e = (case map_of (ct_m c) k of None \<Rightarrow> \<lparr>ce_dropped = 0, ce_held = None, ce_since = now\<rparr> | Some e \<Rightarrow> e)"
    using carry_drop_entry [OF assms] by metis
  have "(case map_of (ct_m c) k of None \<Rightarrow> 0 | Some v \<Rightarrow> ce_dropped v) = ce_dropped e"
    using e by (auto split: option.splits)
  moreover have "gomap_wf (ct_m c)" using assms by (simp add: carry_wf_def)
  ultimately show ?thesis
    using False m by (simp add: pending_drops_def asum_upsert)
qed

lemma carry_wf_release:
  assumes "carry_wf c" and "map_of (ct_m c) k = Some e"
  shows "carry_wf (carry_release c k e)"
    and "pending_drops (carry_release c k e) = pending_drops c - ce_dropped e"
proof -
  have wf: "gomap_wf (ct_m c)" using assms(1) by (simp add: carry_wf_def)
  note split = asum_split [OF wf assms(2)]
  show "pending_drops (carry_release c k e) = pending_drops c - ce_dropped e"
    using split [of ce_dropped] by (simp add: pending_drops_def carry_release_def)
  show "carry_wf (carry_release c k e)"
    using assms(1) split [of held_len] held_len_nonneg [of e]
    by (auto simp: carry_wf_def carry_release_def AList.distinct_delete set_delete)
qed

lemma carry_wf_totals [simp]:
  "carry_wf (c\<lparr>ct_carriedTotal := x\<rparr>) = carry_wf c"
  "carry_wf (c\<lparr>ct_uncarriedTotal := x\<rparr>) = carry_wf c"
  "pending_drops (c\<lparr>ct_carriedTotal := x\<rparr>) = pending_drops c"
  "pending_drops (c\<lparr>ct_uncarriedTotal := x\<rparr>) = pending_drops c"
  by (simp_all add: carry_wf_def pending_drops_def)

lemma carry_take_props:
  assumes "carry_wf c"
  shows "carry_wf (snd (carry_take c p opn))"
    and "pending_drops (snd (carry_take c p opn)) = pending_drops c - fst (carry_take c p opn)"
    and "0 \<le> fst (carry_take c p opn)"
    and "ct_uncarriedTotal (snd (carry_take c p opn)) = ct_uncarriedTotal c"
  using carry_wf_release [OF assms] entry_okD [OF assms] assms
  by (force simp: carry_take_def Let_def entry_ok_def carry_release_def split: option.splits)+

section \<open>Expired drops\<close>

text \<open>
  The weight a trace carries is the one stamped on its spans, and the weight of a list of
  traces the sum. \<open>fresh\<close> says that an entry stays.
\<close>

definition trace_weight :: "bufferedTrace \<Rightarrow> int" where
  "trace_weight tr = (case bt_spans tr of [] \<Rightarrow> 0 | s # _ \<Rightarrow> sr_SampleWeight s)"

definition weight_sum :: "bufferedTrace list \<Rightarrow> int" where
  "weight_sum trs = (\<Sum>tr\<leftarrow>trs. trace_weight tr)"

definition fresh :: "gotime \<Rightarrow> bool \<Rightarrow> carryEntry \<Rightarrow> bool" where
  "fresh now all e \<longleftrightarrow> \<not> all \<and> time_sub now (ce_since e) < carryWait"

lemma stampWeight_simps [simp]:
  "bt_id (stampWeight tr w) = bt_id tr"
  "bt_hasError (stampWeight tr w) = bt_hasError tr"
  "bt_rootOp (stampWeight tr w) = bt_rootOp tr"
  "bt_projectID (stampWeight tr w) = bt_projectID tr"
  "bt_firstSeen (stampWeight tr w) = bt_firstSeen tr"
  "bt_rootSeen (stampWeight tr w) = bt_rootSeen tr"
  "bt_seq (stampWeight tr w) = bt_seq tr"
  "bt_droppedAs (stampWeight tr w) = bt_droppedAs tr"
  "length (bt_spans (stampWeight tr w)) = length (bt_spans tr)"
  "hasRoot (stampWeight tr w) = hasRoot tr"
  by (simp_all add: stampWeight_def hasRoot_def)

lemma trace_weight_stamp: "bt_spans tr \<noteq> [] \<Longrightarrow> trace_weight (stampWeight tr w) = w"
  by (cases "bt_spans tr") (simp_all add: trace_weight_def stampWeight_def)

lemma weight_sum_simps [simp]:
  "weight_sum [] = 0"
  "weight_sum (tr # trs) = trace_weight tr + weight_sum trs"
  "weight_sum (trs @ us) = weight_sum trs + weight_sum us"
  by (simp_all add: weight_sum_def)

lemma nspans_stamp [simp]: "nspans k (bt_spans (stampWeight tr w)) = nspans k (bt_spans tr)"
  by (simp add: nspans_def stampWeight_def filter_map comp_def span_key_def)

text \<open>What one loop iteration keeps: the invariant and the count.\<close>

definition carry_count :: "bufferedTrace list \<times> carryTally \<Rightarrow> int" where
  "carry_count st = (case st of (out, c) \<Rightarrow> weight_sum out + pending_drops c + ct_uncarriedTotal c)"

lemma carry_release_totals [simp]:
  "ct_carriedTotal (carry_release c k e) = ct_carriedTotal c"
  "ct_uncarriedTotal (carry_release c k e) = ct_uncarriedTotal c"
  "ct_maxHeldSpans (carry_release c k e) = ct_maxHeldSpans c"
  "ct_m (carry_release c k e) = AList.delete k (ct_m c)"
  by (simp_all add: carry_release_def)

lemma expire_entry_step:
  assumes wf: "carry_wf c" and k: "map_of (ct_m c) k = Some e"
    and step: "expire_entry now all (k, e) (out, c) = (out', c')"
  shows "carry_wf c'" and "carry_count (out', c') = carry_count (out, c)"
    and "ct_m c' = (if fresh now all e then ct_m c else AList.delete k (ct_m c))"
    and "set out' \<subseteq> set out \<union> {stampWeight t (ce_dropped e) |t. ce_held e = Some t}"
proof -
  note rel = carry_wf_release [OF wf k]
  have ok: "entry_ok e" by (rule entry_okD [OF wf k])
  show "carry_wf c'"
    using step wf rel(1) by (auto simp: expire_entry_def Let_def split: if_splits option.splits)
  show "carry_count (out', c') = carry_count (out, c)"
    using step rel(2) ok
    by (auto simp: expire_entry_def carry_count_def Let_def entry_ok_def trace_weight_stamp
        split: if_splits option.splits)
  show "ct_m c' = (if fresh now all e then ct_m c else AList.delete k (ct_m c))"
    using step by (auto simp: expire_entry_def fresh_def Let_def split: if_splits option.splits)
  show "set out' \<subseteq> set out \<union> {stampWeight t (ce_dropped e) |t. ce_held e = Some t}"
    using step by (auto simp: expire_entry_def Let_def split: if_splits option.splits)
qed

lemma expire_entries:
  assumes "carry_wf c" and "gomap_wf xs" and "\<forall>(k, e) \<in> set xs. map_of (ct_m c) k = Some e"
    and "fold (expire_entry now all) xs (out, c) = (out', c')"
  shows "carry_wf c' \<and> carry_count (out', c') = carry_count (out, c)
    \<and> (\<forall>k e. (k, e) \<in> set (ct_m c') \<longleftrightarrow> (k, e) \<in> set (ct_m c) \<and> ((k, e) \<notin> set xs \<or> fresh now all e))
    \<and> set out' \<subseteq> set out \<union> {stampWeight t (ce_dropped e) |k e t. (k, e) \<in> set xs \<and> ce_held e = Some t}"
  using assms
proof (induction xs arbitrary: out c)
  case Nil
  then show ?case by simp
next
  case (Cons x xs)
  obtain k e where x: "x = (k, e)" by fastforce
  obtain o1 c1 where s: "expire_entry now all (k, e) (out, c) = (o1, c1)" by fastforce
  have k: "map_of (ct_m c) k = Some e" using Cons.prems(3) x by simp
  note st = expire_entry_step [OF Cons.prems(1) k s]
  have wf: "gomap_wf (ct_m c)" using Cons.prems(1) by (simp add: carry_wf_def)
  have later: "\<forall>(j, f) \<in> set xs. map_of (ct_m c1) j = Some f"
    using Cons.prems(2,3) x by (force simp: st(3) AList.delete_conv')
  have "fold (expire_entry now all) xs (o1, c1) = (out', c')"
    using Cons.prems(4) x s by simp
  from Cons.IH [OF st(1) _ later this] Cons.prems(2) x
  have ih: "carry_wf c'" "carry_count (out', c') = carry_count (o1, c1)"
    "\<And>j f. (j, f) \<in> set (ct_m c') \<longleftrightarrow> (j, f) \<in> set (ct_m c1) \<and> ((j, f) \<notin> set xs \<or> fresh now all f)"
    "set out' \<subseteq> set o1 \<union> {stampWeight t (ce_dropped e) |k e t. (k, e) \<in> set xs \<and> ce_held e = Some t}"
    by simp_all
  have mem: "(j, f) \<in> set (ct_m c1) \<longleftrightarrow> (j, f) \<in> set (ct_m c) \<and> ((j, f) \<noteq> (k, e) \<or> fresh now all f)" for j f
    using wf k by (auto simp: st(3) set_delete dest: eq_key_imp_eq_value)
  have "set out' \<subseteq> set out \<union> {stampWeight t (ce_dropped e) |j e t. (j, e) \<in> set (x # xs) \<and> ce_held e = Some t}"
  proof
    fix tr
    assume "tr \<in> set out'"
    then consider "tr \<in> set out" | t where "ce_held e = Some t" "tr = stampWeight t (ce_dropped e)"
      | j f t where "(j, f) \<in> set xs" "ce_held f = Some t" "tr = stampWeight t (ce_dropped f)"
      using ih(4) st(4) by blast
    then show "tr \<in> set out \<union> {stampWeight t (ce_dropped e) |j e t. (j, e) \<in> set (x # xs) \<and> ce_held e = Some t}"
      by cases (use x in auto)
  qed
  moreover have "\<forall>j f. (j, f) \<in> set (ct_m c') \<longleftrightarrow>
      (j, f) \<in> set (ct_m c) \<and> ((j, f) \<notin> set (x # xs) \<or> fresh now all f)"
    using ih(3) mem x by auto
  ultimately show ?case using ih(1,2) st(2) by simp
qed

lemma carry_expired_props:
  assumes "carry_wf c" and "permutes ord" and "carry_expired ord c now all = (out, c')"
  shows "carry_wf c'"
    and "weight_sum out + pending_drops c' + ct_uncarriedTotal c' = pending_drops c + ct_uncarriedTotal c"
    and "\<And>k e. (k, e) \<in> set (ct_m c') \<longleftrightarrow> (k, e) \<in> set (ct_m c) \<and> fresh now all e"
    and "\<And>tr. tr \<in> set out \<Longrightarrow>
      \<exists>k e t. (k, e) \<in> set (ct_m c) \<and> ce_held e = Some t \<and> tr = stampWeight t (ce_dropped e)"
proof -
  have wf: "gomap_wf (ct_m c)" using assms(1) by (simp add: carry_wf_def)
  have "gomap_wf (ord (ct_m c))" using wf permutes_distinct [OF assms(2)] by blast
  moreover have "\<forall>(k, e) \<in> set (ord (ct_m c)). map_of (ct_m c) k = Some e"
    using wf by (auto simp: permutes_set [OF assms(2)])
  ultimately have all: "carry_wf c' \<and> carry_count (out, c') = carry_count ([], c)
    \<and> (\<forall>k e. (k, e) \<in> set (ct_m c') \<longleftrightarrow>
          (k, e) \<in> set (ct_m c) \<and> ((k, e) \<notin> set (ord (ct_m c)) \<or> fresh now all e))
    \<and> set out \<subseteq> set [] \<union> {stampWeight t (ce_dropped e) |k e t. (k, e) \<in> set (ord (ct_m c)) \<and> ce_held e = Some t}"
    using assms(1,3) unfolding carry_expired_def by (intro expire_entries) auto
  show "carry_wf c'" using all by blast
  show "weight_sum out + pending_drops c' + ct_uncarriedTotal c' = pending_drops c + ct_uncarriedTotal c"
    using all by (simp add: carry_count_def)
  show "\<And>k e. (k, e) \<in> set (ct_m c') \<longleftrightarrow> (k, e) \<in> set (ct_m c) \<and> fresh now all e"
    using all by (auto simp: permutes_set [OF assms(2)])
  have sub: "set out \<subseteq> {stampWeight t (ce_dropped e) |k e t. (k, e) \<in> set (ct_m c) \<and> ce_held e = Some t}"
    using all by (simp add: permutes_set [OF assms(2)])
  show "\<exists>k e t. (k, e) \<in> set (ct_m c) \<and> ce_held e = Some t \<and> tr = stampWeight t (ce_dropped e)"
    if "tr \<in> set out" for tr
    using subsetD [OF sub that] by blast
qed

lemma carry_expired_all:
  assumes "carry_wf c" and "permutes ord"
  shows "ct_m (snd (carry_expired ord c now True)) = []"
proof -
  obtain out c' where eq: "carry_expired ord c now True = (out, c')" by fastforce
  have "x \<notin> set (ct_m c')" for x
    using carry_expired_props(3) [OF assms eq] by (cases x) (simp add: fresh_def)
  then show ?thesis using eq by (cases "ct_m c'") auto
qed

end
