(* ===== verification/DecidedTraces.thy ===== *)
theory DecidedTraces
  imports CarryTally
begin

text \<open>
  The decisions of the last TTL (\<^verbatim>\<open>internal/ingest/trace_buffer_decided.go\<close>): a span that
  arrives after its trace was decided follows the decision. Decisions are kept in arrival
  order behind a head index, are bounded in number, and may be pending while a flush decides
  the trace outside the lock; spans that arrive meanwhile are held. The ledger, which the code
  reaches through a shared pointer, is passed to and returned by the operations that write it.
\<close>

definition evictQueueCompactAt :: nat where
  "evictQueueCompactAt = 1024"

definition DefaultMaxDecidedTraces :: int where
  "DefaultMaxDecidedTraces = 100000"

definition isErrorStatus :: "string \<Rightarrow> bool" where
  "isErrorStatus s \<longleftrightarrow> s = ''error'' \<or> s = ''ERROR'' \<or> s = ''Error'' \<or> s = ''2''"

record decision =
  dc_weight :: int
  dc_seq :: nat
  dc_pending :: bool

record decisionRef =
  df_id :: string
  df_seq :: nat
  df_at :: gotime

record decidedTraces =
  dt_m :: "(string \<times> decision) list"
  dt_order :: "decisionRef list"
  dt_head :: nat
  dt_seq :: nat
  dt_ttl :: duration
  dt_max :: int
  dt_held :: "(string \<times> SpanRecord list) list"
  dt_late :: "SpanRecord list"
  dt_evicted :: int
  dt_lateKept :: int
  dt_lateDropped :: int

definition newDecidedTraces :: "duration \<Rightarrow> int \<Rightarrow> decidedTraces" where
  "newDecidedTraces ttl maxEntries =
     \<lparr>dt_m = [], dt_order = [], dt_head = 0, dt_seq = 0, dt_ttl = ttl, dt_max = maxEntries,
      dt_held = [], dt_late = [], dt_evicted = 0, dt_lateKept = 0, dt_lateDropped = 0\<rparr>"

definition live :: "decidedTraces \<Rightarrow> decisionRef \<Rightarrow> bool" where
  "live d ref =
     (case map_of (dt_m d) (df_id ref) of None \<Rightarrow> False | Some e \<Rightarrow> dc_seq e = df_seq ref)"

definition zero_ref :: decisionRef where
  "zero_ref = \<lparr>df_id = [], df_seq = 0, df_at = zero_time\<rparr>"

text \<open>The head index is inside \<^verbatim>\<open>order\<close> wherever \<^verbatim>\<open>pop\<close> is called.\<close>

definition decided_pop :: "decidedTraces \<Rightarrow> decidedTraces" where
  "decided_pop d =
     (let ref = dt_order d ! dt_head d;
          d = (if live d ref then d\<lparr>dt_m := AList.delete (df_id ref) (dt_m d)\<rparr> else d)
      in d\<lparr>dt_order := (dt_order d)[dt_head d := zero_ref], dt_head := dt_head d + 1\<rparr>)"

definition decided_compact :: "decidedTraces \<Rightarrow> decidedTraces" where
  "decided_compact d =
     (if dt_head d < evictQueueCompactAt \<or> dt_head d * 2 < length (dt_order d) then d
      else d\<lparr>dt_order := drop (dt_head d) (dt_order d), dt_head := 0\<rparr>)"

lemma decided_pop_simps [simp]:
  "length (dt_order (decided_pop d)) = length (dt_order d)"
  "dt_head (decided_pop d) = dt_head d + 1"
  "dt_seq (decided_pop d) = dt_seq d"
  "dt_ttl (decided_pop d) = dt_ttl d"
  "dt_max (decided_pop d) = dt_max d"
  "dt_held (decided_pop d) = dt_held d"
  "dt_late (decided_pop d) = dt_late d"
  "dt_evicted (decided_pop d) = dt_evicted d"
  by (simp_all add: decided_pop_def Let_def)

function makeRoom_loop :: "decidedTraces \<Rightarrow> decidedTraces" where
  "makeRoom_loop d =
     (if dt_max d > 0 \<and> int (length (dt_m d)) \<ge> dt_max d \<and> dt_head d < length (dt_order d) then
        let d' = (if live d (dt_order d ! dt_head d) then d\<lparr>dt_evicted := dt_evicted d + 1\<rparr> else d)
        in makeRoom_loop (decided_pop d')
      else d)"
  by pat_completeness auto
termination
  by (relation "measure (\<lambda>d. length (dt_order d) - dt_head d)") (auto simp: Let_def)

declare makeRoom_loop.simps [simp del]

definition makeRoom :: "decidedTraces \<Rightarrow> decidedTraces" where
  "makeRoom d = decided_compact (makeRoom_loop d)"

definition decided_put :: "decidedTraces \<Rightarrow> string \<Rightarrow> int \<Rightarrow> bool \<Rightarrow> gotime
    \<Rightarrow> SpanRecord list \<times> decidedTraces" where
  "decided_put d tid weight pending at =
     (let held = (case map_of (dt_held d) tid of None \<Rightarrow> [] | Some xs \<Rightarrow> xs);
          d = d\<lparr>dt_held := AList.delete tid (dt_held d)\<rparr>
      in case map_of (dt_m d) tid of
           Some e \<Rightarrow>
             (held, d\<lparr>dt_m := AList.update tid (e\<lparr>dc_weight := weight, dc_pending := pending\<rparr>) (dt_m d)\<rparr>)
         | None \<Rightarrow>
             let d = makeRoom d;
                 seq = dt_seq d + 1
             in (held, d\<lparr>dt_seq := seq,
                   dt_m := AList.update tid \<lparr>dc_weight = weight, dc_seq = seq, dc_pending = pending\<rparr> (dt_m d),
                   dt_order := dt_order d @ [\<lparr>df_id = tid, df_seq = seq, df_at = at\<rparr>]\<rparr>))"

definition keep_late :: "decidedTraces \<Rightarrow> SpanRecord \<Rightarrow> int \<Rightarrow> decidedTraces" where
  "keep_late d rec weight =
     d\<lparr>dt_late := dt_late d @ [rec\<lparr>sr_SampleWeight := weight\<rparr>], dt_lateKept := dt_lateKept d + 1\<rparr>"

definition decided_follow :: "decidedTraces \<Rightarrow> Tally \<Rightarrow> SpanRecord \<Rightarrow> bool \<times> decidedTraces \<times> Tally" where
  "decided_follow d t rec =
     (let tid = sr_TraceID rec in
      case map_of (dt_m d) tid of
        None \<Rightarrow> (False, d, t)
      | Some e \<Rightarrow>
          if dc_pending e then
            (True, d\<lparr>dt_held := AList.update tid
               ((case map_of (dt_held d) tid of None \<Rightarrow> [] | Some xs \<Rightarrow> xs) @ [rec]) (dt_held d)\<rparr>, t)
          else if dc_weight e = 0 \<and> isErrorStatus (sr_Status rec) then
            (True, keep_late (d\<lparr>dt_m := AList.update tid (e\<lparr>dc_weight := 1\<rparr>) (dt_m d)\<rparr>) rec 1, t)
          else if dc_weight e = 0 then
            (True, d\<lparr>dt_lateDropped := dt_lateDropped d + 1\<rparr>,
             tally_Add t SampledOut (sr_ProjectID rec) (sr_StartTimeUs rec) 1)
          else (True, keep_late d rec (dc_weight e), t))"

definition decided_takeLate :: "decidedTraces \<Rightarrow> SpanRecord list \<times> decidedTraces" where
  "decided_takeLate d = (dt_late d, d\<lparr>dt_late := []\<rparr>)"

function expire_loop :: "gotime \<Rightarrow> decidedTraces \<Rightarrow> decidedTraces" where
  "expire_loop cutoff d =
     (if dt_head d < length (dt_order d) then
        let ref = dt_order d ! dt_head d in
        if live d ref \<and> df_at ref > cutoff then d else expire_loop cutoff (decided_pop d)
      else d)"
  by pat_completeness auto
termination
  by (relation "measure (\<lambda>(_, d). length (dt_order d) - dt_head d)") auto

declare expire_loop.simps [simp del]

definition decided_expire :: "decidedTraces \<Rightarrow> gotime \<Rightarrow> decidedTraces" where
  "decided_expire d now = decided_compact (expire_loop (now - dt_ttl d) d)"

section \<open>Well-formedness\<close>

text \<open>
  Every decision has its reference among the unconsumed ones, the sequence number is fresh,
  and the number of decisions is within the bound.
\<close>

definition refs :: "decidedTraces \<Rightarrow> decisionRef list" where
  "refs d = drop (dt_head d) (dt_order d)"

definition decided_wf :: "decidedTraces \<Rightarrow> bool" where
  "decided_wf d \<longleftrightarrow> gomap_wf (dt_m d) \<and> gomap_wf (dt_held d) \<and> dt_head d \<le> length (dt_order d)
     \<and> (\<forall>tid e. map_of (dt_m d) tid = Some e \<longrightarrow> (\<exists>ref \<in> set (refs d). df_id ref = tid \<and> df_seq ref = dc_seq e))
     \<and> (\<forall>ref \<in> set (refs d). df_seq ref \<le> dt_seq d)
     \<and> (0 < dt_max d \<longrightarrow> int (length (dt_m d)) \<le> dt_max d)"

lemma decided_wf_new: "decided_wf (newDecidedTraces ttl n)"
  by (simp add: decided_wf_def newDecidedTraces_def refs_def)

lemma refs_pop:
  "dt_head d < length (dt_order d) \<Longrightarrow> refs d = dt_order d ! dt_head d # refs (decided_pop d)"
  by (simp add: refs_def decided_pop_def Let_def Cons_nth_drop_Suc)

lemma refs_compact [simp]: "refs (decided_compact d) = refs d"
  by (simp add: refs_def decided_compact_def)

lemma compact_simps [simp]:
  "dt_m (decided_compact d) = dt_m d"
  "dt_seq (decided_compact d) = dt_seq d"
  "dt_ttl (decided_compact d) = dt_ttl d"
  "dt_max (decided_compact d) = dt_max d"
  "dt_held (decided_compact d) = dt_held d"
  "dt_late (decided_compact d) = dt_late d"
  "dt_evicted (decided_compact d) = dt_evicted d"
  "dt_head d \<le> length (dt_order d) \<Longrightarrow> dt_head (decided_compact d) \<le> length (dt_order (decided_compact d))"
  "live (decided_compact d) = live d"
  by (auto simp: decided_compact_def live_def)

lemma pop_m:
  "dt_m (decided_pop d) =
     (if live d (dt_order d ! dt_head d) then AList.delete (df_id (dt_order d ! dt_head d)) (dt_m d)
      else dt_m d)"
  by (simp add: decided_pop_def Let_def)

lemma decided_wf_compact: "decided_wf d \<Longrightarrow> decided_wf (decided_compact d)"
  by (simp add: decided_wf_def)

lemma decided_wf_pop:
  assumes wf: "decided_wf d" and h: "dt_head d < length (dt_order d)"
  shows "decided_wf (decided_pop d)"
proof -
  let ?ref = "dt_order d ! dt_head d"
  have r: "refs d = ?ref # refs (decided_pop d)" by (rule refs_pop [OF h])
  have "\<exists>ref \<in> set (refs (decided_pop d)). df_id ref = tid \<and> df_seq ref = dc_seq e"
    if e: "map_of (dt_m (decided_pop d)) tid = Some e" for tid e
  proof -
    have old: "map_of (dt_m d) tid = Some e" "\<not> (live d ?ref \<and> df_id ?ref = tid)"
      using e by (auto simp: pop_m AList.delete_conv' split: if_splits)
    then obtain ref where ref: "ref \<in> set (refs d)" "df_id ref = tid" "df_seq ref = dc_seq e"
      using wf unfolding decided_wf_def by blast
    moreover have "ref \<noteq> ?ref" using old ref by (auto simp: live_def)
    ultimately show ?thesis using r by auto
  qed
  moreover have "length (dt_m (decided_pop d)) \<le> length (dt_m d)"
    by (simp add: pop_m length_delete_le)
  ultimately show ?thesis
    using wf h r by (auto simp: decided_wf_def pop_m AList.distinct_delete)
qed

lemma decided_wf_evicted [simp]: "decided_wf (d\<lparr>dt_evicted := x\<rparr>) = decided_wf d"
  by (simp add: decided_wf_def refs_def)

lemma live_evicted [simp]: "live (d\<lparr>dt_evicted := x\<rparr>) = live d"
  by (rule ext) (simp add: live_def)

text \<open>
  What the two popping loops do: \<open>makeRoom\<close> leaves room for one more decision, counts every
  decision it forgets, and touches nothing else; \<open>expire\<close> forgets only decisions that are old.
\<close>

lemma makeRoom_loop_wf: "decided_wf d \<Longrightarrow> decided_wf (makeRoom_loop d)"
proof (induction d rule: makeRoom_loop.induct)
  case (1 d)
  show ?case
    using 1 by (subst makeRoom_loop.simps) (auto simp: Let_def decided_wf_pop)
qed

lemma no_refs_empty:
  assumes "decided_wf d" and "\<not> dt_head d < length (dt_order d)"
  shows "dt_m d = []"
proof (cases "dt_m d")
  case (Cons x xs)
  then have "map_of (dt_m d) (fst x) = Some (snd x)" by simp
  with assms show ?thesis by (force simp: decided_wf_def refs_def)
qed

lemma makeRoom_loop_room:
  "decided_wf d \<Longrightarrow> 0 < dt_max d \<Longrightarrow> int (length (dt_m (makeRoom_loop d))) < dt_max d"
proof (induction d rule: makeRoom_loop.induct)
  case (1 d)
  show ?case
  proof (cases "int (length (dt_m d)) \<ge> dt_max d \<and> dt_head d < length (dt_order d)")
    case True
    then show ?thesis
      using 1 by (subst makeRoom_loop.simps) (auto simp: Let_def decided_wf_pop)
  next
    case False
    then have "int (length (dt_m d)) < dt_max d"
      using no_refs_empty [OF 1(2)] 1(3) by (cases "dt_head d < length (dt_order d)") auto
    with False show ?thesis by (subst makeRoom_loop.simps) simp
  qed
qed

lemma makeRoom_loop_frame:
  "dt_held (makeRoom_loop d) = dt_held d \<and> dt_late (makeRoom_loop d) = dt_late d
   \<and> dt_ttl (makeRoom_loop d) = dt_ttl d \<and> dt_max (makeRoom_loop d) = dt_max d
   \<and> dt_seq (makeRoom_loop d) = dt_seq d"
proof (induction d rule: makeRoom_loop.induct)
  case (1 d)
  show ?case using 1 by (subst (1 2 3 4 5) makeRoom_loop.simps) (auto simp: Let_def)
qed

lemma makeRoom_loop_evicted:
  "decided_wf d \<Longrightarrow> dt_evicted d \<le> dt_evicted (makeRoom_loop d)
   \<and> (dt_evicted (makeRoom_loop d) = dt_evicted d \<longrightarrow> dt_m (makeRoom_loop d) = dt_m d)"
proof (induction d rule: makeRoom_loop.induct)
  case (1 d)
  show ?case
    using 1 by (subst (1 2 3) makeRoom_loop.simps) (force simp: Let_def decided_wf_pop pop_m)
qed

lemma makeRoom_loop_induct:
  assumes pop: "\<And>d x. dt_head d < length (dt_order d) \<Longrightarrow> I d \<Longrightarrow> I (decided_pop (d\<lparr>dt_evicted := x\<rparr>))"
  shows "I d \<Longrightarrow> I (makeRoom_loop d)"
proof (induction d rule: makeRoom_loop.induct)
  case (1 d)
  have "I (decided_pop d)" if "dt_head d < length (dt_order d)"
    using pop [OF that 1(2), of "dt_evicted d"] by simp
  with 1 pop [of d] show ?case
    by (subst makeRoom_loop.simps) (auto simp: Let_def)
qed

lemma makeRoom_loop_other:
  "map_of (dt_m (makeRoom_loop d)) tid = Some e \<Longrightarrow> map_of (dt_m d) tid = Some e"
  by (rule makeRoom_loop_induct [of "\<lambda>d'. map_of (dt_m d') tid = Some e \<longrightarrow> map_of (dt_m d) tid = Some e" d,
        rule_format])
    (auto simp: pop_m AList.delete_conv' split: if_splits)

lemma makeRoom_loop_refs: "set (refs (makeRoom_loop d)) \<subseteq> set (refs d)"
proof (rule makeRoom_loop_induct [of "\<lambda>d'. set (refs d') \<subseteq> set (refs d)"])
  fix d' x
  assume h: "dt_head d' < length (dt_order d')" and s: "set (refs d') \<subseteq> set (refs d)"
  have "refs d' = refs (d'\<lparr>dt_evicted := x\<rparr>)" by (simp add: refs_def)
  with refs_pop [of "d'\<lparr>dt_evicted := x\<rparr>"] h s
  show "set (refs (decided_pop (d'\<lparr>dt_evicted := x\<rparr>))) \<subseteq> set (refs d)" by auto
qed simp

lemma makeRoom_simps [simp]:
  "dt_held (makeRoom d) = dt_held d" "dt_late (makeRoom d) = dt_late d"
  "dt_ttl (makeRoom d) = dt_ttl d" "dt_max (makeRoom d) = dt_max d" "dt_seq (makeRoom d) = dt_seq d"
  using makeRoom_loop_frame [of d] by (simp_all add: makeRoom_def)

lemma makeRoom_props:
  assumes "decided_wf d"
  shows "decided_wf (makeRoom d)"
    and "0 < dt_max d \<Longrightarrow> int (length (dt_m (makeRoom d))) < dt_max d"
    and "dt_evicted d \<le> dt_evicted (makeRoom d)"
    and "dt_evicted (makeRoom d) = dt_evicted d \<Longrightarrow> dt_m (makeRoom d) = dt_m d"
    and "\<And>tid e. map_of (dt_m (makeRoom d)) tid = Some e \<Longrightarrow> map_of (dt_m d) tid = Some e"
    and "set (refs (makeRoom d)) \<subseteq> set (refs d)"
  using assms makeRoom_loop_wf [of d] makeRoom_loop_room [of d] makeRoom_loop_evicted [of d]
    makeRoom_loop_other [of d] makeRoom_loop_refs [of d]
  by (simp_all add: makeRoom_def decided_wf_compact)

section \<open>Recording a decision\<close>

definition held_of :: "decidedTraces \<Rightarrow> string \<Rightarrow> SpanRecord list" where
  "held_of d tid = (case map_of (dt_held d) tid of None \<Rightarrow> [] | Some xs \<Rightarrow> xs)"

lemma put_fst [simp]: "fst (decided_put d tid w p at) = held_of d tid"
  by (simp add: decided_put_def held_of_def Let_def split: option.splits)

lemma put_frame [simp]:
  "dt_held (snd (decided_put d tid w p at)) = AList.delete tid (dt_held d)"
  "dt_late (snd (decided_put d tid w p at)) = dt_late d"
  "dt_ttl (snd (decided_put d tid w p at)) = dt_ttl d"
  "dt_max (snd (decided_put d tid w p at)) = dt_max d"
  by (simp_all add: decided_put_def Let_def split: option.splits)

lemma put_cases:
  obtains (old) e where "map_of (dt_m d) tid = Some e"
    and "snd (decided_put d tid w p at) = d\<lparr>dt_held := AList.delete tid (dt_held d),
          dt_m := AList.update tid (e\<lparr>dc_weight := w, dc_pending := p\<rparr>) (dt_m d)\<rparr>"
  | (new) d1 where "map_of (dt_m d) tid = None" and "d1 = makeRoom (d\<lparr>dt_held := AList.delete tid (dt_held d)\<rparr>)"
    and "snd (decided_put d tid w p at) = d1\<lparr>dt_seq := dt_seq d1 + 1,
          dt_m := AList.update tid \<lparr>dc_weight = w, dc_seq = dt_seq d1 + 1, dc_pending = p\<rparr> (dt_m d1),
          dt_order := dt_order d1 @ [\<lparr>df_id = tid, df_seq = dt_seq d1 + 1, df_at = at\<rparr>]\<rparr>"
  by (cases "map_of (dt_m d) tid") (auto simp: decided_put_def Let_def)

lemma decided_wf_held [simp]:
  "decided_wf d \<Longrightarrow> gomap_wf h \<Longrightarrow> decided_wf (d\<lparr>dt_held := h\<rparr>)"
  by (simp add: decided_wf_def refs_def)

lemma decided_wf_update_m:
  assumes "decided_wf d" and "map_of (dt_m d) tid = Some e" and "dc_seq e' = dc_seq e"
  shows "decided_wf (d\<lparr>dt_m := AList.update tid e' (dt_m d)\<rparr>)"
proof -
  have "refs (d\<lparr>dt_m := AList.update tid e' (dt_m d)\<rparr>) = refs d" by (simp add: refs_def)
  then show ?thesis
    using assms unfolding decided_wf_def
    by (simp add: AList.distinct_update AList.update_conv' length_update_Some del: map_of_eq_Some_iff)
qed

lemma decided_wf_put:
  assumes "decided_wf d"
  shows "decided_wf (snd (decided_put d tid w p at))"
proof (cases rule: put_cases [of d tid w p at])
  case (old e)
  have "decided_wf (d\<lparr>dt_held := AList.delete tid (dt_held d)\<rparr>)"
    using assms by (simp add: decided_wf_def AList.distinct_delete refs_def)
  from decided_wf_update_m [OF this, of tid e "e\<lparr>dc_weight := w, dc_pending := p\<rparr>"] old
  show ?thesis by simp
next
  case (new d1)
  let ?d = "d\<lparr>dt_held := AList.delete tid (dt_held d)\<rparr>"
  have wf0: "decided_wf ?d"
    using assms by (simp add: decided_wf_def AList.distinct_delete refs_def)
  have wf: "decided_wf d1" and room: "0 < dt_max d1 \<Longrightarrow> int (length (dt_m d1)) < dt_max d1"
    using makeRoom_props(1,2) [OF wf0] new(2) by simp_all
  have none: "map_of (dt_m d1) tid = None"
    using makeRoom_props(5) [OF wf0, of tid] new(1,2) by (cases "map_of (dt_m d1) tid") auto
  let ?d' = "snd (decided_put d tid w p at)"
  have r: "refs ?d' = refs d1 @ [\<lparr>df_id = tid, df_seq = dt_seq d1 + 1, df_at = at\<rparr>]"
    using new(3) wf by (simp add: refs_def decided_wf_def)
  have "\<exists>ref \<in> set (refs ?d'). df_id ref = i \<and> df_seq ref = dc_seq e"
    if "map_of (dt_m ?d') i = Some e" for i e
  proof (cases "i = tid")
    case True
    then have "dc_seq e = dt_seq d1 + 1"
      using that new(3) by (auto simp: AList.update_conv' simp del: map_of_eq_Some_iff)
    with True show ?thesis unfolding r by simp
  next
    case False
    then have "map_of (dt_m d1) i = Some e" using that new(3) by (simp add: AList.update_conv' del: map_of_eq_Some_iff)
    then obtain ref where "ref \<in> set (refs d1)" "df_id ref = i \<and> df_seq ref = dc_seq e"
      using wf unfolding decided_wf_def by blast
    then show ?thesis using r by auto
  qed
  moreover have "\<forall>ref \<in> set (refs ?d'). df_seq ref \<le> dt_seq ?d'"
    using wf r new(3) unfolding decided_wf_def by (auto intro: le_SucI)
  moreover have "gomap_wf (dt_m ?d')" "gomap_wf (dt_held ?d')" "dt_head ?d' \<le> length (dt_order ?d')"
    using wf new(3) by (simp_all add: decided_wf_def AList.distinct_update)
  moreover have "0 < dt_max ?d' \<Longrightarrow> int (length (dt_m ?d')) \<le> dt_max ?d'"
    using room new(3) none by (simp add: length_update_None)
  ultimately show ?thesis unfolding decided_wf_def by blast
qed

lemma put_evicted:
  assumes "decided_wf d"
  shows "dt_evicted d \<le> dt_evicted (snd (decided_put d tid w p at))"
proof (cases rule: put_cases [of d tid w p at])
  case (new d1)
  have "decided_wf (d\<lparr>dt_held := AList.delete tid (dt_held d)\<rparr>)"
    using assms by (simp add: decided_wf_def AList.distinct_delete refs_def)
  from makeRoom_props(3) [OF this] new show ?thesis by simp
qed simp

lemma put_lookup:
  assumes "decided_wf d"
  shows "\<exists>e. map_of (dt_m (snd (decided_put d tid w p at))) tid = Some e \<and> dc_weight e = w \<and> dc_pending e = p"
    and "\<And>i e. i \<noteq> tid \<Longrightarrow> map_of (dt_m (snd (decided_put d tid w p at))) i = Some e \<Longrightarrow> map_of (dt_m d) i = Some e"
    and "\<And>i. dt_evicted (snd (decided_put d tid w p at)) = dt_evicted d \<Longrightarrow> i \<noteq> tid \<Longrightarrow>
        map_of (dt_m (snd (decided_put d tid w p at))) i = map_of (dt_m d) i"
proof -
  have wf0: "decided_wf (d\<lparr>dt_held := AList.delete tid (dt_held d)\<rparr>)"
    using assms by (simp add: decided_wf_def AList.distinct_delete refs_def)
  note mr = makeRoom_props [OF wf0]
  show "\<exists>e. map_of (dt_m (snd (decided_put d tid w p at))) tid = Some e \<and> dc_weight e = w \<and> dc_pending e = p"
    by (cases rule: put_cases [of d tid w p at]) (simp_all add: AList.update_conv' del: map_of_eq_Some_iff)
  show "map_of (dt_m d) i = Some e"
    if "i \<noteq> tid" "map_of (dt_m (snd (decided_put d tid w p at))) i = Some e" for i e
    using that mr(5) by (cases rule: put_cases [of d tid w p at]) (auto simp: AList.update_conv')
  show "map_of (dt_m (snd (decided_put d tid w p at))) i = map_of (dt_m d) i"
    if "dt_evicted (snd (decided_put d tid w p at)) = dt_evicted d" "i \<noteq> tid" for i
    using that mr(4) by (cases rule: put_cases [of d tid w p at]) (auto simp: AList.update_conv')
qed

section \<open>Expiry\<close>

lemma expire_loop_induct:
  assumes "\<And>d. dt_head d < length (dt_order d) \<Longrightarrow>
      \<not> (live d (dt_order d ! dt_head d) \<and> df_at (dt_order d ! dt_head d) > cutoff) \<Longrightarrow> I d \<Longrightarrow> I (decided_pop d)"
    and "I d"
  shows "I (expire_loop cutoff d)"
  using assms
proof (induction cutoff d rule: expire_loop.induct)
  case (1 cutoff d)
  show ?case
  proof (cases "dt_head d < length (dt_order d) \<and>
      \<not> (live d (dt_order d ! dt_head d) \<and> df_at (dt_order d ! dt_head d) > cutoff)")
    case True
    then have "I (expire_loop cutoff (decided_pop d))"
      using 1 by blast
    with True show ?thesis by (subst expire_loop.simps) (auto simp: Let_def)
  next
    case False
    then show ?thesis using 1(3) by (subst expire_loop.simps) (auto simp: Let_def)
  qed
qed

lemma expire_wf: "decided_wf d \<Longrightarrow> decided_wf (decided_expire d now)"
  unfolding decided_expire_def
  by (rule decided_wf_compact, rule expire_loop_induct [of _ decided_wf]) (simp_all add: decided_wf_pop)

lemma expire_frame [simp]:
  "dt_held (decided_expire d now) = dt_held d" "dt_late (decided_expire d now) = dt_late d"
  "dt_evicted (decided_expire d now) = dt_evicted d" "dt_max (decided_expire d now) = dt_max d"
  "dt_ttl (decided_expire d now) = dt_ttl d" "dt_seq (decided_expire d now) = dt_seq d"
proof -
  have "dt_held (expire_loop c d) = dt_held d \<and> dt_late (expire_loop c d) = dt_late d
      \<and> dt_evicted (expire_loop c d) = dt_evicted d \<and> dt_max (expire_loop c d) = dt_max d
      \<and> dt_ttl (expire_loop c d) = dt_ttl d \<and> dt_seq (expire_loop c d) = dt_seq d" for c
    by (rule expire_loop_induct [of _ "\<lambda>d'. dt_held d' = dt_held d \<and> dt_late d' = dt_late d
          \<and> dt_evicted d' = dt_evicted d \<and> dt_max d' = dt_max d \<and> dt_ttl d' = dt_ttl d \<and> dt_seq d' = dt_seq d"]) simp_all
  then show "dt_held (decided_expire d now) = dt_held d" "dt_late (decided_expire d now) = dt_late d"
    "dt_evicted (decided_expire d now) = dt_evicted d" "dt_max (decided_expire d now) = dt_max d"
    "dt_ttl (decided_expire d now) = dt_ttl d" "dt_seq (decided_expire d now) = dt_seq d"
    by (simp_all add: decided_expire_def)
qed

text \<open>A decision survives when none of its references is old enough.\<close>

definition decided_since :: "decidedTraces \<Rightarrow> string \<Rightarrow> nat \<Rightarrow> gotime \<Rightarrow> bool" where
  "decided_since d tid seq at \<longleftrightarrow>
     (\<forall>ref \<in> set (refs d). df_id ref = tid \<and> df_seq ref = seq \<longrightarrow> at \<le> df_at ref)"

lemma expire_other:
  "map_of (dt_m (decided_expire d now)) tid = Some e \<Longrightarrow> map_of (dt_m d) tid = Some e"
  unfolding decided_expire_def compact_simps
  by (rule expire_loop_induct [of "now - dt_ttl d" "\<lambda>d'. map_of (dt_m d') tid = Some e \<longrightarrow> map_of (dt_m d) tid = Some e" d,
        rule_format])
    (auto simp: pop_m AList.delete_conv' split: if_splits)

lemma decided_since_pop:
  assumes "dt_head d < length (dt_order d)" and "decided_since d tid seq at"
  shows "decided_since (decided_pop d) tid seq at"
    and "df_id (dt_order d ! dt_head d) = tid \<Longrightarrow> df_seq (dt_order d ! dt_head d) = seq
      \<Longrightarrow> at \<le> df_at (dt_order d ! dt_head d)"
  using assms(2) refs_pop [OF assms(1)] by (auto simp: decided_since_def)

lemma expire_keeps:
  assumes e: "map_of (dt_m d) tid = Some e" and s: "decided_since d tid (dc_seq e) at"
    and young: "now - dt_ttl d < at"
  shows "map_of (dt_m (decided_expire d now)) tid = Some e \<and> decided_since (decided_expire d now) tid (dc_seq e) at"
proof -
  let ?I = "\<lambda>d'. map_of (dt_m d') tid = Some e \<and> decided_since d' tid (dc_seq e) at"
  have "?I (expire_loop (now - dt_ttl d) d)"
  proof (rule expire_loop_induct)
    fix d' :: decidedTraces
    assume h: "dt_head d' < length (dt_order d')" and I: "?I d'"
      and old: "\<not> (live d' (dt_order d' ! dt_head d') \<and> df_at (dt_order d' ! dt_head d') > now - dt_ttl d)"
    have "\<not> (live d' (dt_order d' ! dt_head d') \<and> df_id (dt_order d' ! dt_head d') = tid)"
      using old I young decided_since_pop(2) [OF h conjunct2 [OF I]] by (auto simp: live_def)
    then have "map_of (dt_m (decided_pop d')) tid = Some e"
      using I by (auto simp: pop_m AList.delete_conv')
    then show "?I (decided_pop d')" using decided_since_pop(1) [OF h conjunct2 [OF I]] by blast
  qed (use e s in simp)
  then show ?thesis by (simp add: decided_expire_def decided_since_def)
qed

section \<open>Following a decision\<close>

definition follow_drops :: "decidedTraces \<Rightarrow> SpanRecord \<Rightarrow> bool" where
  "follow_drops d rec \<longleftrightarrow> (\<exists>e. map_of (dt_m d) (sr_TraceID rec) = Some e \<and> \<not> dc_pending e
     \<and> dc_weight e = 0 \<and> \<not> isErrorStatus (sr_Status rec))"

lemma follow_cases:
  obtains (unknown) "map_of (dt_m d) (sr_TraceID rec) = None" "decided_follow d t rec = (False, d, t)"
      "\<not> follow_drops d rec"
  | (pending) e where "map_of (dt_m d) (sr_TraceID rec) = Some e" "dc_pending e" "\<not> follow_drops d rec"
      "decided_follow d t rec = (True, d\<lparr>dt_held :=
         AList.update (sr_TraceID rec) (held_of d (sr_TraceID rec) @ [rec]) (dt_held d)\<rparr>, t)"
  | (error) e where "map_of (dt_m d) (sr_TraceID rec) = Some e" "\<not> dc_pending e" "dc_weight e = 0"
      "isErrorStatus (sr_Status rec)" "\<not> follow_drops d rec"
      "decided_follow d t rec =
         (True, keep_late (d\<lparr>dt_m := AList.update (sr_TraceID rec) (e\<lparr>dc_weight := 1\<rparr>) (dt_m d)\<rparr>) rec 1, t)"
  | (dropped) e where "map_of (dt_m d) (sr_TraceID rec) = Some e" "\<not> dc_pending e" "dc_weight e = 0"
      "\<not> isErrorStatus (sr_Status rec)" "follow_drops d rec"
      "decided_follow d t rec = (True, d\<lparr>dt_lateDropped := dt_lateDropped d + 1\<rparr>,
         tally_Add t SampledOut (sr_ProjectID rec) (sr_StartTimeUs rec) 1)"
  | (kept) e where "map_of (dt_m d) (sr_TraceID rec) = Some e" "\<not> dc_pending e" "dc_weight e \<noteq> 0"
      "\<not> follow_drops d rec" "decided_follow d t rec = (True, keep_late d rec (dc_weight e), t)"
proof (cases "map_of (dt_m d) (sr_TraceID rec)")
  case None
  then show ?thesis by (intro unknown) (simp_all add: decided_follow_def follow_drops_def Let_def)
next
  case (Some e)
  note f = decided_follow_def follow_drops_def held_of_def Let_def
  consider "dc_pending e" | "\<not> dc_pending e" "dc_weight e \<noteq> 0"
    | "\<not> dc_pending e" "dc_weight e = 0" "isErrorStatus (sr_Status rec)"
    | "\<not> dc_pending e" "dc_weight e = 0" "\<not> isErrorStatus (sr_Status rec)"
    by blast
  then show ?thesis
  proof cases
    case 1
    then show ?thesis using Some by (intro pending [of e]) (simp_all add: f del: map_of_eq_Some_iff)
  next
    case 2
    then show ?thesis using Some by (intro kept [of e]) (simp_all add: f del: map_of_eq_Some_iff)
  next
    case 3
    then show ?thesis using Some by (intro error [of e]) (simp_all add: f del: map_of_eq_Some_iff)
  next
    case 4
    then show ?thesis using Some by (intro dropped [of e]) (simp_all add: f del: map_of_eq_Some_iff)
  qed
qed

lemma keep_late_simps [simp]:
  "dt_m (keep_late d rec w) = dt_m d" "dt_held (keep_late d rec w) = dt_held d"
  "dt_late (keep_late d rec w) = dt_late d @ [rec\<lparr>sr_SampleWeight := w\<rparr>]"
  "dt_evicted (keep_late d rec w) = dt_evicted d" "dt_max (keep_late d rec w) = dt_max d"
  "dt_ttl (keep_late d rec w) = dt_ttl d" "refs (keep_late d rec w) = refs d"
  "dt_seq (keep_late d rec w) = dt_seq d"
  by (simp_all add: keep_late_def refs_def)

lemma decided_wf_late [simp]:
  "decided_wf (keep_late d rec w) = decided_wf d"
  "decided_wf (d\<lparr>dt_lateDropped := x\<rparr>) = decided_wf d"
  "decided_wf (d\<lparr>dt_late := xs\<rparr>) = decided_wf d"
  by (simp_all add: decided_wf_def keep_late_def refs_def)

abbreviation follow_state :: "decidedTraces \<Rightarrow> Tally \<Rightarrow> SpanRecord \<Rightarrow> decidedTraces" where
  "follow_state d t rec \<equiv> fst (snd (decided_follow d t rec))"

abbreviation follow_tally :: "decidedTraces \<Rightarrow> Tally \<Rightarrow> SpanRecord \<Rightarrow> Tally" where
  "follow_tally d t rec \<equiv> snd (snd (decided_follow d t rec))"

lemma follow_wf:
  assumes "decided_wf d"
  shows "decided_wf (follow_state d t rec)"
proof (cases rule: follow_cases [of d rec t])
  case (pending e)
  then show ?thesis using assms by (simp add: AList.distinct_update decided_wf_def refs_def)
next
  case (error e)
  then show ?thesis using decided_wf_update_m [OF assms error(1), of "e\<lparr>dc_weight := 1\<rparr>"] by simp
qed (use assms in simp_all)

lemma follow_known: "fst (decided_follow d t rec) \<longleftrightarrow> map_of (dt_m d) (sr_TraceID rec) \<noteq> None"
  by (cases rule: follow_cases [of d rec t]) (simp_all del: not_None_eq)

lemma follow_frame [simp]:
  "dt_evicted (follow_state d t rec) = dt_evicted d" "dt_max (follow_state d t rec) = dt_max d"
  "dt_ttl (follow_state d t rec) = dt_ttl d" "refs (follow_state d t rec) = refs d"
  "dt_seq (follow_state d t rec) = dt_seq d"
proof -
  have r: "refs (d\<lparr>dt_held := h\<rparr>) = refs d" "refs (d\<lparr>dt_m := m\<rparr>) = refs d"
    "refs (d\<lparr>dt_lateDropped := x\<rparr>) = refs d" for h m x
    by (simp_all add: refs_def)
  have "dt_evicted (follow_state d t rec) = dt_evicted d \<and> dt_max (follow_state d t rec) = dt_max d
    \<and> dt_ttl (follow_state d t rec) = dt_ttl d \<and> refs (follow_state d t rec) = refs d
    \<and> dt_seq (follow_state d t rec) = dt_seq d"
    by (cases rule: follow_cases [of d rec t]) (simp_all add: r)
  then show "dt_evicted (follow_state d t rec) = dt_evicted d" "dt_max (follow_state d t rec) = dt_max d"
    "dt_ttl (follow_state d t rec) = dt_ttl d" "refs (follow_state d t rec) = refs d"
    "dt_seq (follow_state d t rec) = dt_seq d"
    by simp_all
qed

lemma follow_tally_eq:
  "follow_tally d t rec =
     (if follow_drops d rec then tally_Add t SampledOut (sr_ProjectID rec) (sr_StartTimeUs rec) 1 else t)"
  by (cases rule: follow_cases [of d rec t]) simp_all

lemma follow_lookup:
  "map_of (dt_m (follow_state d t rec)) tid =
     (case map_of (dt_m d) tid of None \<Rightarrow> None
      | Some e \<Rightarrow> Some (if tid = sr_TraceID rec \<and> \<not> dc_pending e \<and> dc_weight e = 0
            \<and> isErrorStatus (sr_Status rec) then e\<lparr>dc_weight := 1\<rparr> else e))"
proof (cases rule: follow_cases [of d rec t])
  case (error e)
  then show ?thesis by (cases "tid = sr_TraceID rec") (simp_all add: AList.update_conv' split: option.splits)
next
  case (kept e)
  then show ?thesis by (cases "tid = sr_TraceID rec") (simp_all split: option.splits)
qed (simp_all split: option.splits)

lemma follow_held:
  "dt_held (follow_state d t rec) =
     (if \<exists>e. map_of (dt_m d) (sr_TraceID rec) = Some e \<and> dc_pending e
      then AList.update (sr_TraceID rec) (held_of d (sr_TraceID rec) @ [rec]) (dt_held d) else dt_held d)"
  by (cases rule: follow_cases [of d rec t]) (auto simp del: map_of_eq_Some_iff)

text \<open>
  A measure of spans that does not look at the sample weight, such as the number of spans of a
  ledger cell or the multiset of error spans. Totals of any such measure over the spans held
  for a decision and the late spans are kept by every operation, up to the spans it takes in
  and gives out.
\<close>

locale span_measure =
  fixes f :: "SpanRecord \<Rightarrow> 'a::comm_monoid_add"
  assumes f_weight [simp]: "f (s\<lparr>sr_SampleWeight := w\<rparr>) = f s"
begin

definition spans_total :: "SpanRecord list \<Rightarrow> 'a" where
  "spans_total xs = (\<Sum>s\<leftarrow>xs. f s)"

definition decided_total :: "decidedTraces \<Rightarrow> 'a" where
  "decided_total d = spans_total (dt_late d) + asum spans_total (dt_held d)"

lemma spans_total_simps [simp]:
  "spans_total [] = 0" "spans_total (s # xs) = f s + spans_total xs"
  "spans_total (xs @ ys) = spans_total xs + spans_total ys"
  by (simp_all add: spans_total_def)

lemma spans_total_stamp [simp]: "spans_total (bt_spans (stampWeight tr w)) = spans_total (bt_spans tr)"
  by (simp add: spans_total_def stampWeight_def comp_def)

lemma held_split:
  assumes "gomap_wf (dt_held d)"
  shows "asum spans_total (dt_held d) =
    spans_total (held_of d tid) + asum spans_total (AList.delete tid (dt_held d))"
proof (cases "map_of (dt_held d) tid")
  case None
  then show ?thesis by (simp add: held_of_def delete_update_None)
next
  case (Some xs)
  then show ?thesis using asum_split [OF assms Some] by (simp add: held_of_def)
qed

lemma put_total:
  "decided_wf d \<Longrightarrow>
   decided_total d = spans_total (held_of d tid) + decided_total (snd (decided_put d tid w p at))"
  using held_split [of d tid] by (simp add: decided_total_def decided_wf_def ac_simps)

lemma takeLate_total:
  "decided_total d = spans_total (fst (decided_takeLate d)) + decided_total (snd (decided_takeLate d))"
  by (simp add: decided_total_def decided_takeLate_def)

lemma expire_total [simp]: "decided_total (decided_expire d now) = decided_total d"
  by (simp add: decided_total_def)

lemma follow_total:
  assumes wf: "decided_wf d" and known: "fst (decided_follow d t rec)"
  shows "decided_total (follow_state d t rec) + (if follow_drops d rec then f rec else 0) =
    decided_total d + f rec"
proof (cases rule: follow_cases [of d rec t])
  case (pending e)
  let ?h = "AList.update (sr_TraceID rec) (held_of d (sr_TraceID rec) @ [rec]) (dt_held d)"
  have g: "gomap_wf (dt_held d)" using wf by (simp add: decided_wf_def)
  have "asum spans_total ?h = asum spans_total (dt_held d) + f rec"
  proof (cases "map_of (dt_held d) (sr_TraceID rec)")
    case None
    then show ?thesis by (simp add: asum_update_new held_of_def)
  next
    case (Some xs)
    then show ?thesis
      using asum_split [OF g Some, of spans_total]
      by (simp add: asum_update_old [OF g Some] held_of_def ac_simps del: map_of_eq_Some_iff)
  qed
  then show ?thesis using pending by (simp add: decided_total_def ac_simps)
qed (use known in \<open>simp_all add: decided_total_def ac_simps\<close>)

end

section \<open>A remembered decision\<close>

text \<open>
  Sequences of operations on the decisions, and the abstract behaviour of the decision on one
  trace: a variable that \<open>put\<close> writes and that a late error span raises from 0 to 1.
\<close>

datatype decided_op = PutOp string int bool gotime | FollowOp SpanRecord | TakeLateOp | ExpireOp gotime

fun decided_step :: "decided_op \<Rightarrow> decidedTraces \<times> Tally \<Rightarrow> decidedTraces \<times> Tally" where
  "decided_step (PutOp tid w p at) (d, t) = (snd (decided_put d tid w p at), t)"
| "decided_step (FollowOp rec) (d, t) = snd (decided_follow d t rec)"
| "decided_step TakeLateOp (d, t) = (snd (decided_takeLate d), t)"
| "decided_step (ExpireOp now) (d, t) = (decided_expire d now, t)"

fun decision_spec :: "string \<Rightarrow> decided_op \<Rightarrow> int \<times> bool \<Rightarrow> int \<times> bool" where
  "decision_spec tid (PutOp i w p at) wp = (if i = tid then (w, p) else wp)"
| "decision_spec tid (FollowOp rec) (w, p) =
     (if sr_TraceID rec = tid \<and> \<not> p \<and> w = 0 \<and> isErrorStatus (sr_Status rec) then (1, p) else (w, p))"
| "decision_spec tid TakeLateOp wp = wp"
| "decision_spec tid (ExpireOp now) wp = wp"

definition expires_before :: "gotime \<Rightarrow> decided_op \<Rightarrow> bool" where
  "expires_before limit op \<longleftrightarrow> (case op of ExpireOp now \<Rightarrow> now < limit | _ \<Rightarrow> True)"

text \<open>The decision is present with the given value, and no reference to it is older than \<open>at\<close>.\<close>

definition remembers :: "string \<Rightarrow> gotime \<Rightarrow> int \<times> bool \<Rightarrow> decidedTraces \<Rightarrow> bool" where
  "remembers tid at wp d \<longleftrightarrow> (\<exists>e. map_of (dt_m d) tid = Some e \<and> (dc_weight e, dc_pending e) = wp
     \<and> dc_seq e \<le> dt_seq d \<and> decided_since d tid (dc_seq e) at)"

lemma decided_since_new:
  assumes "decided_wf d" and "map_of (dt_m d) tid = None"
  shows "remembers tid at (w, p) (snd (decided_put d tid w p at))"
proof (cases rule: put_cases [of d tid w p at])
  case (new d1)
  have wf0: "decided_wf (d\<lparr>dt_held := AList.delete tid (dt_held d)\<rparr>)"
    using assms by (simp add: decided_wf_def AList.distinct_delete refs_def)
  have wf: "decided_wf d1" using makeRoom_props(1) [OF wf0] new(2) by simp
  have "refs (snd (decided_put d tid w p at)) = refs d1 @ [\<lparr>df_id = tid, df_seq = dt_seq d1 + 1, df_at = at\<rparr>]"
    using new(3) wf by (simp add: refs_def decided_wf_def)
  moreover have "\<forall>ref \<in> set (refs d1). df_seq ref < dt_seq d1 + 1"
    using wf by (auto simp: decided_wf_def less_Suc_eq_le)
  ultimately have "decided_since (snd (decided_put d tid w p at)) tid (dt_seq d1 + 1) at"
    by (auto simp: decided_since_def)
  then show ?thesis using new(3) by (simp add: remembers_def AList.update_conv' del: map_of_eq_Some_iff)
qed (use assms in simp)

lemma put_remembers_same:
  assumes "remembers tid at wp d"
  shows "remembers tid at (w, p) (snd (decided_put d tid w p at'))"
proof (cases rule: put_cases [of d tid w p at'])
  case (old e)
  have "refs (snd (decided_put d tid w p at')) = refs d" using old(2) by (simp add: refs_def)
  then show ?thesis
    using assms old by (auto simp: remembers_def decided_since_def AList.update_conv' simp del: map_of_eq_Some_iff)
qed (use assms in \<open>auto simp: remembers_def\<close>)

lemma put_refs_other:
  assumes "decided_wf d" and "ref \<in> set (refs (snd (decided_put d tid w p at)))"
  shows "ref \<in> set (refs d) \<or> dt_seq d < df_seq ref"
proof (cases rule: put_cases [of d tid w p at])
  case (old e)
  then show ?thesis using assms(2) by (simp add: refs_def)
next
  case (new d1)
  let ?d = "d\<lparr>dt_held := AList.delete tid (dt_held d)\<rparr>"
  have wf0: "decided_wf ?d"
    using assms by (simp add: decided_wf_def AList.distinct_delete refs_def)
  have wf: "decided_wf d1" and sub: "set (refs d1) \<subseteq> set (refs ?d)" and seq: "dt_seq d1 = dt_seq d"
    using makeRoom_props(1,6) [OF wf0] new(2) by simp_all
  have "refs (snd (decided_put d tid w p at)) = refs d1 @ [\<lparr>df_id = tid, df_seq = dt_seq d1 + 1, df_at = at\<rparr>]"
    using new(3) wf by (simp add: refs_def decided_wf_def)
  moreover have "refs ?d = refs d" by (simp add: refs_def)
  ultimately show ?thesis using assms(2) sub seq by auto
qed

lemma put_remembers_other:
  assumes wf: "decided_wf d" and "remembers tid at wp d" and "i \<noteq> tid"
    and ev: "dt_evicted (snd (decided_put d i w p at')) = dt_evicted d"
  shows "remembers tid at wp (snd (decided_put d i w p at'))"
proof -
  obtain e where e: "map_of (dt_m d) tid = Some e" "(dc_weight e, dc_pending e) = wp"
    "dc_seq e \<le> dt_seq d" "decided_since d tid (dc_seq e) at"
    using assms(2) by (auto simp: remembers_def)
  have "map_of (dt_m (snd (decided_put d i w p at'))) tid = Some e"
    using put_lookup(3) [OF wf ev, of tid] e(1) assms(3) by simp
  moreover have "decided_since (snd (decided_put d i w p at')) tid (dc_seq e) at"
    using e(3,4) put_refs_other [OF wf, of _ i w p at'] by (fastforce simp: decided_since_def)
  moreover have "dt_seq d \<le> dt_seq (snd (decided_put d i w p at'))"
    by (cases rule: put_cases [of d i w p at']) simp_all
  ultimately show ?thesis
    using e(2,3) unfolding remembers_def by (intro exI [of _ e] conjI) auto
qed

lemma decided_step_wf:
  "decided_wf (fst s) \<Longrightarrow> decided_wf (fst (decided_step op s))
     \<and> dt_evicted (fst s) \<le> dt_evicted (fst (decided_step op s))
     \<and> dt_ttl (fst (decided_step op s)) = dt_ttl (fst s)"
  by (cases s; cases op)
    (simp_all add: decided_wf_put put_evicted follow_wf expire_wf decided_takeLate_def)

lemma decided_step_remembers:
  assumes wf: "decided_wf (fst s)" and r: "remembers tid at wp (fst s)"
    and ev: "dt_evicted (fst (decided_step op s)) = dt_evicted (fst s)"
    and young: "expires_before (at + dt_ttl (fst s)) op"
  shows "remembers tid at (decision_spec tid op wp) (fst (decided_step op s))"
proof -
  obtain d t where s: "s = (d, t)" by fastforce
  obtain w p where wp: "wp = (w, p)" by fastforce
  show ?thesis
  proof (cases op)
    case (PutOp i w' p' at')
    then show ?thesis
      using put_remembers_same [of tid at wp d] put_remembers_other [of d tid at wp i] wf r ev s by auto
  next
    case (FollowOp rec)
    obtain e where e: "map_of (dt_m d) tid = Some e" "(dc_weight e, dc_pending e) = (w, p)"
      "dc_seq e \<le> dt_seq d" "decided_since d tid (dc_seq e) at"
      using r s wp by (auto simp: remembers_def)
    then show ?thesis
      using FollowOp s wp by (auto simp: remembers_def follow_lookup decided_since_def simp del: map_of_eq_Some_iff)
  next
    case TakeLateOp
    then show ?thesis
      using r s by (auto simp: remembers_def decided_takeLate_def decided_since_def refs_def)
  next
    case (ExpireOp now)
    obtain e where e: "map_of (dt_m d) tid = Some e" "(dc_weight e, dc_pending e) = wp"
      "dc_seq e \<le> dt_seq d" "decided_since d tid (dc_seq e) at"
      using r s by (auto simp: remembers_def)
    have "now - dt_ttl d < at" using young ExpireOp s by (simp add: expires_before_def)
    from expire_keeps [OF e(1,4) this] e show ?thesis
      using ExpireOp s by (auto simp: remembers_def simp del: map_of_eq_Some_iff)
  qed
qed

definition decided_run :: "decided_op list \<Rightarrow> decidedTraces \<times> Tally \<Rightarrow> decidedTraces \<times> Tally" where
  "decided_run ops s = fold decided_step ops s"

lemma decided_run_wf:
  "decided_wf (fst s) \<Longrightarrow> decided_wf (fst (decided_run ops s))
     \<and> dt_evicted (fst s) \<le> dt_evicted (fst (decided_run ops s))
     \<and> dt_max (fst (decided_run ops s)) = dt_max (fst s)"
proof (induction ops arbitrary: s)
  case (Cons op ops)
  have "dt_max (fst (decided_step op s)) = dt_max (fst s)"
    by (cases s; cases op) (simp_all add: decided_takeLate_def)
  then show ?case
    using decided_step_wf [OF Cons.prems, of op] Cons.IH [of "decided_step op s"]
    by (auto simp: decided_run_def)
qed (simp add: decided_run_def)

lemma decided_run_remembers:
  assumes "decided_wf (fst s)" and "remembers tid at wp (fst s)"
    and "dt_evicted (fst (decided_run ops s)) = dt_evicted (fst s)"
    and "\<forall>op \<in> set ops. expires_before (at + dt_ttl (fst s)) op"
  shows "remembers tid at (fold (decision_spec tid) ops wp) (fst (decided_run ops s))"
  using assms
proof (induction ops arbitrary: s wp)
  case Nil
  then show ?case by (simp add: decided_run_def)
next
  case (Cons op ops)
  let ?s = "decided_step op s"
  have run: "decided_run (op # ops) s = decided_run ops ?s" by (simp add: decided_run_def)
  note st = decided_step_wf [OF Cons.prems(1), of op]
  have ev: "dt_evicted (fst ?s) = dt_evicted (fst s)"
    using st decided_run_wf [of ?s ops] Cons.prems(3) run by simp
  have "remembers tid at (decision_spec tid op wp) (fst ?s)"
    using Cons.prems by (intro decided_step_remembers ev) simp_all
  from Cons.IH [OF _ this] st ev Cons.prems(3,4) run show ?case by simp
qed

section \<open>Properties\<close>

text \<open>
  C12: a span that arrives after its trace was decided follows the decision for the whole TTL.
  Once a trace is decided (or marked pending) at time \<open>at\<close>, then after any further operations
  in which expiry runs only at times before \<open>at\<close> plus the TTL and the cap evicts no decision,
  every span of the trace is recognised; while the decision is pending the span is held, after
  a drop it is counted as sampled out unless it is an error span, and otherwise it is kept
  with the trace's weight, or weight 1 for the error span that revives a dropped trace. The
  decision in force is the last one put, raised from 0 to 1 by a late error span.
\<close>

theorem late_span_follows_decision:
  assumes wf: "decided_wf d" and new: "map_of (dt_m d) tid = None"
    and run: "decided_run ops (snd (decided_put d tid w p at), t) = (d', t')"
    and spec: "fold (decision_spec tid) ops (w, p) = (w', p')"
    and young: "\<forall>op \<in> set ops. expires_before (at + dt_ttl d) op"
    and kept: "dt_evicted d' = dt_evicted (snd (decided_put d tid w p at))"
    and rec: "sr_TraceID rec = tid"
  shows "fst (decided_follow d' t' rec)
    \<and> (if p' then held_of (follow_state d' t' rec) tid = held_of d' tid @ [rec]
        else if w' = 0 \<and> \<not> isErrorStatus (sr_Status rec) then
          dt_late (follow_state d' t' rec) = dt_late d'
          \<and> follow_tally d' t' rec = tally_Add t' SampledOut (sr_ProjectID rec) (sr_StartTimeUs rec) 1
        else dt_late (follow_state d' t' rec) =
            dt_late d' @ [rec\<lparr>sr_SampleWeight := (if w' = 0 then 1 else w')\<rparr>]
          \<and> follow_tally d' t' rec = t')"
proof -
  let ?s = "(snd (decided_put d tid w p at), t)"
  have "remembers tid at (fold (decision_spec tid) ops (w, p)) (fst (decided_run ops ?s))"
    using decided_wf_put [OF wf, of tid w p at] decided_since_new [OF wf new, of at w p] run young kept
    by (intro decided_run_remembers) simp_all
  then obtain e where e: "map_of (dt_m d') (sr_TraceID rec) = Some e" "dc_weight e = w'" "dc_pending e = p'"
    using run spec rec by (auto simp: remembers_def)
  show ?thesis
    by (cases rule: follow_cases [of d' rec t'])
      (use e rec in \<open>simp_all add: held_of_def AList.update_conv' del: map_of_eq_Some_iff\<close>)
qed

definition late_demo :: SpanRecord where
  "late_demo = zero_span\<lparr>sr_TraceID := ''t1'', sr_Status := ''error''\<rparr>"

theorem late_span_follows_decision_witness:
  "dt_late (follow_state (snd (decided_put (newDecidedTraces 600 2) ''t1'' 0 False 5)) tally_New late_demo) =
     [late_demo\<lparr>sr_SampleWeight := 1\<rparr>]"
proof -
  let ?d = "snd (decided_put (newDecidedTraces 600 2) ''t1'' 0 False 5)"
  have late: "dt_late ?d = []" by (simp add: newDecidedTraces_def)
  have err: "isErrorStatus (sr_Status late_demo)" "sr_TraceID late_demo = ''t1''"
    by (simp_all add: late_demo_def isErrorStatus_def)
  show ?thesis
    using late_span_follows_decision [of "newDecidedTraces 600 2" "''t1''" "[]" 0 False 5 tally_New ?d
        tally_New 0 False late_demo] late err
    by (simp add: decided_wf_new decided_run_def) (simp add: newDecidedTraces_def)
qed

text \<open>
  The memory of decisions is bounded. However many decisions are recorded, spans followed
  and expiries run, a buffer created with a positive maximum never holds more decisions than
  that maximum, and each decision it holds can still be expired: a reference to it waits in
  the expiry order.
\<close>

theorem decided_bounded:
  assumes "0 < n" and "decided_run ops (newDecidedTraces ttl n, t) = (d, t')"
  shows "int (length (dt_m d)) \<le> n
    \<and> (\<forall>tid e. map_of (dt_m d) tid = Some e \<longrightarrow>
        (\<exists>ref \<in> set (refs d). df_id ref = tid \<and> df_seq ref = dc_seq e))"
proof -
  have "decided_wf d \<and> dt_max d = n"
    using decided_run_wf [of "(newDecidedTraces ttl n, t)" ops] assms(2)
    by (simp add: decided_wf_new) (simp add: newDecidedTraces_def)
  with assms(1) show ?thesis unfolding decided_wf_def by blast
qed

theorem decided_bounded_witness:
  "int (length (dt_m (fst (decided_run [PutOp ''a'' 1 False 1, PutOp ''b'' 0 False 2, PutOp ''c'' 5 True 3]
     (newDecidedTraces 600 2, tally_New))))) \<le> 2"
  using decided_bounded [of 2 "[PutOp ''a'' 1 False 1, PutOp ''b'' 0 False 2, PutOp ''c'' 5 True 3]" 600 tally_New]
  by (metis prod.collapse zero_less_numeral)

end
