(* ===== verification/MinuteFloor.thy ===== *)
theory MinuteFloor
  imports SpanModel
begin

text \<open>
  The survival floor (\<^verbatim>\<open>internal/sampling/minute_floor.go\<close>): at least a minimum number of clean
  traces per project, operation and wall-clock bucket survive sampling. The state maps a key
  string to a counter, as in the code. The interface locale \<open>survival_floor\<close> states what the
  clients rely on (the trace buffer's hourly rule, the worker's minute floor and hourly tier);
  it is interpreted on \<open>ShouldKeep\<close>, where the separation of the counters rests on the key
  format being injective. Widths below a microsecond, for which the code would divide by
  zero, do not occur: both constructors are given a minute or an hour.
\<close>

record floorBucket =
  fb_count :: int
  fb_index :: int

record MinuteFloor =
  mf_buckets :: "(string \<times> floorBucket) list"
  mf_bucket :: duration

definition floorRetainWindow :: duration where
  "floorRetainWindow = 15 * minute"

definition NewMinuteFloor :: MinuteFloor where
  "NewMinuteFloor = \<lparr>mf_buckets = [], mf_bucket = minute\<rparr>"

definition NewBucketFloor :: "duration \<Rightarrow> MinuteFloor" where
  "NewBucketFloor bucket = \<lparr>mf_buckets = [], mf_bucket = bucket\<rparr>"

definition width :: "MinuteFloor \<Rightarrow> duration" where
  "width f = (if mf_bucket f \<le> 0 then minute else mf_bucket f)"

definition Microseconds :: "duration \<Rightarrow> int" where
  "Microseconds d = go_div d 1000"

definition BucketOf :: "MinuteFloor \<Rightarrow> int \<Rightarrow> int" where
  "BucketOf f startTimeUs = go_div startTimeUs (Microseconds (width f))"

definition retainBuckets :: "MinuteFloor \<Rightarrow> int" where
  "retainBuckets f =
     (let w = width f; n = go_div (floorRetainWindow + w - 1) w in if n < 1 then 1 else n)"

definition bucketKey :: "int \<Rightarrow> string \<Rightarrow> int \<Rightarrow> string" where
  "bucketKey projectID opn bucket = FormatInt projectID @ [NUL] @ opn @ [NUL] @ FormatInt bucket"

definition ShouldKeep :: "MinuteFloor \<Rightarrow> int \<Rightarrow> string \<Rightarrow> int \<Rightarrow> int \<Rightarrow> bool \<Rightarrow> bool \<times> MinuteFloor" where
  "ShouldKeep f projectID opn bucket minc ratioKeep =
     (let key = bucketKey projectID opn bucket;
          b = (case map_of (mf_buckets f) key of None \<Rightarrow> \<lparr>fb_count = 0, fb_index = bucket\<rparr> | Some b \<Rightarrow> b);
          put = (\<lambda>b. f\<lparr>mf_buckets := AList.update key b (mf_buckets f)\<rparr>)
      in if ratioKeep then (True, put (b\<lparr>fb_count := fb_count b + 1\<rparr>))
         else if minc > 0 \<and> fb_count b < minc then (True, put (b\<lparr>fb_count := fb_count b + 1\<rparr>))
         else (False, put b))"

definition gc :: "MinuteFloor \<Rightarrow> gotime \<Rightarrow> MinuteFloor" where
  "gc f now =
     (let cutoff = go_div (UnixMicro now) (Microseconds (width f)) - retainBuckets f
      in f\<lparr>mf_buckets := filter (\<lambda>(key, b). \<not> fb_index b < cutoff) (mf_buckets f)\<rparr>)"

section \<open>The key format\<close>

lemma split_first_NUL:
  "NUL \<notin> set a \<Longrightarrow> NUL \<notin> set b \<Longrightarrow> a @ NUL # x = b @ NUL # y \<Longrightarrow> a = b \<and> x = y"
proof (induction a arbitrary: b)
  case Nil
  then show ?case by (cases b) auto
next
  case (Cons c a)
  then show ?case by (cases b) auto
qed

lemma split_last_NUL:
  assumes "NUL \<notin> set a" and "NUL \<notin> set b" and "x @ NUL # a = y @ NUL # b"
  shows "x = y \<and> a = b"
proof -
  have "rev a @ NUL # rev x = rev b @ NUL # rev y"
    using assms(3) by (metis append_assoc append_Cons append_Nil rev.simps(2) rev_append)
  then have "rev a = rev b \<and> rev x = rev y"
    by (rule split_first_NUL [rotated 2]) (simp_all add: assms)
  then show ?thesis by simp
qed

lemma bucketKey_inj:
  assumes "bucketKey p opn b = bucketKey p' opn' b'"
  shows "p = p' \<and> opn = opn' \<and> b = b'"
proof -
  have "FormatInt p = FormatInt p' \<and> opn @ NUL # FormatInt b = opn' @ NUL # FormatInt b'"
    using assms by (intro split_first_NUL FormatInt_no_NUL) (simp add: bucketKey_def)
  moreover from this have "opn = opn' \<and> FormatInt b = FormatInt b'"
    by (intro split_last_NUL FormatInt_no_NUL) simp
  ultimately show ?thesis using FormatInt_inj by blast
qed

lemma bucketKey_eq [simp]:
  "bucketKey p opn b = bucketKey p' opn' b' \<longleftrightarrow> p = p' \<and> opn = opn' \<and> b = b'"
  using bucketKey_inj by blast

section \<open>The contract of a survival floor\<close>

text \<open>
  \<open>calls_on k es rs\<close> are the calls on key \<open>k\<close> among the calls \<open>es\<close> with results \<open>rs\<close>: for
  each, the ratio sampler's verdict and what the floor answered.
\<close>

definition calls_on :: "'k \<Rightarrow> ('k \<times> int \<times> bool) list \<Rightarrow> bool list \<Rightarrow> (bool \<times> bool) list" where
  "calls_on k es rs = map (\<lambda>(e, r). (snd (snd e), r)) (filter (\<lambda>(e, r). fst e = k) (zip es rs))"

lemma calls_on_simps:
  "calls_on k [] rs = []"
  "calls_on k (e # es) (r # rs) =
     (if fst e = k then (snd (snd e), r) # calls_on k es rs else calls_on k es rs)"
  by (auto simp: calls_on_def)

locale survival_floor =
  fixes keep :: "'s \<Rightarrow> 'k \<Rightarrow> int \<Rightarrow> bool \<Rightarrow> bool \<times> 's"
    and tally :: "'s \<Rightarrow> 'k \<Rightarrow> int"
  assumes ratio_kept: "fst (keep s k m True)"
    and floor_kept: "fst (keep s k m False) \<longleftrightarrow> 0 < m \<and> tally s k < m"
    and tally_keep: "tally (snd (keep s k m r)) j = tally s j + (if j = k \<and> fst (keep s k m r) then 1 else 0)"
begin

abbreviation call :: "'s \<Rightarrow> 'k \<times> int \<times> bool \<Rightarrow> bool \<times> 's" where
  "call s e \<equiv> keep s (fst e) (fst (snd e)) (snd (snd e))"

lemma tally_run:
  "tally (snd (run_ops call s es)) k =
     tally s k + int (length (filter snd (calls_on k es (fst (run_ops call s es)))))"
proof (induction es arbitrary: s)
  case (Cons e es)
  show ?case
    unfolding run_ops_Cons calls_on_simps using Cons [of "snd (call s e)"] tally_keep by auto
qed (simp add: calls_on_simps)

text \<open>
  Every call that the ratio keeps is kept, at least the first \<open>m\<close> calls on a key survive, and
  at most \<open>m\<close> minus what was counted before survive by the floor alone.
\<close>

lemma run_floor:
  assumes "\<forall>e \<in> set es. fst e = k \<longrightarrow> fst (snd e) = m" and "0 \<le> tally s k"
  shows "min m (tally s k + int (length (calls_on k es (fst (run_ops call s es)))))
           \<le> tally (snd (run_ops call s es)) k"
  using assms
proof (induction es arbitrary: s)
  case (Cons e es)
  let ?s = "snd (call s e)"
  have IH: "min m (tally ?s k + int (length (calls_on k es (fst (run_ops call ?s es)))))
      \<le> tally (snd (run_ops call ?s es)) k"
    by (rule Cons.IH)
      (use Cons.prems tally_keep [of s "fst e" "fst (snd e)" "snd (snd e)" k] in auto)
  have mono: "tally ?s k \<le> tally (snd (run_ops call ?s es)) k"
    by (simp add: tally_run)
  show ?case
  proof (cases "fst e = k")
    case False
    then show ?thesis
      using IH tally_keep [of s "fst e" "fst (snd e)" "snd (snd e)" k]
      by (auto simp: run_ops_Cons calls_on_simps simp del: run_ops.simps)
  next
    case True
    then have m: "fst (snd e) = m" using Cons.prems by simp
    show ?thesis
    proof (cases "fst (call s e)")
      case True
      with \<open>fst e = k\<close> show ?thesis
        using IH tally_keep [of s "fst e" "fst (snd e)" "snd (snd e)" k]
        by (simp add: run_ops_Cons calls_on_simps add.commute add.left_commute del: run_ops.simps)
    next
      case False
      then have "\<not> snd (snd e)" using ratio_kept by (metis (full_types))
      with False m \<open>fst e = k\<close> have "m \<le> 0 \<or> m \<le> tally s k"
        using floor_kept [of s "fst e" m] by auto
      then have "m \<le> tally (snd (run_ops call ?s es)) k"
        using mono tally_keep [of s "fst e" "fst (snd e)" "snd (snd e)" k] False Cons.prems(2) by auto
      then show ?thesis by (simp add: run_ops_Cons min.coboundedI1 del: run_ops.simps)
    qed
  qed
qed (simp add: calls_on_simps)

lemma run_ratio: "(True, r) \<in> set (calls_on k es (fst (run_ops call s es))) \<Longrightarrow> r"
proof (induction es arbitrary: s)
  case (Cons e es)
  then show ?case
    using ratio_kept by (auto simp: run_ops_Cons calls_on_simps simp del: run_ops.simps split: if_splits)
qed (simp add: calls_on_simps)

lemma run_rescued:
  assumes "\<forall>e \<in> set es. fst e = k \<longrightarrow> fst (snd e) = m"
  shows "int (length (filter (\<lambda>(q, r). \<not> q \<and> r) (calls_on k es (fst (run_ops call s es)))))
           \<le> max 0 (m - tally s k)"
  using assms
proof (induction es arbitrary: s)
  case (Cons e es)
  let ?s = "snd (call s e)"
  have IH: "int (length (filter (\<lambda>(q, r). \<not> q \<and> r) (calls_on k es (fst (run_ops call ?s es)))))
      \<le> max 0 (m - tally ?s k)"
    using Cons by simp
  have t: "tally ?s k = tally s k + (if k = fst e \<and> fst (call s e) then 1 else 0)"
    by (rule tally_keep)
  have f: "fst e = k \<Longrightarrow> \<not> snd (snd e) \<Longrightarrow> fst (call s e) \<Longrightarrow> tally s k < m"
    using floor_kept [of s "fst e" "fst (snd e)"] Cons.prems by auto
  show ?case
    using IH t f by (auto simp: run_ops_Cons calls_on_simps simp del: run_ops.simps split: if_splits)
qed (simp add: calls_on_simps)

end

section \<open>\<open>ShouldKeep\<close> provides the contract\<close>

type_synonym floor_key = "int \<times> string \<times> int"

definition floor_keep :: "MinuteFloor \<Rightarrow> floor_key \<Rightarrow> int \<Rightarrow> bool \<Rightarrow> bool \<times> MinuteFloor" where
  "floor_keep f k m r = ShouldKeep f (fst k) (fst (snd k)) (snd (snd k)) m r"

definition floor_count :: "MinuteFloor \<Rightarrow> floor_key \<Rightarrow> int" where
  "floor_count f k =
     (case map_of (mf_buckets f) (bucketKey (fst k) (fst (snd k)) (snd (snd k))) of
        None \<Rightarrow> 0 | Some b \<Rightarrow> fb_count b)"

lemma ShouldKeep_result:
  "fst (ShouldKeep f p opn b m r) \<longleftrightarrow> r \<or> (0 < m \<and> floor_count f (p, opn, b) < m)"
  by (auto simp: ShouldKeep_def Let_def floor_count_def split: option.splits)

lemma ShouldKeep_count:
  "floor_count (snd (ShouldKeep f p opn b m r)) k =
     floor_count f k + (if k = (p, opn, b) \<and> fst (ShouldKeep f p opn b m r) then 1 else 0)"
  by (cases k) (auto simp: ShouldKeep_def Let_def floor_count_def AList.update_conv' split: option.splits)

interpretation mfloor: survival_floor floor_keep floor_count
  by unfold_locales (auto simp: floor_keep_def ShouldKeep_result ShouldKeep_count)

definition floor_call :: "MinuteFloor \<Rightarrow> floor_key \<times> int \<times> bool \<Rightarrow> bool \<times> MinuteFloor" where
  "floor_call f e = floor_keep f (fst e) (fst (snd e)) (snd (snd e))"

lemma floor_call_eq: "floor_call = (\<lambda>f e. floor_keep f (fst e) (fst (snd e)) (snd (snd e)))"
  by (simp add: floor_call_def fun_eq_iff)

section \<open>Garbage collection\<close>

text \<open>Every counter is stored under the key of its own bucket index.\<close>

definition floor_wf :: "MinuteFloor \<Rightarrow> bool" where
  "floor_wf f \<longleftrightarrow> gomap_wf (mf_buckets f) \<and>
     (\<forall>(key, b) \<in> set (mf_buckets f). \<exists>p opn. key = bucketKey p opn (fb_index b))"

lemma floor_wf_New: "floor_wf NewMinuteFloor" "floor_wf (NewBucketFloor w)"
  by (simp_all add: floor_wf_def NewMinuteFloor_def NewBucketFloor_def)

lemma floor_wf_index:
  assumes "floor_wf f" and "map_of (mf_buckets f) (bucketKey p opn b) = Some fb"
  shows "fb_index fb = b"
proof -
  have "(bucketKey p opn b, fb) \<in> set (mf_buckets f)"
    using assms(2) by (rule map_of_SomeD)
  with assms(1) obtain p' op' where "bucketKey p opn b = bucketKey p' op' (fb_index fb)"
    by (auto simp: floor_wf_def)
  then show ?thesis by simp
qed

lemma floor_wf_put:
  assumes "floor_wf f" and "fb_index b = i"
  shows "floor_wf (f\<lparr>mf_buckets := AList.update (bucketKey p opn i) b (mf_buckets f)\<rparr>)"
  using assms by (auto simp: floor_wf_def AList.distinct_update set_update split: if_splits)

lemma floor_wf_ShouldKeep:
  assumes "floor_wf f"
  shows "floor_wf (snd (ShouldKeep f p opn b m r))"
proof -
  have "fb_index (case map_of (mf_buckets f) (bucketKey p opn b) of
      None \<Rightarrow> \<lparr>fb_count = 0, fb_index = b\<rparr> | Some fb \<Rightarrow> fb) = b"
    using floor_wf_index [OF assms] by (auto split: option.splits)
  with assms show ?thesis
    by (auto simp: ShouldKeep_def Let_def intro!: floor_wf_put)
qed

lemma map_of_filter_snd:
  "map_of (filter (\<lambda>(k, v). P v) m) k = Some v \<longleftrightarrow> map_of m k = Some v \<and> P v" if "gomap_wf m"
  using that
proof (induction m)
  case (Cons kv m)
  obtain j w where kv: "kv = (j, w)" by fastforce
  have "j \<notin> fst ` set m" using Cons.prems kv by simp
  then have "map_of (filter (\<lambda>(k, v). P v) m) j \<noteq> Some v" "map_of m j = None"
    by (force simp: map_of_eq_None_iff dest!: map_of_SomeD)+
  with Cons kv show ?case by auto
qed simp

lemma gc_lookup:
  assumes "floor_wf f"
  shows "map_of (mf_buckets (gc f now)) (bucketKey p opn b) =
    (if b < go_div (UnixMicro now) (Microseconds (width f)) - retainBuckets f then None
     else map_of (mf_buckets f) (bucketKey p opn b))"
proof -
  let ?cut = "go_div (UnixMicro now) (Microseconds (width f)) - retainBuckets f"
  have g: "map_of (mf_buckets (gc f now)) (bucketKey p opn b) = Some fb \<longleftrightarrow>
      map_of (mf_buckets f) (bucketKey p opn b) = Some fb \<and> \<not> b < ?cut" for fb
  proof -
    have "gomap_wf (mf_buckets f)" using assms by (simp add: floor_wf_def)
    then have "map_of (mf_buckets (gc f now)) (bucketKey p opn b) = Some fb \<longleftrightarrow>
        map_of (mf_buckets f) (bucketKey p opn b) = Some fb \<and> \<not> fb_index fb < ?cut"
      using map_of_filter_snd [of "mf_buckets f" "\<lambda>fb. \<not> fb_index fb < ?cut"]
      by (simp add: gc_def Let_def)
    then show ?thesis using floor_wf_index [OF assms] by blast
  qed
  show ?thesis
  proof (cases "b < ?cut")
    case True
    then have "map_of (mf_buckets (gc f now)) (bucketKey p opn b) \<noteq> Some fb" for fb
      using g by blast
    with True show ?thesis by (metis option.exhaust)
  next
    case False
    then have "map_of (mf_buckets (gc f now)) (bucketKey p opn b) = Some fb \<longleftrightarrow>
        map_of (mf_buckets f) (bucketKey p opn b) = Some fb" for fb
      using g by blast
    with False show ?thesis by (metis option.exhaust)
  qed
qed

lemma retainBuckets_pos: "1 \<le> retainBuckets f"
  by (simp add: retainBuckets_def Let_def)

section \<open>Properties\<close>

text \<open>
  C39: the survival floor holds for every key separately. Over any sequence of \<^verbatim>\<open>ShouldKeep\<close>
  calls on any keys, the calls on one (project, operation, bucket) that asked for a minimum of
  \<open>m\<close> and started uncounted satisfy: all that the ratio sampler kept are kept, at least the
  first \<open>m\<close> (or all, if fewer) survive, and at most \<open>m\<close> survive by the floor alone. Operation
  names may hold any bytes, the separator included.
\<close>

theorem floor_guarantee:
  assumes "\<forall>e \<in> set es. fst e = k \<longrightarrow> fst (snd e) = m" and "0 \<le> m" and "floor_count f k = 0"
  shows "min m (int (length (calls_on k es (fst (run_ops floor_call f es)))))
      \<le> int (length (filter snd (calls_on k es (fst (run_ops floor_call f es)))))
    \<and> (\<forall>r. (True, r) \<in> set (calls_on k es (fst (run_ops floor_call f es))) \<longrightarrow> r)
    \<and> int (length (filter (\<lambda>(q, r). \<not> q \<and> r) (calls_on k es (fst (run_ops floor_call f es))))) \<le> m"
proof -
  have "floor_count (snd (run_ops floor_call f es)) k =
      int (length (filter snd (calls_on k es (fst (run_ops floor_call f es)))))"
    using mfloor.tally_run [of f es k] assms(3) by (simp add: floor_call_eq)
  moreover have "min m (int (length (calls_on k es (fst (run_ops floor_call f es)))))
      \<le> floor_count (snd (run_ops floor_call f es)) k"
    using mfloor.run_floor [OF assms(1), of f] assms(3) by (simp add: floor_call_eq)
  moreover have "int (length (filter (\<lambda>(q, r). \<not> q \<and> r) (calls_on k es (fst (run_ops floor_call f es))))) \<le> m"
    using mfloor.run_rescued [OF assms(1), of f] assms(2,3) by (simp add: floor_call_eq)
  ultimately show ?thesis
    using mfloor.run_ratio [of _ k es f] by (auto simp: floor_call_eq)
qed

definition floor_demo :: "(floor_key \<times> int \<times> bool) list" where
  "floor_demo = [((7, [NUL], 3), 1, False), ((7, [], 3), 5, True), ((7, [NUL], 3), 1, False)]"

theorem floor_guarantee_witness:
  "min 1 (int (length (calls_on (7, [NUL], 3) floor_demo (fst (run_ops floor_call NewMinuteFloor floor_demo)))))
    \<le> int (length (filter snd (calls_on (7, [NUL], 3) floor_demo
          (fst (run_ops floor_call NewMinuteFloor floor_demo)))))"
  by (rule floor_guarantee [THEN conjunct1])
    (auto simp: floor_demo_def floor_count_def NewMinuteFloor_def)

text \<open>
  Garbage collection forgets exactly the buckets more than \<^verbatim>\<open>retainBuckets\<close> before the current
  one, and never the current or the previous bucket. The retention is 15 buckets for a minute
  floor and 1 for an hourly one.
\<close>

theorem gc_keeps_recent_buckets:
  assumes "floor_wf f"
  shows "floor_count (gc f now) (p, opn, b) =
      (if b < BucketOf f (UnixMicro now) - retainBuckets f then 0 else floor_count f (p, opn, b))
    \<and> 1 \<le> retainBuckets f
    \<and> (mf_bucket f = minute \<longrightarrow> retainBuckets f = 15)
    \<and> (mf_bucket f = hour \<longrightarrow> retainBuckets f = 1)"
proof -
  have "mf_bucket f = minute \<longrightarrow> retainBuckets f = 15" "mf_bucket f = hour \<longrightarrow> retainBuckets f = 1"
    by (simp_all add: retainBuckets_def width_def floorRetainWindow_def time_units go_div_def)
  then show ?thesis
    using gc_lookup [OF assms, of now p opn b] retainBuckets_pos
    by (auto simp: floor_count_def BucketOf_def)
qed

definition gc_demo :: MinuteFloor where
  "gc_demo = snd (ShouldKeep NewMinuteFloor 1 ''GET'' 10 1 False)"

theorem gc_keeps_recent_buckets_witness:
  "floor_count (gc gc_demo 62135597460000000000) (1, ''GET'', 10) =
    (if 10 < BucketOf gc_demo (UnixMicro 62135597460000000000) - retainBuckets gc_demo then 0
     else floor_count gc_demo (1, ''GET'', 10))"
  by (rule gc_keeps_recent_buckets [THEN conjunct1])
    (unfold gc_demo_def, intro floor_wf_ShouldKeep floor_wf_New)

end
