(* ===== verification/SampleRatio.thy ===== *)
theory SampleRatio
  imports SpanModel
begin

text \<open>
  Ratio sampling: the decision on a trace ID (\<^verbatim>\<open>ratioSampled\<close> and \<^verbatim>\<open>traceIDSampledByRatio\<close> of
  \<^verbatim>\<open>internal/ingest/trace_buffer_decide.go\<close>), and the cached lookup of the configured ratio
  (\<^verbatim>\<open>internal/ingest/sample_ratio.go\<close>). The settings table is a parameter: a function from a key
  to its value, \<open>None\<close> for a read that failed. It may change from call to call.
\<close>

section \<open>Hexadecimal decoding\<close>

definition hex_value :: "char \<Rightarrow> nat option" where
  "hex_value c =
     (let n = of_char c :: nat in
      if 48 \<le> n \<and> n \<le> 57 then Some (n - 48)
      else if 97 \<le> n \<and> n \<le> 102 then Some (n - 97 + 10)
      else if 65 \<le> n \<and> n \<le> 70 then Some (n - 65 + 10)
      else None)"

text \<open>\<^verbatim>\<open>hex.DecodeString\<close>: \<open>None\<close> for a byte that is no hex digit and for an odd length.\<close>

fun hex_DecodeString :: "string \<Rightarrow> nat list option" where
  "hex_DecodeString [] = Some []"
| "hex_DecodeString [c] = None"
| "hex_DecodeString (h # l # s) =
     (case (hex_value h, hex_value l, hex_DecodeString s) of
        (Some a, Some b, Some bs) \<Rightarrow> Some ((a * 16 + b) # bs)
      | _ \<Rightarrow> None)"

definition BigEndian_Uint64 :: "nat list \<Rightarrow> nat" where
  "BigEndian_Uint64 b = foldl (\<lambda>a x. a * 256 + x) 0 (take 8 b)"

definition DefaultSampleRatio :: int where
  "DefaultSampleRatio = 1000"

definition traceIDSampledByRatio :: "string \<Rightarrow> int \<Rightarrow> bool" where
  "traceIDSampledByRatio traceID ratio =
     (if length traceID < 16 then True
      else case hex_DecodeString (take 16 traceID) of
          None \<Rightarrow> True
        | Some b \<Rightarrow>
            if length b < 8 then True
            else int (BigEndian_Uint64 b) mod u64 ratio = 0)"

definition ratioSampled :: "string \<Rightarrow> int \<Rightarrow> bool" where
  "ratioSampled traceID ratio = (if ratio \<le> 1 then True else traceIDSampledByRatio traceID ratio)"

section \<open>The configured ratio\<close>

definition parse_digits :: "string \<Rightarrow> int option" where
  "parse_digits s =
     (if s \<noteq> [] \<and> list_all (\<lambda>c. 48 \<le> (of_char c :: nat) \<and> (of_char c :: nat) \<le> 57) s
      then Some (int (read_digits s)) else None)"

text \<open>\<^verbatim>\<open>strconv.Atoi\<close>: an optional sign and decimal digits, in the range of an int64.\<close>

definition Atoi :: "string \<Rightarrow> int option" where
  "Atoi s =
     (let (sign, ds) = (case s of [] \<Rightarrow> (1, [])
          | c # cs \<Rightarrow> if c = CHR ''-'' then (-1, cs) else if c = CHR ''+'' then (1, cs) else (1, s))
      in case parse_digits ds of None \<Rightarrow> None
         | Some n \<Rightarrow> if in_s64 (sign * n) then Some (sign * n) else None)"

type_synonym settings = "string \<Rightarrow> string option"

record cachedEntry =
  ce_value :: int
  ce_expiresAt :: gotime

record CachedRatioLookup =
  cl_cacheTTL :: duration
  cl_entries :: "(string \<times> cachedEntry) list"

definition NewCachedRatioLookup :: "duration \<Rightarrow> CachedRatioLookup" where
  "NewCachedRatioLookup ttl = \<lparr>cl_cacheTTL = ttl, cl_entries = []\<rparr>"

definition read_setting :: "settings \<Rightarrow> string \<Rightarrow> int" where
  "read_setting repo key =
     (case repo key of None \<Rightarrow> 0
      | Some s \<Rightarrow> if s = [] then 0 else case Atoi s of None \<Rightarrow> 0 | Some n \<Rightarrow> n)"

definition ratio_get :: "settings \<Rightarrow> gotime \<Rightarrow> CachedRatioLookup \<Rightarrow> string \<Rightarrow> int \<times> CachedRatioLookup" where
  "ratio_get repo now c key =
     (case map_of (cl_entries c) key of
        Some e \<Rightarrow>
          if now < ce_expiresAt e then (ce_value e, c)
          else let v = read_setting repo key
            in (v, c\<lparr>cl_entries := AList.update key \<lparr>ce_value = v, ce_expiresAt = now + cl_cacheTTL c\<rparr> (cl_entries c)\<rparr>)
      | None \<Rightarrow>
          let v = read_setting repo key
          in (v, c\<lparr>cl_entries := AList.update key \<lparr>ce_value = v, ce_expiresAt = now + cl_cacheTTL c\<rparr> (cl_entries c)\<rparr>))"

definition opKey :: "int \<Rightarrow> string \<Rightarrow> string" where
  "opKey projectID operation =
     ''ingest.sample_ratio.project.'' @ FormatInt projectID @ ''.op.'' @ operation"

definition projKey :: "int \<Rightarrow> string" where
  "projKey projectID = ''ingest.sample_ratio.project.'' @ FormatInt projectID"

definition defaultKey :: string where
  "defaultKey = ''ingest.sample_ratio.default''"

definition Ratio :: "settings \<Rightarrow> gotime \<Rightarrow> CachedRatioLookup \<Rightarrow> int \<Rightarrow> string \<Rightarrow> int \<times> CachedRatioLookup" where
  "Ratio repo now c projectID operation =
     (case ratio_get repo now c (opKey projectID operation) of (v, c1) \<Rightarrow>
        if v > 0 then (v, c1)
        else case ratio_get repo now c1 (projKey projectID) of (v, c2) \<Rightarrow>
          if v > 0 then (v, c2)
          else case ratio_get repo now c2 defaultKey of (v, c3) \<Rightarrow>
            if v > 0 then (v, c3) else (DefaultSampleRatio, c3))"

section \<open>The hash is the number the trace ID spells\<close>

definition hex_char :: "nat \<Rightarrow> char" where
  "hex_char d = char_of (if d < 10 then 48 + d else 97 + d - 10)"

fun hex_bytes :: "nat \<Rightarrow> nat \<Rightarrow> string" where
  "hex_bytes 0 v = []"
| "hex_bytes (Suc n) v = hex_bytes n (v div 256) @ [hex_char (v div 16 mod 16), hex_char (v mod 16)]"

lemma hex_value_char: "d < 16 \<Longrightarrow> hex_value (hex_char d) = Some d"
  by (auto simp: hex_value_def hex_char_def Let_def)

lemma length_hex_bytes [simp]: "length (hex_bytes n v) = 2 * n"
  by (induction n arbitrary: v) simp_all

lemma hex_DecodeString_snoc:
  "hex_DecodeString s = Some bs \<Longrightarrow> hex_value h = Some a \<Longrightarrow> hex_value l = Some b \<Longrightarrow>
   hex_DecodeString (s @ [h, l]) = Some (bs @ [a * 16 + b])"
  by (induction s arbitrary: bs rule: hex_DecodeString.induct) (auto split: option.splits)

lemma hex_DecodeString_bytes:
  "\<exists>bs. hex_DecodeString (hex_bytes n v) = Some bs \<and> length bs = n \<and>
     foldl (\<lambda>a x. a * 256 + x) 0 bs = v mod 256 ^ n"
proof (induction n arbitrary: v)
  case (Suc n)
  obtain bs where bs: "hex_DecodeString (hex_bytes n (v div 256)) = Some bs" "length bs = n"
    "foldl (\<lambda>a x. a * 256 + x) 0 bs = v div 256 mod 256 ^ n"
    using Suc by blast
  have "hex_DecodeString (hex_bytes (Suc n) v) = Some (bs @ [(v div 16 mod 16) * 16 + v mod 16])"
    using bs(1) by (simp add: hex_DecodeString_snoc hex_value_char)
  moreover have "(v div 16 mod 16) * 16 + v mod 16 = v mod 256"
    using mod_mult2_eq [of v 16 16] by (simp add: mult.commute)
  moreover have "v div 256 mod 256 ^ n * 256 + v mod 256 = v mod 256 ^ Suc n"
    using mod_mult2_eq [of v 256 "256 ^ n"] by (simp add: mult.commute)
  ultimately show ?case using bs by simp
qed simp

lemma traceID_value:
  assumes "v < 2 ^ 64"
  shows "\<exists>bs. hex_DecodeString (take 16 (hex_bytes 8 v @ rest)) = Some bs \<and> length bs = 8 \<and>
    BigEndian_Uint64 bs = v"
proof -
  obtain bs where "hex_DecodeString (hex_bytes 8 v) = Some bs" "length bs = 8"
    "foldl (\<lambda>a x. a * 256 + x) 0 bs = v mod 256 ^ 8"
    using hex_DecodeString_bytes by blast
  then show ?thesis using assms by (simp add: BigEndian_Uint64_def)
qed

lemma ratioSampled_value:
  assumes "v < 2 ^ 64" and "1 < m" and "m < 2 ^ 63"
  shows "ratioSampled (hex_bytes 8 v @ rest) m \<longleftrightarrow> int v mod m = 0"
proof -
  obtain bs where "hex_DecodeString (take 16 (hex_bytes 8 v @ rest)) = Some bs" "length bs = 8"
    "BigEndian_Uint64 bs = v"
    using traceID_value [OF assms(1)] by blast
  moreover have "u64 m = m" using assms(2,3) by (simp add: u64_def)
  moreover have "\<not> length (hex_bytes 8 v @ rest) < 16" by simp
  ultimately show ?thesis
    using assms(2) unfolding ratioSampled_def traceIDSampledByRatio_def by simp
qed

section \<open>What the cache holds\<close>

text \<open>
  The specification. The settings keys are the documented ones, from the most specific to the least; the
  first positive setting counts, and 1000 if there is none. A call is the settings table at its time,
  the time, a project and an operation; \<open>cache_after\<close> is the cache a sequence of calls leaves behind.
\<close>

definition setting_keys :: "int \<Rightarrow> string \<Rightarrow> string list" where
  "setting_keys p opn =
     [''ingest.sample_ratio.project.'' @ FormatInt p @ ''.op.'' @ opn, ''ingest.sample_ratio.project.'' @ FormatInt p,
      ''ingest.sample_ratio.default'']"

definition first_positive :: "int list \<Rightarrow> int" where
  "first_positive vs = (case find (\<lambda>v. 0 < v) vs of Some v \<Rightarrow> v | None \<Rightarrow> 1000)"

type_synonym ratio_call = "settings \<times> gotime \<times> int \<times> string"

definition cache_after :: "duration \<Rightarrow> ratio_call list \<Rightarrow> CachedRatioLookup" where
  "cache_after ttl calls = fold (\<lambda>(repo, now, p, opn) c. snd (Ratio repo now c p opn)) calls (NewCachedRatioLookup ttl)"

text \<open>A value is recent if it is the setting now, or was read by a call less than the TTL ago.\<close>

definition recent :: "duration \<Rightarrow> ratio_call list \<Rightarrow> settings \<Rightarrow> gotime \<Rightarrow> string \<Rightarrow> int \<Rightarrow> bool" where
  "recent ttl calls repo now key v \<longleftrightarrow> v = read_setting repo key
     \<or> (\<exists>(repo', t, _, _) \<in> set calls. now < t + ttl \<and> v = read_setting repo' key)"

lemma recent_cases:
  assumes "recent ttl calls repo now key v"
  obtains "v = read_setting repo key"
    | repo' t p opn where "(repo', t, p, opn) \<in> set calls" "now < t + ttl" "v = read_setting repo' key"
  using assms by (auto simp: recent_def)

definition cache_ok :: "duration \<Rightarrow> (settings \<times> gotime) set \<Rightarrow> CachedRatioLookup \<Rightarrow> bool" where
  "cache_ok ttl H c \<longleftrightarrow> cl_cacheTTL c = ttl \<and> (\<forall>key e. map_of (cl_entries c) key = Some e \<longrightarrow>
     (\<exists>(repo, t) \<in> H. ce_value e = read_setting repo key \<and> ce_expiresAt e = t + ttl))"

lemma cache_ok_mono: "cache_ok ttl H c \<Longrightarrow> H \<subseteq> H' \<Longrightarrow> cache_ok ttl H' c"
  by (auto simp: cache_ok_def) blast

lemma ratio_get_ok:
  assumes "cache_ok ttl H c" and "(repo, now) \<in> H"
  shows "cache_ok ttl H (snd (ratio_get repo now c key))"
    and "\<exists>(repo', t) \<in> H. fst (ratio_get repo now c key) = read_setting repo' key \<and> ((repo', t) = (repo, now) \<or> now < t + ttl)"
proof -
  let ?new = "c\<lparr>cl_entries := AList.update key \<lparr>ce_value = read_setting repo key, ce_expiresAt = now + ttl\<rparr> (cl_entries c)\<rparr>"
  have ttl: "cl_cacheTTL c = ttl" using assms(1) by (simp add: cache_ok_def)
  have new: "cache_ok ttl H ?new" using assms by (auto simp: cache_ok_def update_conv')
  consider e where "map_of (cl_entries c) key = Some e" "now < ce_expiresAt e" "ratio_get repo now c key = (ce_value e, c)"
    | "ratio_get repo now c key = (read_setting repo key, ?new)"
  proof (cases "map_of (cl_entries c) key")
    case (Some e)
    then show thesis using that by (cases "now < ce_expiresAt e") (simp_all add: ratio_get_def ttl Let_def)
  qed (use that in \<open>simp add: ratio_get_def ttl Let_def\<close>)
  then show "cache_ok ttl H (snd (ratio_get repo now c key))"
    and "\<exists>(repo', t) \<in> H. fst (ratio_get repo now c key) = read_setting repo' key \<and> ((repo', t) = (repo, now) \<or> now < t + ttl)"
    using assms new by (cases; fastforce simp: cache_ok_def)+
qed

lemma Ratio_reads:
  assumes "cache_ok ttl H c" and "(repo, now) \<in> H"
  obtains vs where "fst (Ratio repo now c p opn) = first_positive vs" "cache_ok ttl H (snd (Ratio repo now c p opn))"
    "list_all2 (\<lambda>key v. \<exists>(repo', t) \<in> H. v = read_setting repo' key \<and> ((repo', t) = (repo, now) \<or> now < t + ttl)) (setting_keys p opn) vs"
proof -
  obtain v1 c1 where g1: "ratio_get repo now c (opKey p opn) = (v1, c1)" by fastforce
  obtain v2 c2 where g2: "ratio_get repo now c1 (projKey p) = (v2, c2)" by fastforce
  obtain v3 c3 where g3: "ratio_get repo now c2 defaultKey = (v3, c3)" by fastforce
  note r1 = ratio_get_ok [OF assms, of "opKey p opn", unfolded g1 fst_conv snd_conv]
  note r2 = ratio_get_ok [OF r1(1) assms(2), of "projKey p", unfolded g2 fst_conv snd_conv]
  note r3 = ratio_get_ok [OF r2(1) assms(2), of defaultKey, unfolded g3 fst_conv snd_conv]
  have "fst (Ratio repo now c p opn) = first_positive [v1, v2, v3]" "cache_ok ttl H (snd (Ratio repo now c p opn))"
    using r1(1) r2(1) r3(1) by (simp_all add: Ratio_def g1 g2 g3 first_positive_def DefaultSampleRatio_def)
  then show thesis
    using that [of "[v1, v2, v3]"] r1(2) r2(2) r3(2)
    unfolding setting_keys_def opKey_def projKey_def defaultKey_def by simp
qed

definition reads_of :: "ratio_call list \<Rightarrow> (settings \<times> gotime) set" where
  "reads_of calls = (\<lambda>(repo, t, _, _). (repo, t)) ` set calls"

lemma cache_after_ok: "cache_ok ttl (reads_of calls) (cache_after ttl calls)"
proof -
  have "cache_ok ttl H c \<Longrightarrow> cache_ok ttl (H \<union> reads_of calls) (fold (\<lambda>(repo, now, p, opn) c. snd (Ratio repo now c p opn)) calls c)" for H c
  proof (induction calls arbitrary: H c)
    case (Cons x calls)
    obtain repo now p opn where x: "x = (repo, now, p, opn)" by (cases x)
    have "cache_ok ttl (insert (repo, now) H) c" by (rule cache_ok_mono [OF Cons.prems]) blast
    then have "cache_ok ttl (insert (repo, now) H) (snd (Ratio repo now c p opn))" by (rule Ratio_reads [OF _ insertI1])
    from Cons.IH [OF this] show ?case by (simp add: x reads_of_def)
  qed (simp add: reads_of_def)
  from this [of "{}" "NewCachedRatioLookup ttl"] show ?thesis
    by (simp add: cache_after_def) (simp add: cache_ok_def NewCachedRatioLookup_def)
qed

lemma first_positive_pos: "0 < first_positive vs"
  by (auto simp: first_positive_def find_Some_iff split: option.splits)

section \<open>Properties\<close>

text \<open>
  The ratio decision depends only on the trace ID, so every pod makes the same one. For a
  trace ID that starts with the 16 hex digits of a 64-bit number \<open>v\<close>, ratio \<open>n > 1\<close> samples
  the trace exactly when \<open>n\<close> divides \<open>v\<close>, whatever follows in the ID, and a trace sampled at a
  ratio is sampled at every divisor of it.
\<close>

theorem ratioSampled_one_in_n:
  assumes "v < 2 ^ 64" and "1 < n" and "n < 2 ^ 63"
  shows "(ratioSampled (hex_bytes 8 v @ rest) n \<longleftrightarrow> int v mod n = 0)
    \<and> (\<forall>m. m dvd n \<longrightarrow> ratioSampled (hex_bytes 8 v @ rest) n \<longrightarrow> ratioSampled (hex_bytes 8 v @ rest) m)"
proof -
  have iff: "ratioSampled (hex_bytes 8 v @ rest) m \<longleftrightarrow> int v mod m = 0"
    if "1 < m" "m < 2 ^ 63" for m
    by (rule ratioSampled_value [OF assms(1) that])
  have "ratioSampled (hex_bytes 8 v @ rest) m"
    if s: "ratioSampled (hex_bytes 8 v @ rest) n" and d: "m dvd n" for m
  proof (cases "m \<le> 1")
    case True
    then show ?thesis by (simp add: ratioSampled_def)
  next
    case False
    have "m < 2 ^ 63" using d assms(2,3) zdvd_imp_le [of m n] by linarith
    moreover have "m dvd int v"
      using s d iff [OF assms(2,3)] by (auto intro: dvd_trans)
    ultimately show ?thesis using iff [of m] False by (simp add: mod_eq_0_iff_dvd)
  qed
  then show ?thesis using iff [OF assms(2,3)] by blast
qed

theorem ratioSampled_one_in_n_witness:
  "ratioSampled (hex_bytes 8 3000 @ ''ff'') 1000 \<and> ratioSampled (hex_bytes 8 3000 @ ''ff'') 8
    \<and> \<not> ratioSampled (hex_bytes 8 3001 @ ''ff'') 1000"
  using ratioSampled_one_in_n [of 3000 1000 "''ff''"] ratioSampled_one_in_n [of 3001 1000 "''ff''"]
  by simp

text \<open>
  C40: a lookup returns the most specific positive ratio among values that are at most the TTL old. After
  any sequence of calls, with settings that change between them, there is a value for each of the three
  keys, read now or by a call less than the TTL ago, such that the result is the first positive of them
  from the operation's over the project's to the global one, or 1000; it is always positive. If the calls
  of the last TTL saw the settings of these keys as they are now, the result is the one of the settings
  as they are now: a change takes effect within the TTL.
\<close>

theorem Ratio_most_specific:
  "(\<exists>vs. list_all2 (recent ttl calls repo now) (setting_keys p opn) vs
      \<and> fst (Ratio repo now (cache_after ttl calls) p opn) = first_positive vs)
   \<and> 0 < fst (Ratio repo now (cache_after ttl calls) p opn)
   \<and> ((\<forall>(repo', t, _, _) \<in> set calls. now < t + ttl \<longrightarrow>
        (\<forall>key \<in> set (setting_keys p opn). read_setting repo' key = read_setting repo key)) \<longrightarrow>
      fst (Ratio repo now (cache_after ttl calls) p opn) = first_positive (map (read_setting repo) (setting_keys p opn)))"
proof -
  let ?H = "insert (repo, now) (reads_of calls)"
  have ok: "cache_ok ttl ?H (cache_after ttl calls)" by (rule cache_ok_mono [OF cache_after_ok]) blast
  obtain vs where vs: "fst (Ratio repo now (cache_after ttl calls) p opn) = first_positive vs"
    "list_all2 (\<lambda>key v. \<exists>(repo', t) \<in> ?H. v = read_setting repo' key \<and> ((repo', t) = (repo, now) \<or> now < t + ttl)) (setting_keys p opn) vs"
    by (rule Ratio_reads [OF ok insertI1])
  have rec: "list_all2 (recent ttl calls repo now) (setting_keys p opn) vs"
    by (rule list_all2_mono [OF vs(2)]) (auto simp: recent_def reads_of_def split: prod.splits)
  moreover have "vs = map (read_setting repo) (setting_keys p opn)"
    if same: "\<forall>(repo', t, _, _) \<in> set calls. now < t + ttl \<longrightarrow> (\<forall>key \<in> set (setting_keys p opn). read_setting repo' key = read_setting repo key)"
  proof (rule nth_equalityI)
    show "length vs = length (map (read_setting repo) (setting_keys p opn))" using rec by (simp add: list_all2_lengthD)
    fix i assume "i < length vs"
    then have i: "i < length (setting_keys p opn)" "recent ttl calls repo now (setting_keys p opn ! i) (vs ! i)"
      using rec by (auto simp: list_all2_conv_all_nth)
    from i(2) show "vs ! i = map (read_setting repo) (setting_keys p opn) ! i"
    proof (cases rule: recent_cases)
      case (2 repo' t p' opn')
      from bspec [OF same 2(1)] 2(2) have "\<forall>key \<in> set (setting_keys p opn). read_setting repo' key = read_setting repo key" by simp
      from bspec [OF this nth_mem [OF i(1)]] show ?thesis using 2(3) i(1) by simp
    qed (use i(1) in simp)
  qed
  ultimately show ?thesis using vs(1) first_positive_pos [of vs] by auto
qed

text \<open>The project's ratio was raised from 50 to 80; a call 70 seconds later no longer sees 50.\<close>

definition project_ratio :: "string \<Rightarrow> settings" where
  "project_ratio v = (\<lambda>k. if k = projKey 7 then Some v else None)"

theorem Ratio_most_specific_witness:
  "fst (Ratio (project_ratio ''80'') 75 (cache_after 60 [(project_ratio ''50'', 5, 7, ''GET /'')]) 7 ''GET /'') = 80"
proof -
  have r: "fst (Ratio (project_ratio ''80'') 75 (cache_after 60 [(project_ratio ''50'', 5, 7, ''GET /'')]) 7 ''GET /'') =
      first_positive (map (read_setting (project_ratio ''80'')) (setting_keys 7 ''GET /''))"
    by (rule Ratio_most_specific [THEN conjunct2, THEN conjunct2, rule_format]) auto
  have "Atoi ''80'' = Some 80"
    by (simp add: Atoi_def parse_digits_def read_digits_def in_s64_def)
  then show ?thesis
    unfolding r by (simp add: setting_keys_def first_positive_def read_setting_def project_ratio_def projKey_def)
qed

end
