(* ===== verification/TraceBuffer.thy ===== *)
theory TraceBuffer
  imports DecidedTraces MinuteFloor SampleRatio
begin

text \<open>
  The trace buffer (\<^verbatim>\<open>internal/ingest/trace_buffer*.go\<close>): spans wait per trace for the
  trace's sampling decision. An operation runs under the buffer's lock and is a function on
  the buffer's state. It reads the clock (\<open>now\<close>) once, and asks for sample ratios through the
  lookup \<open>lk\<close>, \<open>None\<close> for a nil lookup. A trace pointer is the trace's ID. Counters are
  unbounded integers.

  \<^verbatim>\<open>flush\<close> takes the due traces out under the lock, decides them one after another without
  it, and takes it again to settle the decisions; it is composed from those pieces
  (\<open>flush_begin\<close>, \<open>decide_one\<close>, \<open>flush_carriers\<close>, \<open>settle\<close>, \<open>deliver_one\<close>) so that the
  interleaving with other operations can be stated. The pieces \<open>decide_one\<close> and \<open>flush_carriers\<close> run
  outside the buffer's lock and take the locks of the ratio cache, the survival floor, the carry and the
  ledger one after the other; each of them is one step here, so an \<^verbatim>\<open>Add\<close> falls before or after the
  decision of a trace and not between two of these locks. What such an \<^verbatim>\<open>Add\<close> could touch of the same
  state is an eviction's use of the floor and the carry and its additions to the ledger.
\<close>

type_synonym lookup = "(int \<Rightarrow> string \<Rightarrow> int) option"

definition DefaultTraceBufferTTL :: duration where
  "DefaultTraceBufferTTL = 10 * minute"

definition DefaultRootGrace :: duration where
  "DefaultRootGrace = 30 * second"

definition DefaultMaxBufferedSpans :: int where
  "DefaultMaxBufferedSpans = 50000"

record RescueRules =
  rr_SlowThresholdUs :: int
  rr_MinTracesPerHour :: int

definition normalised :: "RescueRules \<Rightarrow> RescueRules" where
  "normalised r =
     (let r = (if rr_SlowThresholdUs r < 0 then r\<lparr>rr_SlowThresholdUs := 0\<rparr> else r)
      in if rr_MinTracesPerHour r < 0 then r\<lparr>rr_MinTracesPerHour := 0\<rparr> else r)"

record capPressure =
  cp_since :: gotime
  cp_warned :: gotime

record TraceBuffer =
  tb_traces :: "(string \<times> bufferedTrace) list"
  tb_seq :: nat
  tb_ttl :: duration
  tb_maxSpans :: int
  tb_pressure :: capPressure
  tb_spanCount :: int
  tb_rescue :: RescueRules
  tb_floor :: "MinuteFloor option"
  tb_carry :: carryTally
  tb_sacrificeQ :: "string list"
  tb_sacrificeHead :: nat
  tb_anyQ :: "string list"
  tb_anyHead :: nat
  tb_refused :: int
  tb_evictedSacrif :: int
  tb_evictedKept :: int
  tb_refusedTotal :: int
  tb_evictedSTotal :: int
  tb_evictedKTotal :: int
  tb_undeliverTotal :: int
  tb_rescuedAtCap :: "bufferedTrace list"
  tb_evictedRescue :: int
  tb_evictedRTotal :: int
  tb_rootGrace :: duration
  tb_decided :: decidedTraces
  tb_ledger :: Tally
  tb_closed :: bool

definition NewTraceBufferWithRules :: "duration \<Rightarrow> int \<Rightarrow> RescueRules \<Rightarrow> TraceBuffer" where
  "NewTraceBufferWithRules ttl maxSpans rules =
     (let ttl = (if ttl \<le> 0 then DefaultTraceBufferTTL else ttl);
          maxSpans = (if maxSpans < 0 then 0 else maxSpans);
          rescue = normalised rules
      in \<lparr>tb_traces = [], tb_seq = 0, tb_ttl = ttl, tb_maxSpans = maxSpans,
          tb_pressure = \<lparr>cp_since = zero_time, cp_warned = zero_time\<rparr>, tb_spanCount = 0,
          tb_rescue = rescue,
          tb_floor = (if rr_MinTracesPerHour rescue > 0 then Some (NewBucketFloor hour) else None),
          tb_carry = newCarryTally maxSpans, tb_sacrificeQ = [], tb_sacrificeHead = 0,
          tb_anyQ = [], tb_anyHead = 0, tb_refused = 0, tb_evictedSacrif = 0, tb_evictedKept = 0,
          tb_refusedTotal = 0, tb_evictedSTotal = 0, tb_evictedKTotal = 0, tb_undeliverTotal = 0,
          tb_rescuedAtCap = [], tb_evictedRescue = 0, tb_evictedRTotal = 0,
          tb_rootGrace = DefaultRootGrace,
          tb_decided = newDecidedTraces ttl DefaultMaxDecidedTraces, tb_ledger = None,
          tb_closed = False\<rparr>)"

definition NewTraceBufferWithLimits :: "duration \<Rightarrow> int \<Rightarrow> TraceBuffer" where
  "NewTraceBufferWithLimits ttl maxSpans =
     NewTraceBufferWithRules ttl maxSpans \<lparr>rr_SlowThresholdUs = 0, rr_MinTracesPerHour = 0\<rparr>"

definition NewTraceBuffer :: "duration \<Rightarrow> TraceBuffer" where
  "NewTraceBuffer ttl = NewTraceBufferWithLimits ttl DefaultMaxBufferedSpans"

definition SetLedger :: "TraceBuffer \<Rightarrow> Tally \<Rightarrow> TraceBuffer" where
  "SetLedger tb t = tb\<lparr>tb_ledger := t\<rparr>"

definition SetRootGrace :: "TraceBuffer \<Rightarrow> duration \<Rightarrow> TraceBuffer" where
  "SetRootGrace tb d = tb\<lparr>tb_rootGrace := max d 0\<rparr>"

section \<open>The decision on one trace\<close>

definition ratio :: "lookup \<Rightarrow> int \<Rightarrow> string \<Rightarrow> int" where
  "ratio lk projectID opn =
     (case lk of None \<Rightarrow> DefaultSampleRatio | Some l \<Rightarrow> l projectID opn)"

definition sampledIn :: "lookup \<Rightarrow> int \<Rightarrow> string \<Rightarrow> string \<Rightarrow> bool" where
  "sampledIn lk projectID opn traceID = ratioSampled traceID (ratio lk projectID opn)"

definition rootlessWeight :: "bool \<Rightarrow> int \<Rightarrow> int" where
  "rootlessWeight sampled r = (if sampled then max r 1 else 1)"

definition slowRoot :: "TraceBuffer \<Rightarrow> bufferedTrace \<Rightarrow> bool" where
  "slowRoot tb tr =
     (if rr_SlowThresholdUs (tb_rescue tb) \<le> 0 then False
      else list_ex (\<lambda>sp. sr_ParentSpanID sp = [] \<and> sr_DurationUs sp > rr_SlowThresholdUs (tb_rescue tb))
             (bt_spans tr))"

definition rescued :: "TraceBuffer \<Rightarrow> int \<Rightarrow> string \<Rightarrow> gotime \<Rightarrow> bool \<Rightarrow> bool \<times> TraceBuffer" where
  "rescued tb projectID opn now ratioKeep =
     (case tb_floor tb of None \<Rightarrow> (ratioKeep, tb)
      | Some fl \<Rightarrow>
          let bucket = BucketOf fl (UnixMicro now);
              (k, fl') = ShouldKeep fl projectID opn bucket (rr_MinTracesPerHour (tb_rescue tb)) ratioKeep
          in (k, tb\<lparr>tb_floor := Some fl'\<rparr>))"

definition keepWeight :: "lookup \<Rightarrow> TraceBuffer \<Rightarrow> bufferedTrace \<Rightarrow> gotime \<Rightarrow> int \<times> TraceBuffer" where
  "keepWeight lk tb tr now =
     (if bt_hasError tr then (1, tb)
      else if bt_spans tr = [] then (0, tb)
      else let opn = traceOp tr in
        if slowRoot tb tr then (1, tb)
        else let r = ratio lk (bt_projectID tr) (bt_rootOp tr);
                 sampled = ratioSampled (bt_id tr) r;
                 (k, tb) = rescued tb (bt_projectID tr) opn now sampled
          in if \<not> k then (0, tb)
             else if \<not> hasRoot tr then (rootlessWeight sampled r, tb)
             else let (n, c) = carry_take (tb_carry tb) (bt_projectID tr) opn
                  in (1 + n, tb\<lparr>tb_carry := c\<rparr>))"

section \<open>Making room at the cap\<close>

definition remove :: "TraceBuffer \<Rightarrow> bufferedTrace \<Rightarrow> TraceBuffer" where
  "remove tb tr =
     (let n = tb_spanCount tb - int (length (bt_spans tr))
      in tb\<lparr>tb_traces := AList.delete (bt_id tr) (tb_traces tb), tb_spanCount := (if n < 0 then 0 else n)\<rparr>)"

definition compact :: "string list \<Rightarrow> nat \<Rightarrow> string list \<times> nat" where
  "compact q head =
     (if head < evictQueueCompactAt \<or> head * 2 < length q then (q, head) else (drop head q, 0))"

text \<open>
  The loop of \<^verbatim>\<open>nextVictim\<close>: the trace found, if any, and the head after it. \<open>keep\<close> is the ID
  of the trace that must not be evicted.
\<close>

function scan_victim :: "(string \<times> bufferedTrace) list \<Rightarrow> string list \<Rightarrow> nat \<Rightarrow> bool \<Rightarrow> string option
    \<Rightarrow> bufferedTrace option \<times> nat" where
  "scan_victim traces q head sacrificialOnly keep =
     (if head < length q then
        case map_of traces (q ! head) of
          None \<Rightarrow> scan_victim traces q (head + 1) sacrificialOnly keep
        | Some tr \<Rightarrow>
            if bt_hasError tr \<or> keep = Some (q ! head) then scan_victim traces q (head + 1) sacrificialOnly keep
            else if sacrificialOnly \<and> \<not> bt_sacrificial tr
              then scan_victim traces q (head + 1) sacrificialOnly keep
            else (Some tr, head + 1)
      else (None, head))"
  by pat_completeness auto
termination
  by (relation "measure (\<lambda>(_, q, head, _). length q - head)") auto

declare scan_victim.simps [simp del]

definition nextVictim :: "TraceBuffer \<Rightarrow> string list \<Rightarrow> nat \<Rightarrow> bool \<Rightarrow> string option
    \<Rightarrow> bufferedTrace option \<times> string list \<times> nat" where
  "nextVictim tb q head sacrificialOnly keep =
     (let (r, head) = scan_victim (tb_traces tb) q head sacrificialOnly keep in (r, compact q head))"

definition ledgerDropped :: "TraceBuffer \<Rightarrow> bufferedTrace \<Rightarrow> Column \<Rightarrow> bufferedTrace \<times> TraceBuffer" where
  "ledgerDropped tb tr col =
     (tr\<lparr>bt_droppedAs := col\<rparr>, tb\<lparr>tb_ledger := tally_AddSpans (tb_ledger tb) col (bt_spans tr) 1\<rparr>)"

definition ledgerCarriers :: "TraceBuffer \<Rightarrow> bufferedTrace list \<Rightarrow> TraceBuffer" where
  "ledgerCarriers tb carriers =
     tb\<lparr>tb_ledger := fold (\<lambda>tr t. tally_AddSpans t (bt_droppedAs tr) (bt_spans tr) (- 1)) carriers (tb_ledger tb)\<rparr>"

definition rescueAtCap :: "lookup \<Rightarrow> gotime \<Rightarrow> TraceBuffer \<Rightarrow> bufferedTrace \<Rightarrow> bool \<times> TraceBuffer" where
  "rescueAtCap lk now tb tr =
     (let (w, tb) = keepWeight lk tb tr now in
      if w = 0 then (False, tb)
      else (True, tb\<lparr>tb_decided := snd (decided_put (tb_decided tb) (bt_id tr) w False now),
                     tb_rescuedAtCap := tb_rescuedAtCap tb @ [stampWeight tr w],
                     tb_evictedRescue := tb_evictedRescue tb + int (length (bt_spans tr)),
                     tb_evictedRTotal := tb_evictedRTotal tb + int (length (bt_spans tr))\<rparr>))"

text \<open>The tail that both branches of \<^verbatim>\<open>evictOne\<close> share: count the exit, then the drop, then decide.\<close>

definition drop_evicted :: "gotime \<Rightarrow> TraceBuffer \<Rightarrow> bufferedTrace \<Rightarrow> Column \<Rightarrow> TraceBuffer" where
  "drop_evicted now tb tr col =
     (let (tr, tb) = ledgerDropped tb tr col
      in tb\<lparr>tb_carry := carry_drop (tb_carry tb) tr now,
            tb_decided := snd (decided_put (tb_decided tb) (bt_id tr) 0 False now)\<rparr>)"

definition evict_sacrificial :: "lookup \<Rightarrow> gotime \<Rightarrow> TraceBuffer \<Rightarrow> bufferedTrace \<Rightarrow> TraceBuffer" where
  "evict_sacrificial lk now tb tr =
     (let (kept, tb) = rescueAtCap lk now (remove tb tr) tr in
      if kept then tb
      else drop_evicted now (tb\<lparr>tb_evictedSacrif := tb_evictedSacrif tb + int (length (bt_spans tr)),
                                tb_evictedSTotal := tb_evictedSTotal tb + int (length (bt_spans tr))\<rparr>)
             tr ShedUnsampled)"

definition evict_any :: "gotime \<Rightarrow> TraceBuffer \<Rightarrow> bufferedTrace \<Rightarrow> TraceBuffer" where
  "evict_any now tb tr =
     drop_evicted now
       (remove (tb\<lparr>tb_evictedKept := tb_evictedKept tb + int (length (bt_spans tr)),
                   tb_evictedKTotal := tb_evictedKTotal tb + int (length (bt_spans tr))\<rparr>) tr)
       tr LostInBuffer"

definition evictOne :: "lookup \<Rightarrow> gotime \<Rightarrow> string option \<Rightarrow> TraceBuffer \<Rightarrow> bool \<times> TraceBuffer" where
  "evictOne lk now keep tb =
     (let (r, q, h) = nextVictim tb (tb_sacrificeQ tb) (tb_sacrificeHead tb) True keep;
          tb = tb\<lparr>tb_sacrificeQ := q, tb_sacrificeHead := h\<rparr>
      in case r of
           Some tr \<Rightarrow> (True, evict_sacrificial lk now tb tr)
         | None \<Rightarrow>
             let (r, q, h) = nextVictim tb (tb_anyQ tb) (tb_anyHead tb) False keep;
                 tb = tb\<lparr>tb_anyQ := q, tb_anyHead := h\<rparr>
             in case r of Some tr \<Rightarrow> (True, evict_any now tb tr) | None \<Rightarrow> (False, tb))"

text \<open>What an eviction leaves alone.\<close>

lemma rescued_frame: "\<exists>fl. snd (rescued tb p opn now k) = tb\<lparr>tb_floor := fl\<rparr>"
  by (auto simp: rescued_def Let_def split: option.splits prod.splits) (metis TraceBuffer.surjective TraceBuffer.update_convs(8))

lemma keepWeight_frame: "\<exists>fl c. snd (keepWeight lk tb tr now) = tb\<lparr>tb_floor := fl, tb_carry := c\<rparr>"
proof -
  let ?op = "traceOp tr" and ?r = "ratio lk (bt_projectID tr) (bt_rootOp tr)"
  obtain k tb1 where res: "rescued tb (bt_projectID tr) ?op now (ratioSampled (bt_id tr) ?r) = (k, tb1)"
    by fastforce
  then obtain fl where tb1: "tb1 = tb\<lparr>tb_floor := fl\<rparr>"
    using rescued_frame by (metis snd_conv)
  have same: "\<exists>fl c. tb = tb\<lparr>tb_floor := fl, tb_carry := c\<rparr>"
    by (rule exI [of _ "tb_floor tb"], rule exI [of _ "tb_carry tb"]) simp
  have same1: "\<exists>fl c. tb1 = tb\<lparr>tb_floor := fl, tb_carry := c\<rparr>"
    unfolding tb1 by (rule exI [of _ fl], rule exI [of _ "tb_carry tb"]) simp
  show ?thesis
    using same same1 by (auto simp: keepWeight_def Let_def res tb1 split: prod.splits)
qed

lemma keepWeight_simps [simp]:
  "tb_traces (snd (keepWeight lk tb tr now)) = tb_traces tb"
  "tb_seq (snd (keepWeight lk tb tr now)) = tb_seq tb"
  "tb_ttl (snd (keepWeight lk tb tr now)) = tb_ttl tb"
  "tb_maxSpans (snd (keepWeight lk tb tr now)) = tb_maxSpans tb"
  "tb_pressure (snd (keepWeight lk tb tr now)) = tb_pressure tb"
  "tb_spanCount (snd (keepWeight lk tb tr now)) = tb_spanCount tb"
  "tb_rescue (snd (keepWeight lk tb tr now)) = tb_rescue tb"
  "tb_sacrificeQ (snd (keepWeight lk tb tr now)) = tb_sacrificeQ tb"
  "tb_sacrificeHead (snd (keepWeight lk tb tr now)) = tb_sacrificeHead tb"
  "tb_anyQ (snd (keepWeight lk tb tr now)) = tb_anyQ tb"
  "tb_anyHead (snd (keepWeight lk tb tr now)) = tb_anyHead tb"
  "tb_refused (snd (keepWeight lk tb tr now)) = tb_refused tb"
  "tb_evictedSacrif (snd (keepWeight lk tb tr now)) = tb_evictedSacrif tb"
  "tb_evictedKept (snd (keepWeight lk tb tr now)) = tb_evictedKept tb"
  "tb_refusedTotal (snd (keepWeight lk tb tr now)) = tb_refusedTotal tb"
  "tb_evictedSTotal (snd (keepWeight lk tb tr now)) = tb_evictedSTotal tb"
  "tb_evictedKTotal (snd (keepWeight lk tb tr now)) = tb_evictedKTotal tb"
  "tb_undeliverTotal (snd (keepWeight lk tb tr now)) = tb_undeliverTotal tb"
  "tb_rescuedAtCap (snd (keepWeight lk tb tr now)) = tb_rescuedAtCap tb"
  "tb_evictedRescue (snd (keepWeight lk tb tr now)) = tb_evictedRescue tb"
  "tb_evictedRTotal (snd (keepWeight lk tb tr now)) = tb_evictedRTotal tb"
  "tb_rootGrace (snd (keepWeight lk tb tr now)) = tb_rootGrace tb"
  "tb_decided (snd (keepWeight lk tb tr now)) = tb_decided tb"
  "tb_ledger (snd (keepWeight lk tb tr now)) = tb_ledger tb"
  "tb_closed (snd (keepWeight lk tb tr now)) = tb_closed tb"
proof -
  obtain fl c where "snd (keepWeight lk tb tr now) = tb\<lparr>tb_floor := fl, tb_carry := c\<rparr>"
    using keepWeight_frame by blast
  then show "tb_traces (snd (keepWeight lk tb tr now)) = tb_traces tb"
    "tb_seq (snd (keepWeight lk tb tr now)) = tb_seq tb"
    "tb_ttl (snd (keepWeight lk tb tr now)) = tb_ttl tb"
    "tb_maxSpans (snd (keepWeight lk tb tr now)) = tb_maxSpans tb"
    "tb_pressure (snd (keepWeight lk tb tr now)) = tb_pressure tb"
    "tb_spanCount (snd (keepWeight lk tb tr now)) = tb_spanCount tb"
    "tb_rescue (snd (keepWeight lk tb tr now)) = tb_rescue tb"
    "tb_sacrificeQ (snd (keepWeight lk tb tr now)) = tb_sacrificeQ tb"
    "tb_sacrificeHead (snd (keepWeight lk tb tr now)) = tb_sacrificeHead tb"
    "tb_anyQ (snd (keepWeight lk tb tr now)) = tb_anyQ tb"
    "tb_anyHead (snd (keepWeight lk tb tr now)) = tb_anyHead tb"
    "tb_refused (snd (keepWeight lk tb tr now)) = tb_refused tb"
    "tb_evictedSacrif (snd (keepWeight lk tb tr now)) = tb_evictedSacrif tb"
    "tb_evictedKept (snd (keepWeight lk tb tr now)) = tb_evictedKept tb"
    "tb_refusedTotal (snd (keepWeight lk tb tr now)) = tb_refusedTotal tb"
    "tb_evictedSTotal (snd (keepWeight lk tb tr now)) = tb_evictedSTotal tb"
    "tb_evictedKTotal (snd (keepWeight lk tb tr now)) = tb_evictedKTotal tb"
    "tb_undeliverTotal (snd (keepWeight lk tb tr now)) = tb_undeliverTotal tb"
    "tb_rescuedAtCap (snd (keepWeight lk tb tr now)) = tb_rescuedAtCap tb"
    "tb_evictedRescue (snd (keepWeight lk tb tr now)) = tb_evictedRescue tb"
    "tb_evictedRTotal (snd (keepWeight lk tb tr now)) = tb_evictedRTotal tb"
    "tb_rootGrace (snd (keepWeight lk tb tr now)) = tb_rootGrace tb"
    "tb_decided (snd (keepWeight lk tb tr now)) = tb_decided tb"
    "tb_ledger (snd (keepWeight lk tb tr now)) = tb_ledger tb"
    "tb_closed (snd (keepWeight lk tb tr now)) = tb_closed tb"
    by simp_all
qed

lemma remove_simps [simp]:
  "tb_seq (remove tb tr) = tb_seq tb"
  "tb_ttl (remove tb tr) = tb_ttl tb"
  "tb_maxSpans (remove tb tr) = tb_maxSpans tb"
  "tb_pressure (remove tb tr) = tb_pressure tb"
  "tb_rescue (remove tb tr) = tb_rescue tb"
  "tb_floor (remove tb tr) = tb_floor tb"
  "tb_carry (remove tb tr) = tb_carry tb"
  "tb_sacrificeQ (remove tb tr) = tb_sacrificeQ tb"
  "tb_sacrificeHead (remove tb tr) = tb_sacrificeHead tb"
  "tb_anyQ (remove tb tr) = tb_anyQ tb"
  "tb_anyHead (remove tb tr) = tb_anyHead tb"
  "tb_refused (remove tb tr) = tb_refused tb"
  "tb_evictedSacrif (remove tb tr) = tb_evictedSacrif tb"
  "tb_evictedKept (remove tb tr) = tb_evictedKept tb"
  "tb_refusedTotal (remove tb tr) = tb_refusedTotal tb"
  "tb_evictedSTotal (remove tb tr) = tb_evictedSTotal tb"
  "tb_evictedKTotal (remove tb tr) = tb_evictedKTotal tb"
  "tb_undeliverTotal (remove tb tr) = tb_undeliverTotal tb"
  "tb_rescuedAtCap (remove tb tr) = tb_rescuedAtCap tb"
  "tb_evictedRescue (remove tb tr) = tb_evictedRescue tb"
  "tb_evictedRTotal (remove tb tr) = tb_evictedRTotal tb"
  "tb_rootGrace (remove tb tr) = tb_rootGrace tb"
  "tb_decided (remove tb tr) = tb_decided tb"
  "tb_ledger (remove tb tr) = tb_ledger tb"
  "tb_closed (remove tb tr) = tb_closed tb"
  by (simp_all add: remove_def Let_def)

lemma drop_evicted_simps [simp]:
  "tb_traces (drop_evicted now tb tr col) = tb_traces tb"
  "tb_seq (drop_evicted now tb tr col) = tb_seq tb"
  "tb_ttl (drop_evicted now tb tr col) = tb_ttl tb"
  "tb_maxSpans (drop_evicted now tb tr col) = tb_maxSpans tb"
  "tb_pressure (drop_evicted now tb tr col) = tb_pressure tb"
  "tb_spanCount (drop_evicted now tb tr col) = tb_spanCount tb"
  "tb_rescue (drop_evicted now tb tr col) = tb_rescue tb"
  "tb_floor (drop_evicted now tb tr col) = tb_floor tb"
  "tb_sacrificeQ (drop_evicted now tb tr col) = tb_sacrificeQ tb"
  "tb_sacrificeHead (drop_evicted now tb tr col) = tb_sacrificeHead tb"
  "tb_anyQ (drop_evicted now tb tr col) = tb_anyQ tb"
  "tb_anyHead (drop_evicted now tb tr col) = tb_anyHead tb"
  "tb_refused (drop_evicted now tb tr col) = tb_refused tb"
  "tb_evictedSacrif (drop_evicted now tb tr col) = tb_evictedSacrif tb"
  "tb_evictedKept (drop_evicted now tb tr col) = tb_evictedKept tb"
  "tb_refusedTotal (drop_evicted now tb tr col) = tb_refusedTotal tb"
  "tb_evictedSTotal (drop_evicted now tb tr col) = tb_evictedSTotal tb"
  "tb_evictedKTotal (drop_evicted now tb tr col) = tb_evictedKTotal tb"
  "tb_undeliverTotal (drop_evicted now tb tr col) = tb_undeliverTotal tb"
  "tb_rescuedAtCap (drop_evicted now tb tr col) = tb_rescuedAtCap tb"
  "tb_evictedRescue (drop_evicted now tb tr col) = tb_evictedRescue tb"
  "tb_evictedRTotal (drop_evicted now tb tr col) = tb_evictedRTotal tb"
  "tb_rootGrace (drop_evicted now tb tr col) = tb_rootGrace tb"
  "tb_closed (drop_evicted now tb tr col) = tb_closed tb"
  by (simp_all add: drop_evicted_def ledgerDropped_def)

lemma rescueAtCap_simps [simp]:
  "tb_traces (snd (rescueAtCap lk now tb tr)) = tb_traces tb"
  "tb_seq (snd (rescueAtCap lk now tb tr)) = tb_seq tb"
  "tb_ttl (snd (rescueAtCap lk now tb tr)) = tb_ttl tb"
  "tb_maxSpans (snd (rescueAtCap lk now tb tr)) = tb_maxSpans tb"
  "tb_pressure (snd (rescueAtCap lk now tb tr)) = tb_pressure tb"
  "tb_spanCount (snd (rescueAtCap lk now tb tr)) = tb_spanCount tb"
  "tb_rescue (snd (rescueAtCap lk now tb tr)) = tb_rescue tb"
  "tb_sacrificeQ (snd (rescueAtCap lk now tb tr)) = tb_sacrificeQ tb"
  "tb_sacrificeHead (snd (rescueAtCap lk now tb tr)) = tb_sacrificeHead tb"
  "tb_anyQ (snd (rescueAtCap lk now tb tr)) = tb_anyQ tb"
  "tb_anyHead (snd (rescueAtCap lk now tb tr)) = tb_anyHead tb"
  "tb_refused (snd (rescueAtCap lk now tb tr)) = tb_refused tb"
  "tb_evictedSacrif (snd (rescueAtCap lk now tb tr)) = tb_evictedSacrif tb"
  "tb_evictedKept (snd (rescueAtCap lk now tb tr)) = tb_evictedKept tb"
  "tb_refusedTotal (snd (rescueAtCap lk now tb tr)) = tb_refusedTotal tb"
  "tb_evictedSTotal (snd (rescueAtCap lk now tb tr)) = tb_evictedSTotal tb"
  "tb_evictedKTotal (snd (rescueAtCap lk now tb tr)) = tb_evictedKTotal tb"
  "tb_undeliverTotal (snd (rescueAtCap lk now tb tr)) = tb_undeliverTotal tb"
  "tb_rootGrace (snd (rescueAtCap lk now tb tr)) = tb_rootGrace tb"
  "tb_ledger (snd (rescueAtCap lk now tb tr)) = tb_ledger tb"
  "tb_closed (snd (rescueAtCap lk now tb tr)) = tb_closed tb"
  by (simp_all add: rescueAtCap_def Let_def case_prod_beta)

lemma evict_sacrificial_simps [simp]:
  "tb_seq (evict_sacrificial lk now tb tr) = tb_seq tb"
  "tb_ttl (evict_sacrificial lk now tb tr) = tb_ttl tb"
  "tb_maxSpans (evict_sacrificial lk now tb tr) = tb_maxSpans tb"
  "tb_pressure (evict_sacrificial lk now tb tr) = tb_pressure tb"
  "tb_rescue (evict_sacrificial lk now tb tr) = tb_rescue tb"
  "tb_sacrificeQ (evict_sacrificial lk now tb tr) = tb_sacrificeQ tb"
  "tb_sacrificeHead (evict_sacrificial lk now tb tr) = tb_sacrificeHead tb"
  "tb_anyQ (evict_sacrificial lk now tb tr) = tb_anyQ tb"
  "tb_anyHead (evict_sacrificial lk now tb tr) = tb_anyHead tb"
  "tb_refused (evict_sacrificial lk now tb tr) = tb_refused tb"
  "tb_refusedTotal (evict_sacrificial lk now tb tr) = tb_refusedTotal tb"
  "tb_undeliverTotal (evict_sacrificial lk now tb tr) = tb_undeliverTotal tb"
  "tb_rootGrace (evict_sacrificial lk now tb tr) = tb_rootGrace tb"
  "tb_closed (evict_sacrificial lk now tb tr) = tb_closed tb"
  by (simp_all add: evict_sacrificial_def Let_def case_prod_beta)

lemma evict_any_simps [simp]:
  "tb_seq (evict_any now tb tr) = tb_seq tb"
  "tb_ttl (evict_any now tb tr) = tb_ttl tb"
  "tb_maxSpans (evict_any now tb tr) = tb_maxSpans tb"
  "tb_pressure (evict_any now tb tr) = tb_pressure tb"
  "tb_rescue (evict_any now tb tr) = tb_rescue tb"
  "tb_sacrificeQ (evict_any now tb tr) = tb_sacrificeQ tb"
  "tb_sacrificeHead (evict_any now tb tr) = tb_sacrificeHead tb"
  "tb_anyQ (evict_any now tb tr) = tb_anyQ tb"
  "tb_anyHead (evict_any now tb tr) = tb_anyHead tb"
  "tb_refused (evict_any now tb tr) = tb_refused tb"
  "tb_refusedTotal (evict_any now tb tr) = tb_refusedTotal tb"
  "tb_undeliverTotal (evict_any now tb tr) = tb_undeliverTotal tb"
  "tb_rootGrace (evict_any now tb tr) = tb_rootGrace tb"
  "tb_closed (evict_any now tb tr) = tb_closed tb"
  by (simp_all add: evict_any_def)

text \<open>The queue entries not yet consumed; every eviction consumes one.\<close>

definition waiting :: "TraceBuffer \<Rightarrow> nat" where
  "waiting tb = (length (tb_sacrificeQ tb) - tb_sacrificeHead tb) + (length (tb_anyQ tb) - tb_anyHead tb)"

lemma compact_drop: "compact q h = (q', h') \<Longrightarrow> drop h' q' = drop h q"
  by (auto simp: compact_def split: if_splits)

lemma compact_length: "compact q h = (q', h') \<Longrightarrow> length q' - h' = length q - h"
  by (metis compact_drop length_drop)

lemma scan_victim_head:
  "scan_victim traces q head so keep = (r, h) \<Longrightarrow>
     length q - h \<le> length q - head \<and> (r \<noteq> None \<longrightarrow> length q - h < length q - head)"
proof (induction traces q head so keep rule: scan_victim.induct)
  case (1 traces q head so keep)
  have "length q - Suc head < length q - head" if "head < length q" using that by simp
  with 1(4) show ?case
    by (subst (asm) scan_victim.simps)
      (use 1(1-3) in \<open>auto split: if_splits option.splits dest: le_less_trans less_trans\<close>)
qed

lemma nextVictim_waiting:
  assumes "nextVictim tb q head so keep = (r, q', h')"
  shows "length q' - h' \<le> length q - head" and "r \<noteq> None \<Longrightarrow> length q' - h' < length q - head"
proof -
  obtain h where s: "scan_victim (tb_traces tb) q head so keep = (r, h)" and c: "compact q h = (q', h')"
    using assms by (auto simp: nextVictim_def Let_def split: prod.splits)
  show "length q' - h' \<le> length q - head" "r \<noteq> None \<Longrightarrow> length q' - h' < length q - head"
    using scan_victim_head [OF s] compact_length [OF c] by auto
qed

lemma evictOne_waiting:
  assumes "evictOne lk now keep tb = (True, tb')"
  shows "waiting tb' < waiting tb"
proof -
  obtain r q h where n1: "nextVictim tb (tb_sacrificeQ tb) (tb_sacrificeHead tb) True keep = (r, q, h)"
    by (metis prod_cases3)
  let ?tb = "tb\<lparr>tb_sacrificeQ := q, tb_sacrificeHead := h\<rparr>"
  obtain r2 q2 h2 where n2: "nextVictim ?tb (tb_anyQ tb) (tb_anyHead tb) False keep = (r2, q2, h2)"
    by (metis prod_cases3)
  note w1 = nextVictim_waiting [OF n1] and w2 = nextVictim_waiting [OF n2]
  show ?thesis
  proof (cases r)
    case (Some tr)
    then show ?thesis using assms w1 n1 by (auto simp: evictOne_def Let_def waiting_def)
  next
    case None
    then show ?thesis
      using assms w1(1) w2 n1 n2 by (auto simp: evictOne_def Let_def waiting_def split: option.splits)
  qed
qed

function ensureRoom :: "lookup \<Rightarrow> gotime \<Rightarrow> string option \<Rightarrow> TraceBuffer \<Rightarrow> bool \<times> TraceBuffer" where
  "ensureRoom lk now keep tb =
     (if tb_maxSpans tb > 0 \<and> tb_spanCount tb \<ge> tb_maxSpans tb then
        case evictOne lk now keep tb of
          (False, tb') \<Rightarrow> (False, tb')
        | (True, tb') \<Rightarrow> ensureRoom lk now keep tb'
      else (True, tb))"
  by pat_completeness auto
termination
  by (relation "measure (\<lambda>(_, _, _, tb). waiting tb)") (auto intro: evictOne_waiting dest: sym)

declare ensureRoom.simps [simp del]

section \<open>Adding a span\<close>

definition newTrace :: "lookup \<Rightarrow> gotime \<Rightarrow> TraceBuffer \<Rightarrow> SpanRecord \<Rightarrow> bufferedTrace \<times> TraceBuffer" where
  "newTrace lk now tb rec =
     (let opn = (if sr_ParentSpanID rec = [] then sr_Name rec else []);
          tr = \<lparr>bt_id = sr_TraceID rec, bt_spans = [], bt_hasError = False, bt_rootOp = opn,
                bt_projectID = sr_ProjectID rec, bt_firstSeen = now, bt_rootSeen = zero_time,
                bt_sacrificial = \<not> sampledIn lk (sr_ProjectID rec) opn (sr_TraceID rec),
                bt_seq = tb_seq tb + 1, bt_droppedAs = Accepted\<rparr>;
          tb = tb\<lparr>tb_seq := tb_seq tb + 1, tb_traces := AList.update (sr_TraceID rec) tr (tb_traces tb),
                  tb_anyQ := tb_anyQ tb @ [sr_TraceID rec]\<rparr>
      in (tr, if bt_sacrificial tr then tb\<lparr>tb_sacrificeQ := tb_sacrificeQ tb @ [sr_TraceID rec]\<rparr> else tb))"

definition relabel :: "lookup \<Rightarrow> TraceBuffer \<Rightarrow> bufferedTrace \<Rightarrow> bufferedTrace \<times> TraceBuffer" where
  "relabel lk tb tr =
     (let was = bt_sacrificial tr;
          tr = tr\<lparr>bt_sacrificial := \<not> sampledIn lk (bt_projectID tr) (bt_rootOp tr) (bt_id tr)\<rparr>
      in (tr, if bt_sacrificial tr \<and> \<not> was then tb\<lparr>tb_sacrificeQ := tb_sacrificeQ tb @ [bt_id tr]\<rparr> else tb))"

text \<open>
  The rest of \<^verbatim>\<open>Add\<close> once the trace \<open>tr\<close> is in the buffer: latch the error status, append the
  span, latch the root. The trace is written back under its ID at the end.
\<close>

definition append_span :: "lookup \<Rightarrow> gotime \<Rightarrow> TraceBuffer \<Rightarrow> bufferedTrace \<Rightarrow> SpanRecord \<Rightarrow> TraceBuffer" where
  "append_span lk now tb tr rec =
     (let tr = (if isErrorStatus (sr_Status rec) then tr\<lparr>bt_hasError := True\<rparr> else tr);
          tr = tr\<lparr>bt_spans := bt_spans tr @ [rec]\<rparr>;
          tb = tb\<lparr>tb_spanCount := tb_spanCount tb + 1\<rparr>;
          (tr, tb) =
            (if sr_ParentSpanID rec = [] \<and> \<not> hasRoot tr then
               let tr = tr\<lparr>bt_rootSeen := now\<rparr> in
               if bt_rootOp tr = [] then relabel lk tb (tr\<lparr>bt_rootOp := sr_Name rec\<rparr>) else (tr, tb)
             else (tr, tb))
      in tb\<lparr>tb_traces := AList.update (sr_TraceID rec) tr (tb_traces tb)\<rparr>)"

definition refuse_span :: "TraceBuffer \<Rightarrow> SpanRecord \<Rightarrow> TraceBuffer" where
  "refuse_span tb rec =
     tb\<lparr>tb_refused := tb_refused tb + 1, tb_refusedTotal := tb_refusedTotal tb + 1,
        tb_ledger := tally_Add (tb_ledger tb) LostInBuffer (sr_ProjectID rec) (sr_StartTimeUs rec) 1\<rparr>"

definition Add :: "lookup \<Rightarrow> gotime \<Rightarrow> SpanRecord \<Rightarrow> TraceBuffer \<Rightarrow> TraceBuffer" where
  "Add lk now rec tb =
     (let tb = tb\<lparr>tb_ledger := tally_Add (tb_ledger tb) Accepted (sr_ProjectID rec) (sr_StartTimeUs rec) 1\<rparr>;
          isErr = isErrorStatus (sr_Status rec);
          tr = map_of (tb_traces tb) (sr_TraceID rec);
          (followed, d, t) = (if tr = None then decided_follow (tb_decided tb) (tb_ledger tb) rec
                              else (False, tb_decided tb, tb_ledger tb));
          tb = tb\<lparr>tb_decided := d, tb_ledger := t\<rparr>
      in if followed then tb
         else
           let protected = (isErr \<or> (case tr of None \<Rightarrow> False | Some tr \<Rightarrow> bt_hasError tr));
               (room, tb) = ensureRoom lk now (map_option bt_id tr) tb
           in if \<not> room \<and> \<not> protected then refuse_span tb rec
              else case tr of
                  None \<Rightarrow> (case newTrace lk now tb rec of (tr, tb) \<Rightarrow> append_span lk now tb tr rec)
                | Some tr \<Rightarrow> append_span lk now tb tr rec)"

section \<open>Deciding the traces that came due\<close>

record lossWindow =
  lw_refused :: int
  lw_evictedSacrif :: int
  lw_evictedKept :: int
  lw_rescued :: int
  lw_maxSpans :: int
  lw_buffered :: int
  lw_traces :: int
  lw_atCapFor :: duration

definition capPressureWarnAfter :: duration where
  "capPressureWarnAfter = 10 * minute"

definition capPressureRepeat :: duration where
  "capPressureRepeat = hour"

definition capPressureFillPct :: int where
  "capPressureFillPct = 90"

definition atCap :: "lossWindow \<Rightarrow> bool" where
  "atCap w =
     (if lw_evictedSacrif w > 0 \<or> lw_rescued w > 0 \<or> lw_evictedKept w > 0 \<or> lw_refused w > 0 then True
      else lw_maxSpans w > 0 \<and> lw_buffered w * 100 \<ge> lw_maxSpans w * capPressureFillPct)"

definition observe :: "capPressure \<Rightarrow> lossWindow \<Rightarrow> gotime \<Rightarrow> duration \<times> capPressure" where
  "observe p w now =
     (if \<not> atCap w then (0, p\<lparr>cp_since := zero_time\<rparr>)
      else let p = (if IsZero (cp_since p) then p\<lparr>cp_since := now\<rparr> else p);
               held = time_sub now (cp_since p)
        in if held < capPressureWarnAfter \<or>
              (\<not> IsZero (cp_warned p) \<and> time_sub now (cp_warned p) < capPressureRepeat)
           then (0, p)
           else (held, p\<lparr>cp_warned := now\<rparr>))"

definition takeLossWindow :: "TraceBuffer \<Rightarrow> lossWindow \<times> TraceBuffer" where
  "takeLossWindow tb =
     (\<lparr>lw_refused = tb_refused tb, lw_evictedSacrif = tb_evictedSacrif tb,
       lw_evictedKept = tb_evictedKept tb, lw_rescued = tb_evictedRescue tb,
       lw_maxSpans = tb_maxSpans tb, lw_buffered = 0, lw_traces = 0, lw_atCapFor = 0\<rparr>,
      tb\<lparr>tb_refused := 0, tb_evictedSacrif := 0, tb_evictedKept := 0, tb_evictedRescue := 0\<rparr>)"

text \<open>The lines \<^verbatim>\<open>reportLoss\<close> logs, in order; a sustained stretch is reported in minutes.\<close>

datatype buffer_log = WarnSustained int | InfoShed | WarnLost

definition reportSustainedCap :: "lossWindow \<Rightarrow> buffer_log list" where
  "reportSustainedCap w = (if lw_atCapFor w \<le> 0 then [] else [WarnSustained (go_div (lw_atCapFor w) minute)])"

definition reportLoss :: "lossWindow \<Rightarrow> buffer_log list" where
  "reportLoss w = reportSustainedCap w @
     (if (lw_evictedSacrif w > 0 \<or> lw_rescued w > 0) \<and> lw_evictedKept w = 0 \<and> lw_refused w = 0 then [InfoShed]
      else if lw_evictedKept w = 0 \<and> lw_refused w = 0 then []
      else [WarnLost])"

definition pruneQueue :: "TraceBuffer \<Rightarrow> string list \<Rightarrow> nat \<Rightarrow> string list" where
  "pruneQueue tb q head = filter (\<lambda>tid. map_of (tb_traces tb) tid \<noteq> None) (drop head q)"

definition pruneEvictionQueues :: "TraceBuffer \<Rightarrow> TraceBuffer" where
  "pruneEvictionQueues tb =
     tb\<lparr>tb_sacrificeQ := pruneQueue tb (tb_sacrificeQ tb) (tb_sacrificeHead tb), tb_sacrificeHead := 0,
        tb_anyQ := pruneQueue tb (tb_anyQ tb) (tb_anyHead tb), tb_anyHead := 0\<rparr>"

definition due :: "TraceBuffer \<Rightarrow> bufferedTrace \<Rightarrow> gotime \<Rightarrow> bool" where
  "due tb tr now =
     (if tb_rootGrace tb > 0 \<and> hasRoot tr \<and> time_sub now (bt_rootSeen tr) \<ge> tb_rootGrace tb then True
      else time_sub now (bt_firstSeen tr) \<ge> tb_ttl tb)"

definition sortByArrival :: "bufferedTrace list \<Rightarrow> bufferedTrace list" where
  "sortByArrival trs = sort_key bt_seq trs"

type_synonym trace_order = "(string \<times> bufferedTrace) list \<Rightarrow> (string \<times> bufferedTrace) list"

text \<open>
  A flush between its two critical sections: the traces still to decide, the decisions made,
  the traces kept for delivery and the log lines written.
\<close>

record flight =
  fl_todo :: "bufferedTrace list"
  fl_decided :: "(string \<times> int) list"
  fl_kept :: "bufferedTrace list"
  fl_log :: "buffer_log list"

definition begin_trace :: "gotime \<Rightarrow> bufferedTrace \<Rightarrow> TraceBuffer \<Rightarrow> TraceBuffer" where
  "begin_trace now tr tb =
     (let tb = remove tb tr
      in tb\<lparr>tb_decided := snd (decided_put (tb_decided tb) (bt_id tr) 0 True now)\<rparr>)"

definition flush_begin :: "trace_order \<Rightarrow> gotime \<Rightarrow> bool \<Rightarrow> TraceBuffer \<Rightarrow> flight \<times> TraceBuffer" where
  "flush_begin ord now all tb =
     (let toDecide = sortByArrival (filter (\<lambda>tr. all \<or> due tb tr now) (map snd (ord (tb_traces tb))));
          tb = fold (begin_trace now) toDecide tb;
          tb = pruneEvictionQueues tb;
          tb = tb\<lparr>tb_decided := decided_expire (tb_decided tb) now\<rparr>;
          kept = tb_rescuedAtCap tb;
          tb = tb\<lparr>tb_rescuedAtCap := []\<rparr>;
          (loss, tb) = takeLossWindow tb;
          loss = loss\<lparr>lw_buffered := tb_spanCount tb, lw_traces := int (length (tb_traces tb))\<rparr>;
          (atCapFor, p) = observe (tb_pressure tb) loss now
      in (\<lparr>fl_todo = toDecide, fl_decided = [], fl_kept = kept,
           fl_log = reportLoss (loss\<lparr>lw_atCapFor := atCapFor\<rparr>)\<rparr>,
          tb\<lparr>tb_pressure := p\<rparr>))"

text \<open>One iteration of the decision loop.\<close>

definition decide_one :: "lookup \<Rightarrow> gotime \<Rightarrow> flight \<times> TraceBuffer \<Rightarrow> flight \<times> TraceBuffer" where
  "decide_one lk now st =
     (case st of (fl, tb) \<Rightarrow> case fl_todo fl of
        [] \<Rightarrow> (fl, tb)
      | tr # rest \<Rightarrow>
          let (w, tb) = keepWeight lk tb tr now;
              fl = fl\<lparr>fl_todo := rest, fl_decided := fl_decided fl @ [(bt_id tr, w)]\<rparr>
          in if w > 0 then (fl\<lparr>fl_kept := fl_kept fl @ [stampWeight tr w]\<rparr>, tb)
             else let (tr, tb) = ledgerDropped tb tr SampledOut
                  in (fl, tb\<lparr>tb_carry := carry_drop (tb_carry tb) tr now\<rparr>))"

definition flush_carriers :: "carry_order \<Rightarrow> gotime \<Rightarrow> bool \<Rightarrow> flight \<times> TraceBuffer \<Rightarrow> flight \<times> TraceBuffer" where
  "flush_carriers ord now all st =
     (case st of (fl, tb) \<Rightarrow>
        let (carriers, c) = carry_expired ord (tb_carry tb) now all
        in (fl\<lparr>fl_kept := fl_kept fl @ carriers\<rparr>, ledgerCarriers (tb\<lparr>tb_carry := c\<rparr>) carriers))"

definition settle_held :: "SpanRecord \<Rightarrow> TraceBuffer \<Rightarrow> TraceBuffer" where
  "settle_held rec tb =
     (case decided_follow (tb_decided tb) (tb_ledger tb) rec of
        (_, d, t) \<Rightarrow> tb\<lparr>tb_decided := d, tb_ledger := t\<rparr>)"

definition settle_one :: "gotime \<Rightarrow> string \<times> int \<Rightarrow> TraceBuffer \<Rightarrow> TraceBuffer" where
  "settle_one now iw tb =
     (case decided_put (tb_decided tb) (fst iw) (snd iw) False now of
        (held, d) \<Rightarrow> fold settle_held held (tb\<lparr>tb_decided := d\<rparr>))"

definition settle :: "gotime \<Rightarrow> (string \<times> int) list \<Rightarrow> TraceBuffer \<Rightarrow> SpanRecord list \<times> TraceBuffer" where
  "settle now ws tb =
     (let tb = fold (settle_one now) ws tb;
          (late, d) = decided_takeLate (tb_decided tb)
      in (late, tb\<lparr>tb_decided := d\<rparr>))"

text \<open>
  Delivery: whether the drain goroutine takes a batch in time is decided outside. The result
  counts the spans sent and the spans lost.
\<close>

definition deliver_one :: "bool \<Rightarrow> SpanRecord list \<Rightarrow> int \<times> int \<times> TraceBuffer \<Rightarrow> int \<times> int \<times> TraceBuffer" where
  "deliver_one ok spans st =
     (case st of (sent, undelivered, tb) \<Rightarrow>
        if ok then (sent + int (length spans), undelivered,
                    tb\<lparr>tb_ledger := tally_AddSpans (tb_ledger tb) Forwarded spans 1\<rparr>)
        else (sent, undelivered + int (length spans),
              tb\<lparr>tb_ledger := tally_AddSpans (tb_ledger tb) LostInBuffer spans 1\<rparr>))"

definition flush_batches :: "bufferedTrace list \<Rightarrow> SpanRecord list \<Rightarrow> SpanRecord list list" where
  "flush_batches kept late = map bt_spans kept @ (if late \<noteq> [] then [late] else [])"

definition deliverAll :: "(nat \<Rightarrow> bool) \<Rightarrow> bufferedTrace list \<Rightarrow> SpanRecord list \<Rightarrow> TraceBuffer
    \<Rightarrow> int \<times> TraceBuffer" where
  "deliverAll ok kept late tb =
     (let batches = flush_batches kept late;
          (sent, undelivered, tb) = fold (\<lambda>(i, spans). deliver_one (ok i) spans) (enumerate 0 batches) (0, 0, tb)
      in (sent, if undelivered > 0 then tb\<lparr>tb_undeliverTotal := tb_undeliverTotal tb + undelivered\<rparr> else tb))"

text \<open>
  The whole flush, without other operations in between. \<open>lks\<close> gives the ratio lookup of each
  decision: the lookup caches settings and may change between two of them.
\<close>

record flush_env =
  fe_traceOrd :: trace_order
  fe_carryOrd :: carry_order
  fe_lookup :: "nat \<Rightarrow> lookup"
  fe_ok :: "nat \<Rightarrow> bool"

definition flush :: "flush_env \<Rightarrow> gotime \<Rightarrow> bool \<Rightarrow> TraceBuffer \<Rightarrow> int \<times> TraceBuffer" where
  "flush env now all tb =
     (let st = flush_begin (fe_traceOrd env) now all tb;
          st = fold (\<lambda>i. decide_one (fe_lookup env i) now) [0..<length (fl_todo (fst st))] st;
          (fl, tb) = flush_carriers (fe_carryOrd env) now all st;
          (late, tb) = settle now (fl_decided fl) tb
      in deliverAll (fe_ok env) (fl_kept fl) late tb)"

definition Flush :: "flush_env \<Rightarrow> gotime \<Rightarrow> TraceBuffer \<Rightarrow> TraceBuffer" where
  "Flush env now tb = snd (flush env now False tb)"

section \<open>Shutdown and statistics\<close>

record CloseResult =
  cr_Traces :: int
  cr_Spans :: int
  cr_Kept :: int

definition stopGC :: "TraceBuffer \<Rightarrow> CloseResult" where
  "stopGC tb = \<lparr>cr_Traces = int (length (tb_traces tb)), cr_Spans = tb_spanCount tb, cr_Kept = 0\<rparr>"

definition finish :: "flush_env \<Rightarrow> gotime \<Rightarrow> TraceBuffer \<Rightarrow> int \<times> TraceBuffer" where
  "finish env now tb = flush env now True tb"

definition Close :: "flush_env \<Rightarrow> gotime \<Rightarrow> TraceBuffer \<Rightarrow> CloseResult \<times> TraceBuffer" where
  "Close env now tb =
     (if tb_closed tb then (\<lparr>cr_Traces = 0, cr_Spans = 0, cr_Kept = 0\<rparr>, tb)
      else let res = stopGC tb;
               (kept, tb) = finish env now (tb\<lparr>tb_closed := True\<rparr>)
           in (res\<lparr>cr_Kept := kept\<rparr>, tb))"

definition drainStep :: "flush_env \<Rightarrow> gotime \<Rightarrow> TraceBuffer \<Rightarrow> int \<times> int \<times> TraceBuffer" where
  "drainStep env now tb =
     (let (sent, tb) = flush env now False tb
      in (sent, int (length (filter (\<lambda>(_, tr). hasRoot tr) (tb_traces tb))), tb))"

text \<open>
  The loop of \<^verbatim>\<open>Drain\<close> over the clock readings of its ticks. \<open>None\<close> when the readings run out
  before the loop ends.
\<close>

fun drain_loop :: "gotime \<Rightarrow> (flush_env \<times> gotime) list \<Rightarrow> int \<Rightarrow> TraceBuffer \<Rightarrow> (int \<times> TraceBuffer) option" where
  "drain_loop deadline [] kept tb = None"
| "drain_loop deadline ((env, now) # ticks) kept tb =
     (let (sent, rooted, tb) = drainStep env now tb in
      if rooted = 0 \<or> \<not> now < deadline then Some (kept + sent, tb)
      else drain_loop deadline ticks (kept + sent) tb)"

definition Drain :: "gotime \<Rightarrow> (flush_env \<times> gotime) list \<Rightarrow> flush_env \<Rightarrow> gotime \<Rightarrow> TraceBuffer
    \<Rightarrow> (CloseResult \<times> TraceBuffer) option" where
  "Drain deadline ticks env now tb =
     (if tb_closed tb then Some (\<lparr>cr_Traces = 0, cr_Spans = 0, cr_Kept = 0\<rparr>, tb)
      else let res = stopGC tb in
        case drain_loop deadline ticks 0 (tb\<lparr>tb_closed := True\<rparr>) of
          None \<Rightarrow> None
        | Some (kept, tb) \<Rightarrow>
            let (rest, tb) = finish env now tb in Some (res\<lparr>cr_Kept := kept + rest\<rparr>, tb))"

record BufferStats =
  bs_BufferedSpans :: int
  bs_BufferedTraces :: int
  bs_MaxSpans :: int
  bs_RefusedSpans :: int
  bs_EvictedSacrificialSpans :: int
  bs_EvictedKeptSpans :: int
  bs_RescuedAtCapSpans :: int
  bs_UndeliveredSpans :: int
  bs_CarrierSpans :: int
  bs_CarriedDrops :: int
  bs_UncarriedDrops :: int
  bs_DecidedTraces :: int
  bs_DecidedEvicted :: int
  bs_LateSpansKept :: int
  bs_LateSpansDropped :: int

definition Stats :: "TraceBuffer \<Rightarrow> BufferStats" where
  "Stats tb =
     (let (held, carried, uncarried) = carry_stats (tb_carry tb)
      in \<lparr>bs_BufferedSpans = tb_spanCount tb, bs_BufferedTraces = int (length (tb_traces tb)),
          bs_MaxSpans = tb_maxSpans tb, bs_RefusedSpans = tb_refusedTotal tb,
          bs_EvictedSacrificialSpans = tb_evictedSTotal tb, bs_EvictedKeptSpans = tb_evictedKTotal tb,
          bs_RescuedAtCapSpans = tb_evictedRTotal tb, bs_UndeliveredSpans = tb_undeliverTotal tb,
          bs_CarrierSpans = held, bs_CarriedDrops = carried, bs_UncarriedDrops = uncarried,
          bs_DecidedTraces = int (length (dt_m (tb_decided tb))),
          bs_DecidedEvicted = dt_evicted (tb_decided tb),
          bs_LateSpansKept = dt_lateKept (tb_decided tb),
          bs_LateSpansDropped = dt_lateDropped (tb_decided tb)\<rparr>)"

end
