(* ===== verification/TraceBufferInv.thy ===== *)
theory TraceBufferInv
  imports TraceBuffer
begin

text \<open>
  The invariants of the trace buffer and what each operation does to them: the structure of
  the buffered traces and the exact span count, the traces held as carriers, the separation of
  buffered and decided traces, and the conservation of spans under any account of the spans
  that leave (locale \<open>exit_account\<close>).
\<close>

declare map_of_eq_Some_iff [simp del] not_None_eq [iff del]

section \<open>Invariants\<close>

definition is_error :: "SpanRecord \<Rightarrow> bool" where
  "is_error s \<longleftrightarrow> isErrorStatus (sr_Status s)"

definition trace_ok :: "bufferedTrace \<Rightarrow> bool" where
  "trace_ok tr \<longleftrightarrow> bt_spans tr \<noteq> [] \<and> (bt_hasError tr \<longleftrightarrow> (\<exists>s \<in> set (bt_spans tr). is_error s))
     \<and> (\<forall>s \<in> set (bt_spans tr). sr_TraceID s = bt_id tr)"

definition exit_columns :: "Column set" where
  "exit_columns = {SampledOut, ShedUnsampled, LostInBuffer}"

definition carrier_ok :: "bufferedTrace \<Rightarrow> bool" where
  "carrier_ok tr \<longleftrightarrow> bt_droppedAs tr \<in> exit_columns \<and> (\<forall>s \<in> set (bt_spans tr). \<not> is_error s)"

definition carriers_ok :: "carryTally \<Rightarrow> bool" where
  "carriers_ok c \<longleftrightarrow> (\<forall>k e tr. (k, e) \<in> set (ct_m c) \<longrightarrow> ce_held e = Some tr \<longrightarrow> carrier_ok tr)"

definition span_len :: "bufferedTrace \<Rightarrow> int" where
  "span_len tr = int (length (bt_spans tr))"

definition clean_len :: "bufferedTrace \<Rightarrow> int" where
  "clean_len tr = (if bt_hasError tr then 0 else span_len tr)"

definition tb_inv :: "TraceBuffer \<Rightarrow> bool" where
  "tb_inv tb \<longleftrightarrow> gomap_wf (tb_traces tb)
     \<and> (\<forall>i tr. map_of (tb_traces tb) i = Some tr \<longrightarrow> bt_id tr = i \<and> trace_ok tr \<and> bt_seq tr \<le> tb_seq tb)
     \<and> distinct (map (bt_seq \<circ> snd) (tb_traces tb))
     \<and> tb_spanCount tb = asum span_len (tb_traces tb)
     \<and> (0 < tb_maxSpans tb \<longrightarrow> asum clean_len (tb_traces tb) \<le> tb_maxSpans tb)
     \<and> carry_wf (tb_carry tb) \<and> carriers_ok (tb_carry tb) \<and> decided_wf (tb_decided tb)"

text \<open>
  Buffered and decided traces are apart, and spans are held only for pending decisions of a
  trace that the flush in progress, whose traces are \<open>ids\<close>, is deciding.
\<close>

definition apart :: "string set \<Rightarrow> TraceBuffer \<Rightarrow> bool" where
  "apart ids tb \<longleftrightarrow>
     (\<forall>i tr. map_of (tb_traces tb) i = Some tr \<longrightarrow> map_of (dt_m (tb_decided tb)) i = None)
     \<and> (\<forall>i xs. (i, xs) \<in> set (dt_held (tb_decided tb)) \<longrightarrow> i \<in> ids
          \<and> (\<exists>e. map_of (dt_m (tb_decided tb)) i = Some e \<and> dc_pending e)
          \<and> (\<forall>rec \<in> set xs. sr_TraceID rec = i))"

abbreviation evictions :: "TraceBuffer \<Rightarrow> int" where
  "evictions tb \<equiv> dt_evicted (tb_decided tb)"

lemma tb_invD:
  assumes "tb_inv tb"
  shows "gomap_wf (tb_traces tb)"
    and "\<And>i tr. map_of (tb_traces tb) i = Some tr \<Longrightarrow> bt_id tr = i"
    and "\<And>i tr. map_of (tb_traces tb) i = Some tr \<Longrightarrow> trace_ok tr"
    and "\<And>i tr. map_of (tb_traces tb) i = Some tr \<Longrightarrow> bt_seq tr \<le> tb_seq tb"
    and "distinct (map (bt_seq \<circ> snd) (tb_traces tb))"
    and "tb_spanCount tb = asum span_len (tb_traces tb)"
    and "0 < tb_maxSpans tb \<Longrightarrow> asum clean_len (tb_traces tb) \<le> tb_maxSpans tb"
    and "carry_wf (tb_carry tb)" and "carriers_ok (tb_carry tb)" and "decided_wf (tb_decided tb)"
  using assms unfolding tb_inv_def by blast+

lemma tb_inv_cong:
  assumes "tb_inv tb" and "tb_traces tb' = tb_traces tb" and "tb_seq tb' = tb_seq tb"
    and "tb_spanCount tb' = tb_spanCount tb" and "tb_maxSpans tb' = tb_maxSpans tb"
    and "carry_wf (tb_carry tb')" and "carriers_ok (tb_carry tb')" and "decided_wf (tb_decided tb')"
  shows "tb_inv tb'"
  using assms unfolding tb_inv_def by simp

lemma asum_nonneg: "(\<And>v. 0 \<le> f v) \<Longrightarrow> 0 \<le> asum f m" for f :: "'v \<Rightarrow> int"
  by (induction m) (simp_all add: add_nonneg_nonneg)

lemma len_nonneg: "0 \<le> span_len tr" "0 \<le> clean_len tr"
  by (simp_all add: span_len_def clean_len_def)

lemma tb_inv_New: "tb_inv (NewTraceBufferWithRules ttl n rules)"
  by (simp add: tb_inv_def NewTraceBufferWithRules_def Let_def carry_wf_new decided_wf_new carriers_ok_def)
    (simp add: newCarryTally_def Let_def)

lemma apart_New: "apart {} (NewTraceBufferWithRules ttl n rules)"
  by (simp add: apart_def NewTraceBufferWithRules_def Let_def newDecidedTraces_def)

section \<open>Taking a trace out\<close>

lemma distinct_delete_snd: "distinct (map (g \<circ> snd) m) \<Longrightarrow> distinct (map (g \<circ> snd) (AList.delete i m))"
  by (simp add: AList.delete_eq distinct_map_filter)

lemma remove_inv:
  assumes inv: "tb_inv tb" and tr: "map_of (tb_traces tb) i = Some tr"
  shows "tb_inv (remove tb tr)" and "tb_traces (remove tb tr) = AList.delete i (tb_traces tb)"
    and "tb_spanCount (remove tb tr) = tb_spanCount tb - span_len tr"
proof -
  note D = tb_invD [OF inv]
  have i: "bt_id tr = i" by (rule D(2) [OF tr])
  show traces: "tb_traces (remove tb tr) = AList.delete i (tb_traces tb)"
    by (simp add: remove_def Let_def i)
  note sp = asum_split [OF D(1) tr]
  have "0 \<le> asum span_len (AList.delete i (tb_traces tb))" by (rule asum_nonneg) (rule len_nonneg)
  then show count: "tb_spanCount (remove tb tr) = tb_spanCount tb - span_len tr"
    using sp [of span_len] D(6) by (simp add: remove_def Let_def span_len_def)
  have "asum clean_len (AList.delete i (tb_traces tb)) \<le> asum clean_len (tb_traces tb)"
    using sp [of clean_len] len_nonneg(2) [of tr] by simp
  moreover have "bt_id t = j \<and> trace_ok t \<and> bt_seq t \<le> tb_seq tb"
    if "map_of (AList.delete i (tb_traces tb)) j = Some t" for j t
    using that D(2,3,4) by (auto simp: AList.delete_conv' split: if_splits)
  ultimately show "tb_inv (remove tb tr)"
    using D sp [of span_len] count
    by (auto simp: tb_inv_def traces AList.distinct_delete distinct_delete_snd simp del: map_of_eq_Some_iff)
qed

section \<open>The decision on one trace\<close>

lemma keepWeight_cases:
  assumes "keepWeight lk tb tr now = (w, tb')"
  obtains (drop) "w = 0" "\<not> bt_hasError tr" "tb_carry tb' = tb_carry tb"
  | (itself) "w = 1" "bt_hasError tr \<or> slowRoot tb tr" "tb_carry tb' = tb_carry tb"
  | (rootless) "1 \<le> w" "\<not> hasRoot tr" "\<not> bt_hasError tr" "bt_spans tr \<noteq> []" "tb_carry tb' = tb_carry tb"
  | (carrier) "w = 1 + fst (carry_take (tb_carry tb) (bt_projectID tr) (traceOp tr))" "hasRoot tr"
      "\<not> bt_hasError tr" "bt_spans tr \<noteq> []" "\<not> slowRoot tb tr"
      "tb_carry tb' = snd (carry_take (tb_carry tb) (bt_projectID tr) (traceOp tr))"
proof -
  let ?op = "traceOp tr" and ?r = "ratio lk (bt_projectID tr) (bt_rootOp tr)"
  obtain k tb1 where res: "rescued tb (bt_projectID tr) ?op now (ratioSampled (bt_id tr) ?r) = (k, tb1)"
    by fastforce
  have c1: "tb_carry tb1 = tb_carry tb"
    using rescued_frame [of tb "bt_projectID tr" ?op now "ratioSampled (bt_id tr) ?r"] res by auto
  obtain n c where take: "carry_take (tb_carry tb) (bt_projectID tr) ?op = (n, c)" by fastforce
  show ?thesis
    using assms that res c1 take
    by (auto simp: keepWeight_def Let_def rootlessWeight_def split: if_splits)
qed

lemma carriers_ok_take: "carriers_ok c \<Longrightarrow> carriers_ok (snd (carry_take c p opn))"
  by (auto simp: carriers_ok_def carry_take_def Let_def set_delete split: option.splits)

lemma keepWeight_inv:
  assumes "carry_wf (tb_carry tb)" and "carriers_ok (tb_carry tb)" and "keepWeight lk tb tr now = (w, tb')"
  shows "carry_wf (tb_carry tb')" and "carriers_ok (tb_carry tb')" and "0 \<le> w"
    and "bt_hasError tr \<Longrightarrow> w = 1"
    and "w = 0 \<Longrightarrow> tb_carry tb' = tb_carry tb"
  using carry_take_props [OF assms(1), of "bt_projectID tr" "traceOp tr"]
    carriers_ok_take [OF assms(2), of "bt_projectID tr" "traceOp tr"] assms(1,2)
  by (cases rule: keepWeight_cases [OF assms(3)]; simp)+

lemma carriers_ok_drop:
  assumes "carry_wf c" and "carriers_ok c" and "carrier_ok tr"
  shows "carriers_ok (carry_drop c tr now)"
proof (cases "bt_spans tr = [] \<or> \<not> hasRoot tr")
  case True
  then show ?thesis using assms(2) by (simp add: carry_drop_none)
next
  case False
  then obtain k e h where m: "ct_m (carry_drop c tr now) =
      AList.update k (e\<lparr>ce_dropped := ce_dropped e + 1, ce_held := h\<rparr>) (ct_m c)"
    and e: "e = (case map_of (ct_m c) k of None \<Rightarrow> \<lparr>ce_dropped = 0, ce_held = None, ce_since = now\<rparr> | Some e \<Rightarrow> e)"
    and h: "h = Some tr \<or> h = ce_held e"
    using carry_drop_entry [OF assms(1)] by metis
  have wf: "gomap_wf (ct_m c)" using assms(1) by (simp add: carry_wf_def)
  have "carrier_ok t" if "ce_held e = Some t" for t
    using assms(2) e that unfolding carriers_ok_def by (auto split: option.splits dest: map_of_SomeD)
  then have "carrier_ok t" if "h = Some t" for t
    using h assms(3) that by auto
  then show ?thesis
    using assms(2) wf by (auto simp: carriers_ok_def m set_update split: if_splits)
qed

section \<open>Evicting a trace\<close>

lemma scan_victim_Some:
  "scan_victim traces q head so keep = (Some tr, h) \<Longrightarrow>
     \<exists>i. map_of traces i = Some tr \<and> \<not> bt_hasError tr \<and> keep \<noteq> Some i"
proof (induction traces q head so keep rule: scan_victim.induct)
  case (1 traces q head so keep)
  from 1(4) show ?case
    by (subst (asm) scan_victim.simps) (use 1(1-3) in \<open>auto split: if_splits option.splits\<close>)
qed

lemma nextVictim_Some:
  "nextVictim tb q head so keep = (Some tr, q', h') \<Longrightarrow>
     \<exists>i. map_of (tb_traces tb) i = Some tr \<and> \<not> bt_hasError tr \<and> keep \<noteq> Some i"
  by (auto simp: nextVictim_def Let_def split: prod.splits dest: scan_victim_Some)

lemma evictOne_cases:
  obtains (shed) q h tr tb0 where "tb0 = tb\<lparr>tb_sacrificeQ := q, tb_sacrificeHead := h\<rparr>"
      "\<exists>i. map_of (tb_traces tb) i = Some tr \<and> \<not> bt_hasError tr \<and> keep \<noteq> Some i"
      "evictOne lk now keep tb = (True, evict_sacrificial lk now tb0 tr)"
  | (lost) q h q' h' tr tb0 where "tb0 = tb\<lparr>tb_sacrificeQ := q, tb_sacrificeHead := h, tb_anyQ := q', tb_anyHead := h'\<rparr>"
      "\<exists>i. map_of (tb_traces tb) i = Some tr \<and> \<not> bt_hasError tr \<and> keep \<noteq> Some i"
      "evictOne lk now keep tb = (True, evict_any now tb0 tr)"
  | (stuck) q h q' h' where
      "evictOne lk now keep tb =
        (False, tb\<lparr>tb_sacrificeQ := q, tb_sacrificeHead := h, tb_anyQ := q', tb_anyHead := h'\<rparr>)"
proof -
  obtain r q h where n1: "nextVictim tb (tb_sacrificeQ tb) (tb_sacrificeHead tb) True keep = (r, q, h)"
    by (metis prod_cases3)
  let ?tb = "tb\<lparr>tb_sacrificeQ := q, tb_sacrificeHead := h\<rparr>"
  obtain r2 q2 h2 where n2: "nextVictim ?tb (tb_anyQ tb) (tb_anyHead tb) False keep = (r2, q2, h2)"
    by (metis prod_cases3)
  show ?thesis
  proof (cases r)
    case (Some tr)
    then show ?thesis using n1 nextVictim_Some [of tb _ _ True keep tr q h]
      by (intro shed [where q = q and h = h and tr = tr and ?tb0.0 = ?tb]) (auto simp: evictOne_def Let_def)
  next
    case None
    show ?thesis
    proof (cases r2)
      case (Some tr)
      then show ?thesis using n1 n2 None nextVictim_Some [of ?tb _ _ False keep tr q2 h2]
        by (intro lost [where q = q and h = h and q' = q2 and h' = h2 and tr = tr, OF refl]) (auto simp: evictOne_def Let_def)
    next
      case None': None
      then show ?thesis using n1 n2 None by (intro stuck [where q = q and h = h and q' = q2 and h' = h2]) (auto simp: evictOne_def Let_def)
    qed
  qed
qed

lemma evictOne_simps [simp]:
  "tb_seq (snd (evictOne lk now keep tb)) = tb_seq tb"
  "tb_ttl (snd (evictOne lk now keep tb)) = tb_ttl tb"
  "tb_maxSpans (snd (evictOne lk now keep tb)) = tb_maxSpans tb"
  "tb_pressure (snd (evictOne lk now keep tb)) = tb_pressure tb"
  "tb_rescue (snd (evictOne lk now keep tb)) = tb_rescue tb"
  "tb_refused (snd (evictOne lk now keep tb)) = tb_refused tb"
  "tb_refusedTotal (snd (evictOne lk now keep tb)) = tb_refusedTotal tb"
  "tb_undeliverTotal (snd (evictOne lk now keep tb)) = tb_undeliverTotal tb"
  "tb_rootGrace (snd (evictOne lk now keep tb)) = tb_rootGrace tb"
  "tb_closed (snd (evictOne lk now keep tb)) = tb_closed tb"
  by (cases rule: evictOne_cases [of tb keep lk now]; simp)+

lemma ensureRoom_step:
  assumes "evictOne lk now keep tb = (b, tb')"
  shows "ensureRoom lk now keep tb =
    (if tb_maxSpans tb > 0 \<and> tb_spanCount tb \<ge> tb_maxSpans tb
     then if b then ensureRoom lk now keep tb' else (False, tb') else (True, tb))"
  by (subst ensureRoom.simps) (simp add: assms split: bool.splits)

lemma ensureRoom_induct:
  assumes "\<And>tb b tb'. I tb \<Longrightarrow> evictOne lk now keep tb = (b, tb') \<Longrightarrow> I tb'" and "I tb"
  shows "I (snd (ensureRoom lk now keep tb))"
  using assms
proof (induction lk now keep tb rule: ensureRoom.induct)
  case (1 lk now keep tb)
  obtain b tb' where e: "evictOne lk now keep tb = (b, tb')" by fastforce
  have I': "I tb'" using 1(2) [OF 1(3) e] .
  show ?case
  proof (cases "tb_maxSpans tb > 0 \<and> tb_spanCount tb \<ge> tb_maxSpans tb \<and> b")
    case True
    have "I (snd (ensureRoom lk now keep tb'))"
      by (rule 1(1) [OF _ e [symmetric]]) (use True 1(2) I' in auto)
    then show ?thesis using True by (simp add: ensureRoom_step [OF e])
  next
    case False
    then show ?thesis using I' 1(3) by (auto simp: ensureRoom_step [OF e])
  qed
qed

lemma ensureRoom_simps [simp]:
  "tb_seq (snd (ensureRoom lk now keep tb)) = tb_seq tb"
  "tb_ttl (snd (ensureRoom lk now keep tb)) = tb_ttl tb"
  "tb_maxSpans (snd (ensureRoom lk now keep tb)) = tb_maxSpans tb"
  "tb_pressure (snd (ensureRoom lk now keep tb)) = tb_pressure tb"
  "tb_rescue (snd (ensureRoom lk now keep tb)) = tb_rescue tb"
  "tb_refused (snd (ensureRoom lk now keep tb)) = tb_refused tb"
  "tb_refusedTotal (snd (ensureRoom lk now keep tb)) = tb_refusedTotal tb"
  "tb_undeliverTotal (snd (ensureRoom lk now keep tb)) = tb_undeliverTotal tb"
  "tb_rootGrace (snd (ensureRoom lk now keep tb)) = tb_rootGrace tb"
  "tb_closed (snd (ensureRoom lk now keep tb)) = tb_closed tb"
proof -
  let ?I = "\<lambda>tb'. tb_seq tb' = tb_seq tb
     \<and> tb_ttl tb' = tb_ttl tb
     \<and> tb_maxSpans tb' = tb_maxSpans tb
     \<and> tb_pressure tb' = tb_pressure tb
     \<and> tb_rescue tb' = tb_rescue tb
     \<and> tb_refused tb' = tb_refused tb
     \<and> tb_refusedTotal tb' = tb_refusedTotal tb
     \<and> tb_undeliverTotal tb' = tb_undeliverTotal tb
     \<and> tb_rootGrace tb' = tb_rootGrace tb
     \<and> tb_closed tb' = tb_closed tb"
  have "?I (snd (ensureRoom lk now keep tb))"
  proof (rule ensureRoom_induct [of ?I])
    fix tb1 b tb2
    assume "?I tb1" and "evictOne lk now keep tb1 = (b, tb2)"
    then show "?I tb2" using evictOne_simps [of lk now keep tb1] by simp
  qed simp
  then show "tb_seq (snd (ensureRoom lk now keep tb)) = tb_seq tb" "tb_ttl (snd (ensureRoom lk now keep tb)) = tb_ttl tb" "tb_maxSpans (snd (ensureRoom lk now keep tb)) = tb_maxSpans tb" "tb_pressure (snd (ensureRoom lk now keep tb)) = tb_pressure tb" "tb_rescue (snd (ensureRoom lk now keep tb)) = tb_rescue tb" "tb_refused (snd (ensureRoom lk now keep tb)) = tb_refused tb" "tb_refusedTotal (snd (ensureRoom lk now keep tb)) = tb_refusedTotal tb" "tb_undeliverTotal (snd (ensureRoom lk now keep tb)) = tb_undeliverTotal tb" "tb_rootGrace (snd (ensureRoom lk now keep tb)) = tb_rootGrace tb" "tb_closed (snd (ensureRoom lk now keep tb)) = tb_closed tb"
    by simp_all
qed

text \<open>
  The effect of a successful eviction of trace \<open>i\<close>: the trace leaves the buffer, is decided,
  and is either rescued with a weight or dropped under one of the exit columns.
\<close>

definition evicts :: "lookup \<Rightarrow> gotime \<Rightarrow> TraceBuffer \<Rightarrow> string \<Rightarrow> bufferedTrace \<Rightarrow> TraceBuffer \<Rightarrow> bool" where
  "evicts lk now tb i tr tb' \<longleftrightarrow> map_of (tb_traces tb) i = Some tr \<and> \<not> bt_hasError tr
     \<and> tb_traces tb' = AList.delete i (tb_traces tb) \<and> tb_spanCount tb' = tb_spanCount tb - span_len tr
     \<and> tb_seq tb' = tb_seq tb \<and> tb_maxSpans tb' = tb_maxSpans tb
     \<and> ((\<exists>w tb0 tb1. w \<noteq> 0 \<and> tb_carry tb0 = tb_carry tb \<and> keepWeight lk tb0 tr now = (w, tb1)
            \<and> tb_carry tb' = tb_carry tb1 \<and> tb_ledger tb' = tb_ledger tb
            \<and> tb_rescuedAtCap tb' = tb_rescuedAtCap tb @ [stampWeight tr w]
            \<and> tb_decided tb' = snd (decided_put (tb_decided tb) i w False now))
        \<or> (\<exists>col \<in> exit_columns. tb_carry tb' = carry_drop (tb_carry tb) (tr\<lparr>bt_droppedAs := col\<rparr>) now
            \<and> tb_ledger tb' = tally_AddSpans (tb_ledger tb) col (bt_spans tr) 1
            \<and> tb_rescuedAtCap tb' = tb_rescuedAtCap tb
            \<and> tb_decided tb' = snd (decided_put (tb_decided tb) i 0 False now)))"

lemma evicts_ledger: "evicts lk now tb i tr tb' \<Longrightarrow> tb_ledger tb' = None \<longleftrightarrow> tb_ledger tb = None"
  unfolding evicts_def by (elim conjE disjE exE bexE) simp_all

lemma tb_inv_queues: "tb_inv tb \<Longrightarrow>
    tb_inv (tb\<lparr>tb_sacrificeQ := q, tb_sacrificeHead := h, tb_anyQ := q', tb_anyHead := h'\<rparr>)"
  by (simp add: tb_inv_def)

lemma evict_any_evicts:
  assumes inv: "tb_inv tb" and i: "map_of (tb_traces tb) i = Some tr" and "\<not> bt_hasError tr"
  shows "evicts lk now tb i tr (evict_any now tb tr)"
proof -
  let ?tb = "tb\<lparr>tb_evictedKept := tb_evictedKept tb + int (length (bt_spans tr)),
                   tb_evictedKTotal := tb_evictedKTotal tb + int (length (bt_spans tr))\<rparr>"
  have inv': "tb_inv ?tb" using inv by (simp add: tb_inv_def)
  have i': "map_of (tb_traces ?tb) i = Some tr" using i by simp
  have id: "bt_id tr = i" by (rule tb_invD(2) [OF inv i])
  show ?thesis
    using assms(2,3) remove_inv(2,3) [OF inv' i'] id
    by (auto simp: evicts_def evict_any_def drop_evicted_def ledgerDropped_def exit_columns_def
        simp del: map_of_eq_Some_iff)
qed

lemma evict_sacrificial_evicts:
  assumes inv: "tb_inv tb" and i: "map_of (tb_traces tb) i = Some tr" and "\<not> bt_hasError tr"
  shows "evicts lk now tb i tr (evict_sacrificial lk now tb tr)"
proof -
  have id: "bt_id tr = i" by (rule tb_invD(2) [OF inv i])
  obtain w tb1 where k: "keepWeight lk (remove tb tr) tr now = (w, tb1)" by fastforce
  have fr: "tb_traces tb1 = AList.delete i (tb_traces tb)" "tb_spanCount tb1 = tb_spanCount tb - span_len tr"
    "tb_seq tb1 = tb_seq tb" "tb_maxSpans tb1 = tb_maxSpans tb" "tb_ledger tb1 = tb_ledger tb"
    "tb_rescuedAtCap tb1 = tb_rescuedAtCap tb" "tb_decided tb1 = tb_decided tb"
    using keepWeight_simps [of lk "remove tb tr" tr now] k remove_inv(2,3) [OF inv i] by simp_all
  show ?thesis
  proof (cases "w = 0")
    case True
    then have "tb_carry tb1 = tb_carry tb"
      using keepWeight_inv(5) [OF _ _ k] tb_invD(8,9) [OF inv] by simp
    then show ?thesis
      using True assms(2,3) k fr id
      by (auto simp: evicts_def evict_sacrificial_def rescueAtCap_def drop_evicted_def ledgerDropped_def
          exit_columns_def Let_def simp del: map_of_eq_Some_iff)
  next
    case False
    then have e: "evict_sacrificial lk now tb tr =
        tb1\<lparr>tb_decided := snd (decided_put (tb_decided tb1) i w False now),
             tb_rescuedAtCap := tb_rescuedAtCap tb1 @ [stampWeight tr w],
             tb_evictedRescue := tb_evictedRescue tb1 + int (length (bt_spans tr)),
             tb_evictedRTotal := tb_evictedRTotal tb1 + int (length (bt_spans tr))\<rparr>"
      using k id by (simp add: evict_sacrificial_def rescueAtCap_def Let_def)
    have "tb_carry (remove tb tr) = tb_carry tb" by simp
    moreover have "tb_carry (evict_sacrificial lk now tb tr) = tb_carry tb1"
      "tb_ledger (evict_sacrificial lk now tb tr) = tb_ledger tb"
      "tb_rescuedAtCap (evict_sacrificial lk now tb tr) = tb_rescuedAtCap tb @ [stampWeight tr w]"
      "tb_decided (evict_sacrificial lk now tb tr) = snd (decided_put (tb_decided tb) i w False now)"
      using e fr by simp_all
    ultimately have "\<exists>w tb0 tb1. w \<noteq> 0 \<and> tb_carry tb0 = tb_carry tb \<and> keepWeight lk tb0 tr now = (w, tb1)
        \<and> tb_carry (evict_sacrificial lk now tb tr) = tb_carry tb1
        \<and> tb_ledger (evict_sacrificial lk now tb tr) = tb_ledger tb
        \<and> tb_rescuedAtCap (evict_sacrificial lk now tb tr) = tb_rescuedAtCap tb @ [stampWeight tr w]
        \<and> tb_decided (evict_sacrificial lk now tb tr) = snd (decided_put (tb_decided tb) i w False now)"
      using False k by blast
    then show ?thesis
      unfolding evicts_def using assms(2,3) e fr by simp
  qed
qed

lemma evicts_queues:
  "evicts lk now (tb\<lparr>tb_sacrificeQ := q, tb_sacrificeHead := h\<rparr>) i tr tb' = evicts lk now tb i tr tb'"
  "evicts lk now (tb\<lparr>tb_sacrificeQ := q, tb_sacrificeHead := h, tb_anyQ := q', tb_anyHead := h'\<rparr>) i tr tb' =
    evicts lk now tb i tr tb'"
  by (simp_all add: evicts_def)

lemma evictOne_evicts:
  assumes inv: "tb_inv tb" and e: "evictOne lk now keep tb = (True, tb')"
  obtains i tr where "evicts lk now tb i tr tb'" and "keep \<noteq> Some i"
proof (cases rule: evictOne_cases [of tb keep lk now])
  case (shed q h tr tb0)
  then obtain i where i: "map_of (tb_traces tb) i = Some tr" "\<not> bt_hasError tr" "keep \<noteq> Some i" by blast
  have "tb_inv tb0" using inv shed(1) by (simp add: tb_inv_def)
  from evict_sacrificial_evicts [OF this, of i tr lk now] show ?thesis
    using shed e i by (intro that [of i tr]) (auto simp: evicts_queues)
next
  case (lost q h q' h' tr tb0)
  then obtain i where i: "map_of (tb_traces tb) i = Some tr" "\<not> bt_hasError tr" "keep \<noteq> Some i" by blast
  have "tb_inv tb0" using tb_inv_queues [OF inv] lost(1) by simp
  from evict_any_evicts [OF this, of i tr lk now] show ?thesis
    using lost e i by (intro that [of i tr]) (auto simp: evicts_queues)
qed (use e in simp)

lemma evicts_inv:
  assumes inv: "tb_inv tb" and e: "evicts lk now tb i tr tb'"
  shows "tb_inv tb'" and "dt_evicted (tb_decided tb) \<le> dt_evicted (tb_decided tb')"
proof -
  note D = tb_invD [OF inv]
  have i: "map_of (tb_traces tb) i = Some tr" using e by (simp add: evicts_def)
  have ok: "trace_ok tr" "\<not> bt_hasError tr" using D(3) [OF i] e by (simp_all add: evicts_def)
  have "carry_wf (tb_carry tb') \<and> carriers_ok (tb_carry tb') \<and> decided_wf (tb_decided tb')
      \<and> dt_evicted (tb_decided tb) \<le> dt_evicted (tb_decided tb')"
  proof -
    consider (rescued) w tb0 tb1 where "tb_carry tb0 = tb_carry tb" "keepWeight lk tb0 tr now = (w, tb1)"
        "tb_carry tb' = tb_carry tb1" "tb_decided tb' = snd (decided_put (tb_decided tb) i w False now)"
      | (dropped) col where "col \<in> exit_columns"
        "tb_carry tb' = carry_drop (tb_carry tb) (tr\<lparr>bt_droppedAs := col\<rparr>) now"
        "tb_decided tb' = snd (decided_put (tb_decided tb) i 0 False now)"
      using e unfolding evicts_def by blast
    then show ?thesis
    proof cases
      case rescued
      then show ?thesis
        using keepWeight_inv(1,2) [of tb0 lk tr now w tb1] D(8,9,10) decided_wf_put [OF D(10)] put_evicted [OF D(10)]
        by simp
    next
      case dropped
      have "carrier_ok (tr\<lparr>bt_droppedAs := col\<rparr>)"
        using dropped(1) ok by (auto simp: carrier_ok_def trace_ok_def)
      then show ?thesis
        using dropped carry_wf_drop [OF D(8)] carriers_ok_drop [OF D(8,9)] decided_wf_put [OF D(10)]
          put_evicted [OF D(10)] by simp
    qed
  qed
  moreover have "tb_traces tb' = tb_traces (remove tb tr)" "tb_spanCount tb' = tb_spanCount (remove tb tr)"
    "tb_seq tb' = tb_seq (remove tb tr)" "tb_maxSpans tb' = tb_maxSpans (remove tb tr)"
    using e remove_inv(2,3) [OF inv i] by (simp_all add: evicts_def)
  ultimately show "tb_inv tb'" "dt_evicted (tb_decided tb) \<le> dt_evicted (tb_decided tb')"
    using tb_inv_cong [OF remove_inv(1) [OF inv i], of tb'] by simp_all
qed

lemma evicts_apart:
  assumes inv: "tb_inv tb" and e: "evicts lk now tb i tr tb'" and a: "apart ids tb"
    and same: "evictions tb' = evictions tb"
  shows "apart ids tb'" and "held_of (tb_decided tb) i = []"
proof -
  note D = tb_invD [OF inv]
  obtain w where d': "tb_decided tb' = snd (decided_put (tb_decided tb) i w False now)"
    and t': "tb_traces tb' = AList.delete i (tb_traces tb)" and i: "map_of (tb_traces tb) i = Some tr"
    using e unfolding evicts_def by blast
  have other: "map_of (dt_m (tb_decided tb')) j = map_of (dt_m (tb_decided tb)) j" if "j \<noteq> i" for j
    using put_lookup(3) [OF D(10), of i w False now j] same d' that by simp
  have held: "dt_held (tb_decided tb') = AList.delete i (dt_held (tb_decided tb))" using d' by simp
  show "apart ids tb'"
    unfolding apart_def
  proof (intro conjI allI impI)
    fix j t
    assume "map_of (tb_traces tb') j = Some t"
    then have "j \<noteq> i" "map_of (tb_traces tb) j = Some t"
      by (auto simp: t' AList.delete_conv' split: if_splits)
    then show "map_of (dt_m (tb_decided tb')) j = None" using a other by (simp add: apart_def)
  next
    fix j xs
    assume "(j, xs) \<in> set (dt_held (tb_decided tb'))"
    then have "j \<noteq> i" "(j, xs) \<in> set (dt_held (tb_decided tb))" by (simp_all add: held set_delete)
    then show "j \<in> ids" and "\<exists>e. map_of (dt_m (tb_decided tb')) j = Some e \<and> dc_pending e"
      and "\<forall>rec \<in> set xs. sr_TraceID rec = j"
      using a other by (simp_all add: apart_def)
  qed
  have none: "map_of (dt_m (tb_decided tb)) i = None" using a i by (simp add: apart_def)
  have "map_of (dt_held (tb_decided tb)) i = None"
  proof (rule ccontr)
    assume "map_of (dt_held (tb_decided tb)) i \<noteq> None"
    then obtain xs where "(i, xs) \<in> set (dt_held (tb_decided tb))"
      by (auto simp: not_None_eq dest: map_of_SomeD)
    then show False using a none unfolding apart_def by fastforce
  qed
  then show "held_of (tb_decided tb) i = []" by (simp add: held_of_def)
qed

lemma queue_fields:
  "tb_traces (tb\<lparr>tb_sacrificeQ := q, tb_sacrificeHead := h, tb_anyQ := q', tb_anyHead := h'\<rparr>) = tb_traces tb"
  "tb_decided (tb\<lparr>tb_sacrificeQ := q, tb_sacrificeHead := h, tb_anyQ := q', tb_anyHead := h'\<rparr>) = tb_decided tb"
  "tb_carry (tb\<lparr>tb_sacrificeQ := q, tb_sacrificeHead := h, tb_anyQ := q', tb_anyHead := h'\<rparr>) = tb_carry tb"
  "tb_ledger (tb\<lparr>tb_sacrificeQ := q, tb_sacrificeHead := h, tb_anyQ := q', tb_anyHead := h'\<rparr>) = tb_ledger tb"
  "tb_rescuedAtCap (tb\<lparr>tb_sacrificeQ := q, tb_sacrificeHead := h, tb_anyQ := q', tb_anyHead := h'\<rparr>) = tb_rescuedAtCap tb"
  by simp_all

lemma evictOne_stuck:
  assumes "evictOne lk now keep tb = (False, tb')"
  obtains q h q' h' where "tb' = tb\<lparr>tb_sacrificeQ := q, tb_sacrificeHead := h, tb_anyQ := q', tb_anyHead := h'\<rparr>"
  by (cases rule: evictOne_cases [of tb keep lk now]) (use assms in \<open>auto intro: that\<close>)

text \<open>
  Invariants of the room-making loop: a predicate that survives changes of the eviction queues
  and single evictions survives the loop.
\<close>

lemma ensureRoom_evicts_induct:
  assumes queues: "\<And>tb q h q' h'. I tb \<Longrightarrow>
      I (tb\<lparr>tb_sacrificeQ := q, tb_sacrificeHead := h, tb_anyQ := q', tb_anyHead := h'\<rparr>)"
    and evict: "\<And>tb i tr tb'. I tb \<Longrightarrow> tb_inv tb \<Longrightarrow> evicts lk now tb i tr tb' \<Longrightarrow> keep \<noteq> Some i \<Longrightarrow> I tb'"
    and "tb_inv tb" and "I tb"
  shows "tb_inv (snd (ensureRoom lk now keep tb)) \<and> I (snd (ensureRoom lk now keep tb))"
proof (rule ensureRoom_induct [of "\<lambda>tb. tb_inv tb \<and> I tb"])
  fix tb b tb'
  assume I: "tb_inv tb \<and> I tb" and e: "evictOne lk now keep tb = (b, tb')"
  show "tb_inv tb' \<and> I tb'"
  proof (cases b)
    case True
    then obtain i tr where "evicts lk now tb i tr tb'" "keep \<noteq> Some i"
      using evictOne_evicts e I by metis
    then show ?thesis using evict evicts_inv(1) I by blast
  next
    case False
    then obtain q h q' h' where "tb' = tb\<lparr>tb_sacrificeQ := q, tb_sacrificeHead := h, tb_anyQ := q', tb_anyHead := h'\<rparr>"
      using evictOne_stuck e by metis
    then show ?thesis using queues tb_inv_queues I by simp
  qed
qed (use assms in simp)

lemma ensureRoom_inv:
  assumes "tb_inv tb"
  shows "tb_inv (snd (ensureRoom lk now keep tb))"
    and "evictions tb \<le> evictions (snd (ensureRoom lk now keep tb))"
    and "\<And>i t. map_of (tb_traces (snd (ensureRoom lk now keep tb))) i = Some t \<Longrightarrow> map_of (tb_traces tb) i = Some t"
    and "\<And>k. keep = Some k \<Longrightarrow> map_of (tb_traces (snd (ensureRoom lk now keep tb))) k = map_of (tb_traces tb) k"
proof -
  let ?I = "\<lambda>tb'. evictions tb \<le> evictions tb'
    \<and> (\<forall>i t. map_of (tb_traces tb') i = Some t \<longrightarrow> map_of (tb_traces tb) i = Some t)
    \<and> (\<forall>k. keep = Some k \<longrightarrow> map_of (tb_traces tb') k = map_of (tb_traces tb) k)"
  have "tb_inv (snd (ensureRoom lk now keep tb)) \<and> ?I (snd (ensureRoom lk now keep tb))"
  proof (rule ensureRoom_evicts_induct)
    fix tb1 i tr tb2
    assume I: "?I tb1" and inv: "tb_inv tb1" and e: "evicts lk now tb1 i tr tb2" and k: "keep \<noteq> Some i"
    have m: "map_of (tb_traces tb2) j = (if j = i then None else map_of (tb_traces tb1) j)" for j
      using e by (simp add: evicts_def AList.delete_conv')
    have I2: "map_of (tb_traces tb) j = Some t" if "map_of (tb_traces tb1) j = Some t" for j t
      using conjunct1 [OF conjunct2 [OF I]] that by blast
    have I3: "map_of (tb_traces tb1) j = map_of (tb_traces tb) j" if "keep = Some j" for j
      using conjunct2 [OF conjunct2 [OF I]] that by blast
    have "evictions tb \<le> evictions tb2" using evicts_inv(2) [OF inv e] conjunct1 [OF I] by simp
    moreover have "map_of (tb_traces tb) j = Some t" if "map_of (tb_traces tb2) j = Some t" for j t
      by (rule I2) (use that m [of j] in \<open>simp split: if_splits del: map_of_eq_Some_iff\<close>)
    moreover have "map_of (tb_traces tb2) j = map_of (tb_traces tb) j" if "keep = Some j" for j
      using I3 [OF that] m [of j] k that by auto
    ultimately show "?I tb2" by blast
  qed (simp_all only: queue_fields assms order_refl, blast+)
  then have r: "tb_inv (snd (ensureRoom lk now keep tb))" "?I (snd (ensureRoom lk now keep tb))"
    by (rule conjunct1, rule conjunct2)
  show "tb_inv (snd (ensureRoom lk now keep tb))" by (rule r(1))
  show "evictions tb \<le> evictions (snd (ensureRoom lk now keep tb))" by (rule conjunct1 [OF r(2)])
  show "\<And>i t. map_of (tb_traces (snd (ensureRoom lk now keep tb))) i = Some t \<Longrightarrow> map_of (tb_traces tb) i = Some t"
    by (rule conjunct2 [OF r(2), THEN conjunct1, rule_format])
  show "\<And>k. keep = Some k \<Longrightarrow> map_of (tb_traces (snd (ensureRoom lk now keep tb))) k = map_of (tb_traces tb) k"
    by (rule conjunct2 [OF r(2), THEN conjunct2, rule_format])
qed

lemma ensureRoom_room:
  "fst (ensureRoom lk now keep tb) \<Longrightarrow> tb_maxSpans tb \<le> 0 \<or>
     tb_spanCount (snd (ensureRoom lk now keep tb)) < tb_maxSpans tb"
proof (induction lk now keep tb rule: ensureRoom.induct)
  case (1 lk now keep tb)
  obtain b tb' where e: "evictOne lk now keep tb = (b, tb')" by fastforce
  have m: "tb_maxSpans tb' = tb_maxSpans tb" using evictOne_simps [of lk now keep tb] e by simp
  show ?case
  proof (cases "tb_maxSpans tb > 0 \<and> tb_spanCount tb \<ge> tb_maxSpans tb")
    case True
    then have b: "b" using 1(2) by (auto simp: ensureRoom_step [OF e] split: if_splits)
    have "fst (ensureRoom lk now keep tb')" using 1(2) True b by (simp add: ensureRoom_step [OF e])
    with 1(1) [OF True e [symmetric]] b m True show ?thesis by (simp add: ensureRoom_step [OF e])
  next
    case False
    then show ?thesis by (auto simp: ensureRoom_step [OF e])
  qed
qed

lemma ensureRoom_apart:
  assumes "tb_inv tb" and "apart ids tb" and "evictions (snd (ensureRoom lk now keep tb)) = evictions tb"
  shows "apart ids (snd (ensureRoom lk now keep tb))"
proof -
  let ?I = "\<lambda>tb'. evictions tb \<le> evictions tb' \<and> (evictions tb' = evictions tb \<longrightarrow> apart ids tb')"
  have "tb_inv (snd (ensureRoom lk now keep tb)) \<and> ?I (snd (ensureRoom lk now keep tb))"
  proof (rule ensureRoom_evicts_induct)
    fix tb1 i tr tb2
    assume I: "?I tb1" and inv: "tb_inv tb1" and e: "evicts lk now tb1 i tr tb2"
    show "?I tb2"
      using I evicts_inv(2) [OF inv e] evicts_apart(1) [OF inv e, of ids] by auto
  qed (use assms(1,2) in \<open>simp_all add: apart_def\<close>)
  then show ?thesis using assms(3) by blast
qed

section \<open>Accounts of the spans in the buffer\<close>

text \<open>
  All spans the buffer holds for delivery. The traces held as carriers are not among them:
  they have been counted as dropped.
\<close>

definition traces_spans :: "bufferedTrace list \<Rightarrow> SpanRecord list" where
  "traces_spans trs = concat (map bt_spans trs)"

definition decided_spans :: "decidedTraces \<Rightarrow> SpanRecord list" where
  "decided_spans d = dt_late d @ concat (map snd (dt_held d))"

definition buffer_spans :: "TraceBuffer \<Rightarrow> SpanRecord list" where
  "buffer_spans tb = traces_spans (map snd (tb_traces tb)) @ traces_spans (tb_rescuedAtCap tb)
     @ decided_spans (tb_decided tb)"

lemma traces_spans_simps [simp]:
  "traces_spans [] = []" "traces_spans (tr # trs) = bt_spans tr @ traces_spans trs"
  "traces_spans (trs @ us) = traces_spans trs @ traces_spans us"
  by (simp_all add: traces_spans_def)

text \<open>
  An account: a measure \<open>f\<close> of spans, and a measure \<open>X\<close> of the ledger that grows by \<open>g\<close> of
  every span accepted and by \<open>f\<close> of the spans that leave the buffer undelivered. Leaving spans
  carry no error.
\<close>

locale exit_account = span_measure f for f :: "SpanRecord \<Rightarrow> 'a::cancel_comm_monoid_add" +
  fixes g :: "SpanRecord \<Rightarrow> 'a" and X :: "Tally \<Rightarrow> 'a"
  assumes X_accept: "t \<noteq> None \<Longrightarrow>
      X (tally_Add t Accepted (sr_ProjectID s) (sr_StartTimeUs s) 1) = X t + g s"
    and X_exit: "t \<noteq> None \<Longrightarrow> col \<in> exit_columns \<Longrightarrow> \<not> is_error s \<Longrightarrow>
      X (tally_Add t col (sr_ProjectID s) (sr_StartTimeUs s) 1) = X t + f s"
    and X_exits: "t \<noteq> None \<Longrightarrow> col \<in> exit_columns \<Longrightarrow> \<forall>s \<in> set spans. \<not> is_error s \<Longrightarrow>
      X (tally_AddSpans t col spans 1) = X t + (\<Sum>s\<leftarrow>spans. f s)"
    and X_back: "t \<noteq> None \<Longrightarrow> col \<in> exit_columns \<Longrightarrow> \<forall>s \<in> set spans. \<not> is_error s \<Longrightarrow>
      X (tally_AddSpans t col spans (- 1)) + (\<Sum>s\<leftarrow>spans. f s) = X t"
begin

lemmas X_exits_total = X_exits [folded spans_total_def]
lemmas X_back_total = X_back [folded spans_total_def]

definition account :: "TraceBuffer \<Rightarrow> 'a" where
  "account tb = spans_total (buffer_spans tb) + X (tb_ledger tb)"

lemma traces_total: "spans_total (traces_spans (map snd m)) = asum (\<lambda>tr. spans_total (bt_spans tr)) m"
  by (induction m) simp_all

lemma decided_spans_total: "spans_total (decided_spans d) = decided_total d"
proof -
  have "spans_total (concat (map snd h)) = asum spans_total h" for h :: "(string \<times> SpanRecord list) list"
    by (induction h) simp_all
  then show ?thesis by (simp add: decided_spans_def decided_total_def)
qed

lemma buffer_total:
  "spans_total (buffer_spans tb) = asum (\<lambda>tr. spans_total (bt_spans tr)) (tb_traces tb)
     + spans_total (traces_spans (tb_rescuedAtCap tb)) + decided_total (tb_decided tb)"
  by (simp add: buffer_spans_def traces_total decided_spans_total add.assoc)

lemma trace_split:
  "gomap_wf m \<Longrightarrow> map_of m i = Some tr \<Longrightarrow>
   asum (\<lambda>tr. spans_total (bt_spans tr)) m =
     spans_total (bt_spans tr) + asum (\<lambda>tr. spans_total (bt_spans tr)) (AList.delete i m)"
  by (rule asum_split)

lemma evicts_account:
  assumes inv: "tb_inv tb" and e: "evicts lk now tb i tr tb'" and live: "tb_ledger tb \<noteq> None"
    and none: "held_of (tb_decided tb) i = []"
  shows "account tb' = account tb"
proof -
  note D = tb_invD [OF inv]
  have i: "map_of (tb_traces tb) i = Some tr" and t': "tb_traces tb' = AList.delete i (tb_traces tb)"
    using e by (simp_all add: evicts_def)
  note sp = trace_split [OF D(1) i]
  have dt: "decided_total (snd (decided_put (tb_decided tb) i w False now)) = decided_total (tb_decided tb)" for w
    using put_total [OF D(10), of i w False now] none by simp
  have clean: "\<forall>s \<in> set (bt_spans tr). \<not> is_error s"
    using D(3) [OF i] e by (auto simp: evicts_def trace_ok_def)
  consider (rescued) w where "tb_ledger tb' = tb_ledger tb" "tb_rescuedAtCap tb' = tb_rescuedAtCap tb @ [stampWeight tr w]"
      "tb_decided tb' = snd (decided_put (tb_decided tb) i w False now)"
    | (dropped) col where "col \<in> exit_columns" "tb_ledger tb' = tally_AddSpans (tb_ledger tb) col (bt_spans tr) 1"
      "tb_rescuedAtCap tb' = tb_rescuedAtCap tb" "tb_decided tb' = snd (decided_put (tb_decided tb) i 0 False now)"
    using e unfolding evicts_def by blast
  then show ?thesis
  proof cases
    case rescued
    then show ?thesis using sp dt t' by (simp add: account_def buffer_total ac_simps)
  next
    case dropped
    then show ?thesis using sp dt t' X_exits_total [OF live dropped(1) clean]
      by (simp add: account_def buffer_total ac_simps)
  qed
qed

lemma ensureRoom_account:
  assumes "tb_inv tb" and "apart ids tb" and "evictions (snd (ensureRoom lk now keep tb)) = evictions tb"
    and "tb_ledger tb \<noteq> None"
  shows "account (snd (ensureRoom lk now keep tb)) = account tb"
    and "tb_ledger (snd (ensureRoom lk now keep tb)) \<noteq> None"
proof -
  let ?I = "\<lambda>tb'. evictions tb \<le> evictions tb' \<and> tb_ledger tb' \<noteq> None
    \<and> (evictions tb' = evictions tb \<longrightarrow> apart ids tb' \<and> account tb' = account tb)"
  have "tb_inv (snd (ensureRoom lk now keep tb)) \<and> ?I (snd (ensureRoom lk now keep tb))"
  proof (rule ensureRoom_evicts_induct)
    fix tb1 i tr tb2
    assume I: "?I tb1" and inv: "tb_inv tb1" and e: "evicts lk now tb1 i tr tb2"
    have "tb_ledger tb2 = None \<longleftrightarrow> tb_ledger tb1 = None" using e by (rule evicts_ledger)
    then show "?I tb2"
      using I evicts_inv(2) [OF inv e] evicts_apart [OF inv e, of ids] evicts_account [OF inv e] by auto
  next
    fix tb1 q h q' h'
    assume "?I tb1"
    then show "?I (tb1\<lparr>tb_sacrificeQ := q, tb_sacrificeHead := h, tb_anyQ := q', tb_anyHead := h'\<rparr>)"
      by (simp add: apart_def account_def buffer_spans_def)
  qed (use assms(1,2,4) in simp_all)
  then show "account (snd (ensureRoom lk now keep tb)) = account tb"
    and "tb_ledger (snd (ensureRoom lk now keep tb)) \<noteq> None" using assms(3) by auto
qed

end

section \<open>Adding a span\<close>

text \<open>The effect of putting a span into its trace, which may be new.\<close>

definition root_time :: "gotime \<Rightarrow> SpanRecord \<Rightarrow> gotime \<Rightarrow> gotime" where
  "root_time now rec old = (if sr_ParentSpanID rec = [] \<and> IsZero old then now else old)"

definition grown :: "gotime \<Rightarrow> TraceBuffer \<Rightarrow> SpanRecord \<Rightarrow> bufferedTrace \<Rightarrow> bool" where
  "grown now tb rec tr' \<longleftrightarrow> bt_id tr' = sr_TraceID rec
     \<and> (case map_of (tb_traces tb) (sr_TraceID rec) of
          None \<Rightarrow> bt_spans tr' = [rec] \<and> bt_hasError tr' = is_error rec \<and> bt_seq tr' = tb_seq tb + 1
            \<and> bt_rootSeen tr' = root_time now rec zero_time
        | Some tr \<Rightarrow> bt_spans tr' = bt_spans tr @ [rec] \<and> bt_hasError tr' = (bt_hasError tr \<or> is_error rec)
            \<and> bt_seq tr' = bt_seq tr \<and> bt_rootSeen tr' = root_time now rec (bt_rootSeen tr))"

definition inserts :: "gotime \<Rightarrow> TraceBuffer \<Rightarrow> SpanRecord \<Rightarrow> TraceBuffer \<Rightarrow> bool" where
  "inserts now tb rec tb' \<longleftrightarrow>
     (\<exists>tr'. grown now tb rec tr' \<and> tb_traces tb' = AList.update (sr_TraceID rec) tr' (tb_traces tb))
     \<and> tb_seq tb' = (if map_of (tb_traces tb) (sr_TraceID rec) = None then tb_seq tb + 1 else tb_seq tb)
     \<and> tb_spanCount tb' = tb_spanCount tb + 1 \<and> tb_maxSpans tb' = tb_maxSpans tb
     \<and> tb_carry tb' = tb_carry tb \<and> tb_decided tb' = tb_decided tb \<and> tb_ledger tb' = tb_ledger tb
     \<and> tb_rescuedAtCap tb' = tb_rescuedAtCap tb"

lemma append_span_effect:
  obtains tr' where
    "tb_traces (append_span lk now tb tr rec) = AList.update (sr_TraceID rec) tr' (tb_traces tb)"
    "bt_id tr' = bt_id tr" "bt_spans tr' = bt_spans tr @ [rec]"
    "bt_hasError tr' = (bt_hasError tr \<or> is_error rec)" "bt_seq tr' = bt_seq tr"
    "bt_rootSeen tr' = root_time now rec (bt_rootSeen tr)"
proof -
  have "\<exists>tr'. tb_traces (append_span lk now tb tr rec) = AList.update (sr_TraceID rec) tr' (tb_traces tb)
    \<and> bt_id tr' = bt_id tr \<and> bt_spans tr' = bt_spans tr @ [rec]
    \<and> bt_hasError tr' = (bt_hasError tr \<or> is_error rec) \<and> bt_seq tr' = bt_seq tr
    \<and> bt_rootSeen tr' = root_time now rec (bt_rootSeen tr)"
    by (cases "sr_ParentSpanID rec = [] \<and> \<not> hasRoot tr"; cases "bt_rootOp tr = []")
      (auto simp: append_span_def Let_def relabel_def root_time_def hasRoot_def is_error_def)
  then show ?thesis using that by blast
qed

lemma append_span_frame [simp]:
  "tb_seq (append_span lk now tb tr rec) = tb_seq tb"
  "tb_spanCount (append_span lk now tb tr rec) = tb_spanCount tb + 1"
  "tb_maxSpans (append_span lk now tb tr rec) = tb_maxSpans tb"
  "tb_carry (append_span lk now tb tr rec) = tb_carry tb"
  "tb_decided (append_span lk now tb tr rec) = tb_decided tb"
  "tb_ledger (append_span lk now tb tr rec) = tb_ledger tb"
  "tb_rescuedAtCap (append_span lk now tb tr rec) = tb_rescuedAtCap tb"
  by (simp_all add: append_span_def Let_def relabel_def case_prod_beta)

lemma append_span_inserts:
  assumes "map_of (tb_traces tb) (sr_TraceID rec) = Some tr" and "bt_id tr = sr_TraceID rec"
  shows "inserts now tb rec (append_span lk now tb tr rec)"
proof -
  obtain tr' where "tb_traces (append_span lk now tb tr rec) = AList.update (sr_TraceID rec) tr' (tb_traces tb)"
    "bt_id tr' = bt_id tr" "bt_spans tr' = bt_spans tr @ [rec]"
    "bt_hasError tr' = (bt_hasError tr \<or> is_error rec)" "bt_seq tr' = bt_seq tr"
    "bt_rootSeen tr' = root_time now rec (bt_rootSeen tr)"
    by (rule append_span_effect)
  then show ?thesis using assms by (auto simp: inserts_def grown_def)
qed

lemma update_update: "AList.update k v (AList.update k w m) = AList.update k v m"
  by (induction m) auto

lemma newTrace_inserts:
  assumes "map_of (tb_traces tb) (sr_TraceID rec) = None" and n: "newTrace lk now tb rec = (tr, tb1)"
  shows "inserts now tb rec (append_span lk now tb1 tr rec)"
proof -
  have tr: "bt_id tr = sr_TraceID rec" "bt_spans tr = []" "\<not> bt_hasError tr" "bt_seq tr = tb_seq tb + 1"
    "bt_rootSeen tr = zero_time" "tb_traces tb1 = AList.update (sr_TraceID rec) tr (tb_traces tb)"
    and fr: "tb_seq tb1 = tb_seq tb + 1" "tb_spanCount tb1 = tb_spanCount tb" "tb_maxSpans tb1 = tb_maxSpans tb"
    "tb_carry tb1 = tb_carry tb" "tb_decided tb1 = tb_decided tb" "tb_ledger tb1 = tb_ledger tb"
    "tb_rescuedAtCap tb1 = tb_rescuedAtCap tb"
    using n by (auto simp: newTrace_def Let_def)
  obtain tr' where "tb_traces (append_span lk now tb1 tr rec) = AList.update (sr_TraceID rec) tr' (tb_traces tb1)"
    "bt_id tr' = bt_id tr" "bt_spans tr' = bt_spans tr @ [rec]"
    "bt_hasError tr' = (bt_hasError tr \<or> is_error rec)" "bt_seq tr' = bt_seq tr"
    "bt_rootSeen tr' = root_time now rec (bt_rootSeen tr)"
    by (rule append_span_effect)
  then show ?thesis using assms(1) tr fr by (auto simp: inserts_def grown_def update_update)
qed

text \<open>\<^verbatim>\<open>Add\<close> follows a decision, refuses the span, or inserts it after making room.\<close>

definition accept_span :: "TraceBuffer \<Rightarrow> SpanRecord \<Rightarrow> TraceBuffer" where
  "accept_span tb rec = tb\<lparr>tb_ledger := tally_Add (tb_ledger tb) Accepted (sr_ProjectID rec) (sr_StartTimeUs rec) 1\<rparr>"

lemma accept_span_simps [simp]:
  "tb_traces (accept_span tb rec) = tb_traces tb" "tb_decided (accept_span tb rec) = tb_decided tb"
  "tb_carry (accept_span tb rec) = tb_carry tb" "tb_maxSpans (accept_span tb rec) = tb_maxSpans tb"
  "tb_rescuedAtCap (accept_span tb rec) = tb_rescuedAtCap tb" "tb_seq (accept_span tb rec) = tb_seq tb"
  "tb_inv (accept_span tb rec) = tb_inv tb" "apart ids (accept_span tb rec) = apart ids tb"
  "tb_spanCount (accept_span tb rec) = tb_spanCount tb"
  by (simp_all add: accept_span_def tb_inv_def apart_def)

lemma Add_cases:
  assumes inv: "tb_inv tb"
  obtains (followed) "map_of (tb_traces tb) (sr_TraceID rec) = None"
      "fst (decided_follow (tb_decided tb) (tb_ledger (accept_span tb rec)) rec)"
      "Add lk now rec tb = (accept_span tb rec)\<lparr>
         tb_decided := follow_state (tb_decided tb) (tb_ledger (accept_span tb rec)) rec,
         tb_ledger := follow_tally (tb_decided tb) (tb_ledger (accept_span tb rec)) rec\<rparr>"
  | (refused) keep tb1 where "ensureRoom lk now keep (accept_span tb rec) = (False, tb1)"
      "\<not> is_error rec" "\<And>tr. map_of (tb_traces tb) (sr_TraceID rec) = Some tr \<Longrightarrow> \<not> bt_hasError tr"
      "Add lk now rec tb = refuse_span tb1 rec"
  | (inserted) room keep tb1 where "ensureRoom lk now keep (accept_span tb rec) = (room, tb1)"
      "room \<or> is_error rec \<or> (\<exists>tr. map_of (tb_traces tb) (sr_TraceID rec) = Some tr \<and> bt_hasError tr)"
      "map_of (tb_traces tb1) (sr_TraceID rec) = map_of (tb_traces tb) (sr_TraceID rec)"
      "map_of (tb_traces tb) (sr_TraceID rec) = None \<Longrightarrow> map_of (dt_m (tb_decided tb)) (sr_TraceID rec) = None"
      "inserts now tb1 rec (Add lk now rec tb)"
proof (cases "map_of (tb_traces tb) (sr_TraceID rec)")
  case None
  obtain room tb1 where er: "ensureRoom lk now None (accept_span tb rec) = (room, tb1)" by fastforce
  have none: "map_of (tb_traces tb1) (sr_TraceID rec) = None"
    using ensureRoom_inv(3) [of "accept_span tb rec" lk now None "sr_TraceID rec"] inv er None
    by (cases "map_of (tb_traces tb1) (sr_TraceID rec)") simp_all
  obtain b d t where fo: "decided_follow (tb_decided tb) (tb_ledger (accept_span tb rec)) rec = (b, d, t)"
    by (metis prod_cases3)
  have same: "d = tb_decided tb" "t = tb_ledger (accept_span tb rec)" "map_of (dt_m (tb_decided tb)) (sr_TraceID rec) = None"
    if "\<not> b"
    using that fo by (cases rule: follow_cases [of "tb_decided tb" rec "tb_ledger (accept_span tb rec)"]; simp)+
  have acc: "(accept_span tb rec)\<lparr>tb_decided := tb_decided tb\<rparr> = accept_span tb rec"
    by (simp add: accept_span_def)
  obtain tr tb2 where nt: "newTrace lk now tb1 rec = (tr, tb2)" by fastforce
  consider "b" | "\<not> b" "\<not> room" "\<not> is_error rec" | "\<not> b" "room \<or> is_error rec" by blast
  then show ?thesis
  proof cases
    case 1
    then show ?thesis
      using None fo by (intro followed) (simp_all add: Add_def Let_def accept_span_def [symmetric])
  next
    case 2
    then show ?thesis
      using None fo er same
      by (intro refused [of None tb1]) (simp_all add: Add_def Let_def accept_span_def [symmetric] is_error_def acc)
  next
    case 3
    then have "Add lk now rec tb = append_span lk now tb2 tr rec"
      using None fo er same nt by (auto simp: Add_def Let_def accept_span_def [symmetric] is_error_def acc)
    then show ?thesis
      using 3 None er same none newTrace_inserts [OF none nt] by (intro inserted [of None room tb1]) auto
  qed
next
  case (Some tr)
  let ?k = "Some (sr_TraceID rec)"
  have id: "bt_id tr = sr_TraceID rec" by (rule tb_invD(2) [OF inv Some])
  obtain room tb1 where er: "ensureRoom lk now ?k (accept_span tb rec) = (room, tb1)" by fastforce
  have same: "map_of (tb_traces tb1) (sr_TraceID rec) = Some tr"
    using ensureRoom_inv(4) [of "accept_span tb rec" ?k "sr_TraceID rec" lk now] inv er Some by simp
  have add: "Add lk now rec tb =
      (if \<not> room \<and> \<not> (is_error rec \<or> bt_hasError tr) then refuse_span tb1 rec else append_span lk now tb1 tr rec)"
    using Some er id
    by (simp add: Add_def Let_def accept_span_def [symmetric] is_error_def)
      (simp add: accept_span_def)
  show ?thesis
  proof (cases "\<not> room \<and> \<not> (is_error rec \<or> bt_hasError tr)")
    case True
    then show ?thesis using er add Some by (intro refused [of ?k tb1]) auto
  next
    case False
    then show ?thesis
      using er add Some same append_span_inserts [OF same id, of now lk] by (intro inserted [of ?k room tb1]) auto
  qed
qed

lemma clean_le_span: "asum clean_len m \<le> asum span_len m"
  by (induction m) (auto simp: clean_len_def span_len_def intro: add_mono)

lemma distinct_update_new:
  "map_of m i = None \<Longrightarrow> distinct (map (g \<circ> snd) m) \<Longrightarrow> g v \<notin> (g \<circ> snd) ` set m
   \<Longrightarrow> distinct (map (g \<circ> snd) (AList.update i v m))"
proof -
  assume none: "map_of m i = None" and d: "distinct (map (g \<circ> snd) m)" "g v \<notin> (g \<circ> snd) ` set m"
  have "AList.update i v m = m @ [(i, v)]"
    using none by (induction m) (auto split: if_splits)
  then show ?thesis using d by simp
qed

lemma map_update_same:
  "gomap_wf m \<Longrightarrow> map_of m i = Some w \<Longrightarrow> g v = g w \<Longrightarrow> map (g \<circ> snd) (AList.update i v m) = map (g \<circ> snd) m"
proof (induction m)
  case (Cons a m)
  then show ?case by (cases a) (auto split: if_splits)
qed simp

lemma inserts_trace_ok:
  assumes inv: "tb_inv tb" and g: "grown now tb rec tr'"
  shows "trace_ok tr'"
proof (cases "map_of (tb_traces tb) (sr_TraceID rec)")
  case None
  then show ?thesis using g by (auto simp: grown_def trace_ok_def)
next
  case (Some tr)
  have "bt_id tr = sr_TraceID rec" "trace_ok tr" using tb_invD(2,3) [OF inv Some] .
  then show ?thesis using g Some by (auto simp: grown_def trace_ok_def)
qed

lemma inserts_sums:
  assumes inv: "tb_inv tb" and g: "grown now tb rec tr'"
  shows "asum span_len (AList.update (sr_TraceID rec) tr' (tb_traces tb)) = asum span_len (tb_traces tb) + 1"
    and "asum clean_len (AList.update (sr_TraceID rec) tr' (tb_traces tb)) \<le>
      asum clean_len (tb_traces tb) + (if bt_hasError tr' then 0 else 1)"
proof -
  note wf = tb_invD(1) [OF inv]
  have "span_len tr' = (case map_of (tb_traces tb) (sr_TraceID rec) of None \<Rightarrow> 0 | Some v \<Rightarrow> span_len v) + 1"
    using g by (auto simp: grown_def span_len_def split: option.splits)
  then show "asum span_len (AList.update (sr_TraceID rec) tr' (tb_traces tb)) = asum span_len (tb_traces tb) + 1"
    by (simp add: asum_upsert [OF wf])
  have "clean_len tr' \<le> (case map_of (tb_traces tb) (sr_TraceID rec) of None \<Rightarrow> 0 | Some v \<Rightarrow> clean_len v)
      + (if bt_hasError tr' then 0 else 1)"
    using g by (auto simp: grown_def clean_len_def span_len_def split: option.splits)
  then show "asum clean_len (AList.update (sr_TraceID rec) tr' (tb_traces tb)) \<le>
      asum clean_len (tb_traces tb) + (if bt_hasError tr' then 0 else 1)"
    by (simp add: asum_upsert [OF wf])
qed

lemma inserts_seqs:
  assumes inv: "tb_inv tb" and g: "grown now tb rec tr'"
  shows "distinct (map (bt_seq \<circ> snd) (AList.update (sr_TraceID rec) tr' (tb_traces tb)))"
proof (cases "map_of (tb_traces tb) (sr_TraceID rec)")
  case None
  have "bt_seq t \<le> tb_seq tb" if "(j, t) \<in> set (tb_traces tb)" for j t
    using tb_invD(4) [OF inv, of j t] that tb_invD(1) [OF inv] by (simp add: map_of_eq_Some_iff)
  then have "bt_seq tr' \<notin> (bt_seq \<circ> snd) ` set (tb_traces tb)"
    using g None by (force simp: grown_def)
  with distinct_update_new [OF None tb_invD(5) [OF inv]] show ?thesis by blast
next
  case (Some tr)
  then have "bt_seq tr' = bt_seq tr" using g by (simp add: grown_def)
  with map_update_same [OF tb_invD(1) [OF inv] Some, of bt_seq tr'] tb_invD(5) [OF inv] show ?thesis by simp
qed

lemma inserts_inv:
  assumes inv: "tb_inv tb" and ins: "inserts now tb rec tb'"
    and room: "tb_maxSpans tb \<le> 0 \<or> tb_spanCount tb < tb_maxSpans tb \<or> is_error rec
      \<or> (\<exists>tr. map_of (tb_traces tb) (sr_TraceID rec) = Some tr \<and> bt_hasError tr)"
  shows "tb_inv tb'"
proof -
  note D = tb_invD [OF inv]
  obtain tr' where g: "grown now tb rec tr'" and t': "tb_traces tb' = AList.update (sr_TraceID rec) tr' (tb_traces tb)"
    and seq: "tb_seq tb' = (if map_of (tb_traces tb) (sr_TraceID rec) = None then tb_seq tb + 1 else tb_seq tb)"
    and fr: "tb_spanCount tb' = tb_spanCount tb + 1" "tb_maxSpans tb' = tb_maxSpans tb" "tb_carry tb' = tb_carry tb"
      "tb_decided tb' = tb_decided tb"
    using ins by (auto simp: inserts_def)
  note sums = inserts_sums [OF inv g]
  have "asum clean_len (tb_traces tb') \<le> tb_maxSpans tb'" if "0 < tb_maxSpans tb'"
  proof (cases "bt_hasError tr'")
    case True
    then show ?thesis using sums(2) D(7) that fr(2) t' by simp
  next
    case False
    then have "tb_spanCount tb < tb_maxSpans tb"
      using room g that fr(2) by (auto simp: grown_def split: option.splits)
    then show ?thesis using sums(1) clean_le_span [of "tb_traces tb'"] D(6) fr(2) t' by simp
  qed
  moreover have "bt_id t = j \<and> trace_ok t \<and> bt_seq t \<le> tb_seq tb'" if "map_of (tb_traces tb') j = Some t" for j t
  proof (cases "j = sr_TraceID rec")
    case True
    then have "t = tr'" using that t' by (simp add: AList.update_conv')
    then show ?thesis
      using True g inserts_trace_ok [OF inv g] seq D(4) by (auto simp: grown_def split: option.splits)
  next
    case False
    then have "map_of (tb_traces tb) j = Some t" using that t' by (simp add: AList.update_conv')
    then show ?thesis using D(2-4) seq by (auto intro: le_SucI)
  qed
  moreover have "gomap_wf (tb_traces tb')" "tb_spanCount tb' = asum span_len (tb_traces tb')"
    "distinct (map (bt_seq \<circ> snd) (tb_traces tb'))"
    using D(1,6) sums(1) fr(1) t' inserts_seqs [OF inv g] by (simp_all add: AList.distinct_update)
  ultimately show ?thesis using D(8-10) unfolding tb_inv_def fr(3,4) by blast
qed

lemma inserts_apart:
  assumes "apart ids tb" and "inserts now tb rec tb'"
    and "map_of (tb_traces tb) (sr_TraceID rec) = None \<Longrightarrow> map_of (dt_m (tb_decided tb)) (sr_TraceID rec) = None"
  shows "apart ids tb'"
proof -
  obtain tr' where t': "tb_traces tb' = AList.update (sr_TraceID rec) tr' (tb_traces tb)" and d: "tb_decided tb' = tb_decided tb"
    using assms(2) by (auto simp: inserts_def)
  have "map_of (dt_m (tb_decided tb)) i = None" if "map_of (tb_traces tb') i = Some t" for i t
    using that assms(1,3) t'
    by (cases "i = sr_TraceID rec"; cases "map_of (tb_traces tb) (sr_TraceID rec)")
      (auto simp: AList.update_conv' apart_def)
  then show ?thesis using assms(1) d by (simp add: apart_def)
qed

lemma refuse_span_simps [simp]:
  "tb_traces (refuse_span tb rec) = tb_traces tb" "tb_decided (refuse_span tb rec) = tb_decided tb"
  "tb_rescuedAtCap (refuse_span tb rec) = tb_rescuedAtCap tb" "tb_carry (refuse_span tb rec) = tb_carry tb"
  "tb_ledger (refuse_span tb rec) = tally_Add (tb_ledger tb) LostInBuffer (sr_ProjectID rec) (sr_StartTimeUs rec) 1"
  "tb_inv (refuse_span tb rec) = tb_inv tb" "apart ids (refuse_span tb rec) = apart ids tb"
  "tb_maxSpans (refuse_span tb rec) = tb_maxSpans tb"
  by (simp_all add: refuse_span_def tb_inv_def apart_def)

lemma follow_apart:
  assumes a: "apart ids tb" and "\<exists>e. map_of (dt_m (tb_decided tb)) (sr_TraceID rec) = Some e \<and> (dc_pending e \<longrightarrow> sr_TraceID rec \<in> ids)"
    and "tb_traces tb' = tb_traces tb" and d': "tb_decided tb' = follow_state (tb_decided tb) t rec"
    and wf: "decided_wf (tb_decided tb)"
  shows "apart ids tb'"
proof -
  let ?i = "sr_TraceID rec" and ?d = "tb_decided tb"
  have none: "map_of (dt_m (tb_decided tb')) i = None \<longleftrightarrow> map_of (dt_m ?d) i = None" for i
    by (simp add: d' follow_lookup split: option.splits)
  have pend: "(\<exists>e. map_of (dt_m (tb_decided tb')) i = Some e \<and> dc_pending e) \<longleftrightarrow>
      (\<exists>e. map_of (dt_m ?d) i = Some e \<and> dc_pending e)" for i
    by (auto simp: d' follow_lookup split: option.splits)
  have old: "xs = held_of ?d i" "i \<in> ids" "\<exists>e. map_of (dt_m ?d) i = Some e \<and> dc_pending e"
    "\<forall>rec \<in> set xs. sr_TraceID rec = i" if "(i, xs) \<in> set (dt_held ?d)" for i xs
    using that a wf by (simp_all add: apart_def held_of_def decided_wf_def)
  have "i \<in> ids \<and> (\<exists>e. map_of (dt_m ?d) i = Some e \<and> dc_pending e) \<and> (\<forall>rec \<in> set xs. sr_TraceID rec = i)"
    if m: "(i, xs) \<in> set (dt_held (tb_decided tb'))" for i xs
  proof (cases "(i, xs) \<in> set (dt_held ?d)")
    case True
    then show ?thesis using old by blast
  next
    case False
    then have p: "\<exists>e. map_of (dt_m ?d) ?i = Some e \<and> dc_pending e" and "i = ?i" "xs = held_of ?d ?i @ [rec]"
      using m wf by (auto simp: d' follow_held set_update decided_wf_def split: if_splits)
    moreover have "sr_TraceID r = ?i" if "r \<in> set (held_of ?d ?i)" for r
    proof (cases "map_of (dt_held ?d) ?i")
      case (Some ys)
      then show ?thesis using old(4) [OF map_of_SomeD [OF Some]] that by (simp add: held_of_def)
    qed (use that in \<open>simp add: held_of_def\<close>)
    ultimately show ?thesis using assms(2) by auto
  qed
  moreover have "map_of (dt_m (tb_decided tb')) i = None" if "map_of (tb_traces tb') i = Some t" for i t
    using a none [of i] that assms(3) unfolding apart_def by simp
  ultimately show ?thesis
    unfolding apart_def pend by blast
qed

lemma Add_inv:
  assumes "tb_inv tb"
  shows "tb_inv (Add lk now rec tb)" and "evictions tb \<le> evictions (Add lk now rec tb)"
proof -
  have inv0: "tb_inv (accept_span tb rec)" using assms by simp
  have "tb_inv (Add lk now rec tb) \<and> evictions tb \<le> evictions (Add lk now rec tb)"
  proof (cases rule: Add_cases [OF assms, of rec lk now, case_names followed refused inserted])
    case followed
    then show ?thesis
      using tb_inv_cong [OF inv0] follow_wf [OF tb_invD(10) [OF assms]] tb_invD(8,9) [OF assms] by simp
  next
    case (refused keep tb1)
    then show ?thesis using ensureRoom_inv(1,2) [OF inv0, of lk now keep] by simp
  next
    case (inserted room keep tb1)
    have inv1: "tb_inv tb1" and ev: "evictions tb \<le> evictions tb1" and m: "tb_maxSpans tb1 = tb_maxSpans tb"
      using ensureRoom_inv(1,2) [OF inv0, of lk now keep] ensureRoom_simps(3) [of lk now keep "accept_span tb rec"]
        inserted(1) by simp_all
    have "tb_maxSpans tb1 \<le> 0 \<or> tb_spanCount tb1 < tb_maxSpans tb1" if "room"
      using ensureRoom_room [of lk now keep "accept_span tb rec"] inserted(1) that m by simp
    then have "tb_inv (Add lk now rec tb)"
      using inserted(2,3) by (intro inserts_inv [OF inv1 inserted(5)]) auto
    moreover have "evictions (Add lk now rec tb) = evictions tb1" using inserted(5) by (simp add: inserts_def)
    ultimately show ?thesis using ev by simp
  qed
  then show "tb_inv (Add lk now rec tb)" and "evictions tb \<le> evictions (Add lk now rec tb)" by simp_all
qed

text \<open>A pending decision belongs to the flush in progress.\<close>

definition pending_in :: "string set \<Rightarrow> TraceBuffer \<Rightarrow> bool" where
  "pending_in ids tb \<longleftrightarrow> (\<forall>i e. map_of (dt_m (tb_decided tb)) i = Some e \<longrightarrow> dc_pending e \<longrightarrow> i \<in> ids)"

lemma evicts_pending: "tb_inv tb \<Longrightarrow> evicts lk now tb i tr tb' \<Longrightarrow> pending_in ids tb \<Longrightarrow> pending_in ids tb'"
proof -
  assume inv: "tb_inv tb" and e: "evicts lk now tb i tr tb'" and p: "pending_in ids tb"
  obtain w where d': "tb_decided tb' = snd (decided_put (tb_decided tb) i w False now)"
    using e unfolding evicts_def by blast
  note wf = tb_invD(10) [OF inv]
  show ?thesis
    unfolding pending_in_def
  proof (intro allI impI)
    fix j e
    assume j: "map_of (dt_m (tb_decided tb')) j = Some e" and "dc_pending e"
    then have "j \<noteq> i" using put_lookup(1) [OF wf, of i w False now] d' by auto
    then show "j \<in> ids" using put_lookup(2) [OF wf, of j i w False now e] j d' p \<open>dc_pending e\<close>
      by (auto simp: pending_in_def)
  qed
qed

lemma ensureRoom_undecided:
  assumes "tb_inv tb" and "map_of (tb_traces tb) i = None" and "map_of (dt_m (tb_decided tb)) i = None"
  shows "map_of (dt_m (tb_decided (snd (ensureRoom lk now keep tb)))) i = None"
proof -
  let ?I = "\<lambda>tb. map_of (tb_traces tb) i = None \<and> map_of (dt_m (tb_decided tb)) i = None"
  have "tb_inv (snd (ensureRoom lk now keep tb)) \<and> ?I (snd (ensureRoom lk now keep tb))"
  proof (rule ensureRoom_evicts_induct)
    fix tb j tr tb'
    assume I: "?I tb" and inv: "tb_inv tb" and e: "evicts lk now tb j tr tb'"
    obtain w where d': "tb_decided tb' = snd (decided_put (tb_decided tb) j w False now)"
      using e unfolding evicts_def by blast
    have "j \<noteq> i" using I e by (auto simp: evicts_def)
    then have "map_of (dt_m (tb_decided tb')) i = None"
      using put_lookup(2) [OF tb_invD(10) [OF inv], of i j w False now] I d'
      by (cases "map_of (dt_m (tb_decided tb')) i") auto
    then show "?I tb'" using I e by (simp add: evicts_def AList.delete_conv')
  qed (use assms in simp_all)
  then show ?thesis by blast
qed

lemma ensureRoom_pending:
  "tb_inv tb \<Longrightarrow> pending_in ids tb \<Longrightarrow> pending_in ids (snd (ensureRoom lk now keep tb))"
  by (rule ensureRoom_evicts_induct [THEN conjunct2, of "pending_in ids"])
    (auto simp: evicts_pending, simp add: pending_in_def)

lemma Add_apart:
  assumes inv: "tb_inv tb" and p: "pending_in ids tb"
  shows "pending_in ids (Add lk now rec tb)"
    and "apart ids tb \<Longrightarrow> evictions (Add lk now rec tb) = evictions tb \<Longrightarrow> apart ids (Add lk now rec tb)"
proof -
  let ?tb = "accept_span tb rec"
  have inv0: "tb_inv ?tb" and p0: "pending_in ids ?tb" using inv p by (simp_all add: pending_in_def)
  have "pending_in ids (Add lk now rec tb) \<and>
    (apart ids tb \<longrightarrow> evictions (Add lk now rec tb) = evictions tb \<longrightarrow> apart ids (Add lk now rec tb))"
  proof (cases rule: Add_cases [OF inv, of rec lk now, case_names followed refused inserted])
    case followed
    have "pending_in ids (Add lk now rec tb)"
      using p followed(3) by (auto simp: pending_in_def follow_lookup split: option.splits if_splits)
    moreover have "apart ids (Add lk now rec tb)" if a: "apart ids tb"
    proof (rule follow_apart [of ids ?tb rec])
      show "\<exists>e. map_of (dt_m (tb_decided ?tb)) (sr_TraceID rec) = Some e \<and> (dc_pending e \<longrightarrow> sr_TraceID rec \<in> ids)"
        using followed(2) p by (auto simp: follow_known pending_in_def not_None_eq)
    qed (use a followed(3) tb_invD(10) [OF inv] in simp_all)
    ultimately show ?thesis by blast
  next
    case (refused keep tb1)
    then show ?thesis
      using ensureRoom_apart [OF inv0, of ids lk now keep] ensureRoom_pending [OF inv0 p0, of lk now keep]
      by (auto simp: pending_in_def)
  next
    case (inserted room keep tb1)
    have d: "tb_decided (Add lk now rec tb) = tb_decided tb1" using inserted(5) by (simp add: inserts_def)
    have inv1: "tb_inv tb1" using ensureRoom_inv(1) [OF inv0, of lk now keep] inserted(1) by simp
    have "pending_in ids (Add lk now rec tb)"
      using ensureRoom_pending [OF inv0 p0, of lk now keep] inserted(1) d by (simp add: pending_in_def)
    moreover have "apart ids (Add lk now rec tb)" if a: "apart ids tb" and ev: "evictions (Add lk now rec tb) = evictions tb"
    proof (rule inserts_apart [OF _ inserted(5)])
      show "apart ids tb1" using ensureRoom_apart [OF inv0, of ids lk now keep] inserted(1) a ev d by simp
      show "map_of (dt_m (tb_decided tb1)) (sr_TraceID rec) = None" if "map_of (tb_traces tb1) (sr_TraceID rec) = None"
        using ensureRoom_undecided [OF inv0, of "sr_TraceID rec" lk now keep] inserted(1,3,4) that by simp
    qed
    ultimately show ?thesis by blast
  qed
  then show "pending_in ids (Add lk now rec tb)"
    and "apart ids tb \<Longrightarrow> evictions (Add lk now rec tb) = evictions tb \<Longrightarrow> apart ids (Add lk now rec tb)"
    by blast+
qed

end
