(* ===== verification/TraceBufferFlush.thy ===== *)
theory TraceBufferFlush
  imports TraceBufferInv
begin

text \<open>
  What adding a span and the pieces of a flush do to the invariants and to the accounts of the
  trace buffer: \<open>exit_account\<close>, the spans that must leave through exactly one exit, and
  \<open>trace_count\<close>, the traces that must be counted exactly once by a stored weight.
\<close>

declare map_of_eq_Some_iff [simp del] not_None_eq [iff del]

section \<open>Traces in flight\<close>

text \<open>The traces a flush is deciding are marked pending.\<close>

definition flying :: "string set \<Rightarrow> TraceBuffer \<Rightarrow> bool" where
  "flying ids tb \<longleftrightarrow> (\<forall>i \<in> ids. \<exists>e. map_of (dt_m (tb_decided tb)) i = Some e \<and> dc_pending e)"

lemma evicts_flying:
  assumes inv: "tb_inv tb" and e: "evicts lk now tb i tr tb'" and a: "apart ids tb" and fl: "flying ids tb"
    and same: "evictions tb' = evictions tb"
  shows "flying ids tb'"
proof -
  obtain w where d': "tb_decided tb' = snd (decided_put (tb_decided tb) i w False now)"
    and i: "map_of (tb_traces tb) i = Some tr"
    using e unfolding evicts_def by blast
  have "map_of (dt_m (tb_decided tb)) i = None" using a i by (simp add: apart_def)
  then have "i \<notin> ids" using fl by (auto simp: flying_def)
  moreover have "map_of (dt_m (tb_decided tb')) j = map_of (dt_m (tb_decided tb)) j" if "j \<noteq> i" for j
    using put_lookup(3) [OF tb_invD(10) [OF inv], of i w False now j] same d' that by simp
  ultimately show ?thesis using fl unfolding flying_def by metis
qed

lemma ensureRoom_flying:
  assumes "tb_inv tb" and "apart ids tb" and "flying ids tb"
    and "evictions (snd (ensureRoom lk now keep tb)) = evictions tb"
  shows "flying ids (snd (ensureRoom lk now keep tb))"
proof -
  let ?I = "\<lambda>tb'. evictions tb \<le> evictions tb' \<and> (evictions tb' = evictions tb \<longrightarrow> apart ids tb' \<and> flying ids tb')"
  have "tb_inv (snd (ensureRoom lk now keep tb)) \<and> ?I (snd (ensureRoom lk now keep tb))"
  proof (rule ensureRoom_evicts_induct)
    fix tb1 i tr tb2
    assume I: "?I tb1" and inv: "tb_inv tb1" and e: "evicts lk now tb1 i tr tb2"
    show "?I tb2"
      using I evicts_inv(2) [OF inv e] evicts_apart(1) [OF inv e, of ids] evicts_flying [OF inv e, of ids] by auto
  qed (use assms(1-3) in \<open>simp_all add: apart_def flying_def\<close>)
  then show ?thesis using assms(4) by blast
qed

lemma follow_flying:
  "flying ids tb \<Longrightarrow> tb_decided tb' = follow_state (tb_decided tb) t rec \<Longrightarrow> flying ids tb'"
  unfolding flying_def by (auto simp: follow_lookup)

lemma Add_flying:
  assumes inv: "tb_inv tb" and "apart ids tb" and "flying ids tb"
    and ev: "evictions (Add lk now rec tb) = evictions tb"
  shows "flying ids (Add lk now rec tb)"
proof -
  let ?tb = "accept_span tb rec"
  have 0: "tb_inv ?tb" "apart ids ?tb" "flying ids ?tb" using assms(1-3) by (simp_all add: flying_def)
  show ?thesis
  proof (cases rule: Add_cases [OF inv, of rec lk now, case_names followed refused inserted])
    case followed
    then show ?thesis using follow_flying [OF assms(3)] by simp
  next
    case (refused keep tb1)
    have "flying ids tb1" using ensureRoom_flying [OF 0, of lk now keep] refused ev by simp
    then show ?thesis using refused(4) by (simp add: flying_def)
  next
    case (inserted room keep tb1)
    have d: "tb_decided (Add lk now rec tb) = tb_decided tb1" using inserted(5) by (simp add: inserts_def)
    then have "flying ids tb1" using ensureRoom_flying [OF 0, of lk now keep] inserted(1) ev by simp
    then show ?thesis using d by (simp add: flying_def)
  qed
qed

section \<open>Accounts and adding a span\<close>

context exit_account
begin

lemma account_cong:
  "tb_traces tb' = tb_traces tb \<Longrightarrow> tb_rescuedAtCap tb' = tb_rescuedAtCap tb \<Longrightarrow>
   tb_decided tb' = tb_decided tb \<Longrightarrow> X (tb_ledger tb') = X (tb_ledger tb) \<Longrightarrow> account tb' = account tb"
  by (simp add: account_def buffer_spans_def)

lemma account_accept: "tb_ledger tb \<noteq> None \<Longrightarrow> account (accept_span tb rec) = account tb + g rec"
  by (simp add: account_def buffer_spans_def accept_span_def X_accept add.assoc)

lemma inserts_account:
  assumes inv: "tb_inv tb" and ins: "inserts now tb rec tb'"
  shows "account tb' = account tb + f rec"
proof -
  let ?s = "\<lambda>tr. spans_total (bt_spans tr)"
  obtain tr' where g: "grown now tb rec tr'" and t': "tb_traces tb' = AList.update (sr_TraceID rec) tr' (tb_traces tb)"
    and fr: "tb_decided tb' = tb_decided tb" "tb_ledger tb' = tb_ledger tb" "tb_rescuedAtCap tb' = tb_rescuedAtCap tb"
    using ins by (auto simp: inserts_def)
  note wf = tb_invD(1) [OF inv]
  have "asum ?s (tb_traces tb') = asum ?s (tb_traces tb) + f rec"
  proof (cases "map_of (tb_traces tb) (sr_TraceID rec)")
    case None
    then show ?thesis using g by (simp add: t' asum_update_new grown_def)
  next
    case (Some tr)
    then show ?thesis
      using g asum_split [OF wf Some, of ?s] by (simp add: t' asum_update_old [OF wf Some] grown_def ac_simps)
  qed
  then show ?thesis by (simp add: account_def buffer_total fr ac_simps)
qed

lemma follow_account:
  assumes wf: "decided_wf (tb_decided tb)" and live: "tb_ledger tb \<noteq> None"
    and known: "fst (decided_follow (tb_decided tb) (tb_ledger tb) rec)"
    and tb': "tb' = tb\<lparr>tb_decided := follow_state (tb_decided tb) (tb_ledger tb) rec,
        tb_ledger := follow_tally (tb_decided tb) (tb_ledger tb) rec\<rparr>"
  shows "account tb' = account tb + f rec"
proof -
  let ?d = "tb_decided tb"
  have "X (follow_tally ?d (tb_ledger tb) rec) = X (tb_ledger tb) + (if follow_drops ?d rec then f rec else 0)"
    using X_exit [OF live, of SampledOut rec]
    by (auto simp: follow_tally_eq follow_drops_def exit_columns_def is_error_def)
  then show ?thesis
    using follow_total [OF wf known] unfolding tb' account_def buffer_total
    by (auto simp: ac_simps split: if_splits)
qed

lemma Add_account:
  assumes inv: "tb_inv tb" and a: "apart ids tb" and live: "tb_ledger tb \<noteq> None"
    and ev: "evictions (Add lk now rec tb) = evictions tb"
  shows "account (Add lk now rec tb) = account tb + (f rec + g rec)" and "tb_ledger (Add lk now rec tb) \<noteq> None"
proof -
  let ?tb = "accept_span tb rec"
  have live0: "tb_ledger ?tb \<noteq> None" using live by (simp add: accept_span_def)
  have inv0: "tb_inv ?tb" and a0: "apart ids ?tb" using inv a by simp_all
  note acc = account_accept [OF live, of rec]
  have "account (Add lk now rec tb) = account tb + (f rec + g rec) \<and> tb_ledger (Add lk now rec tb) \<noteq> None"
  proof (cases rule: Add_cases [OF inv, of rec lk now, case_names followed refused inserted])
    case followed
    have "account (Add lk now rec tb) = account ?tb + f rec"
      by (rule follow_account [OF _ live0]) (use followed inv in \<open>simp_all add: tb_inv_def\<close>)
    moreover have "tb_ledger (Add lk now rec tb) \<noteq> None"
      using live0 followed(3) by (simp add: follow_tally_eq)
    ultimately show ?thesis using acc by (simp add: ac_simps)
  next
    case (refused keep tb1)
    have tb1: "account tb1 = account ?tb" "tb_ledger tb1 \<noteq> None"
      using ensureRoom_account [OF inv0 a0, of lk now keep] refused ev live0 by simp_all
    have "account (refuse_span tb1 rec) = account tb1 + f rec"
      using X_exit [OF tb1(2), of LostInBuffer rec] refused(2)
      by (simp add: account_def buffer_total exit_columns_def ac_simps)
    then show ?thesis using refused(4) tb1 acc by (simp add: ac_simps)
  next
    case (inserted room keep tb1)
    have d: "tb_decided (Add lk now rec tb) = tb_decided tb1" "tb_ledger (Add lk now rec tb) = tb_ledger tb1"
      using inserted(5) by (simp_all add: inserts_def)
    have tb1: "account tb1 = account ?tb" "tb_ledger tb1 \<noteq> None"
      using ensureRoom_account [OF inv0 a0, of lk now keep] inserted(1) ev live0 d by simp_all
    have "tb_inv tb1" using ensureRoom_inv(1) [OF inv0, of lk now keep] inserted(1) by simp
    from inserts_account [OF this inserted(5)] show ?thesis using tb1 acc d by (simp add: ac_simps)
  qed
  then show "account (Add lk now rec tb) = account tb + (f rec + g rec)" and "tb_ledger (Add lk now rec tb) \<noteq> None"
    by simp_all
qed

end

section \<open>Beginning a flush\<close>

definition due_list :: "trace_order \<Rightarrow> gotime \<Rightarrow> bool \<Rightarrow> TraceBuffer \<Rightarrow> bufferedTrace list" where
  "due_list ord now all tb = sortByArrival (filter (\<lambda>tr. all \<or> due tb tr now) (map snd (ord (tb_traces tb))))"

lemma due_list_set:
  "permutes ord \<Longrightarrow> set (due_list ord now all tb) = {tr \<in> snd ` set (tb_traces tb). all \<or> due tb tr now}"
  by (auto simp: due_list_def sortByArrival_def permutes_set)

lemma due_list_traces:
  assumes inv: "tb_inv tb" and "permutes ord"
  shows "\<forall>tr \<in> set (due_list ord now all tb). map_of (tb_traces tb) (bt_id tr) = Some tr"
    and "distinct (map bt_id (due_list ord now all tb))"
proof -
  note D = tb_invD [OF inv]
  have mem: "map_of (tb_traces tb) i = Some tr" "bt_id tr = i" if "(i, tr) \<in> set (tb_traces tb)" for i tr
    using that D(1) D(2) [of i tr] by (simp_all add: map_of_eq_Some_iff)
  show "\<forall>tr \<in> set (due_list ord now all tb). map_of (tb_traces tb) (bt_id tr) = Some tr"
    using mem by (force simp: due_list_set [OF assms(2)])
  have "map bt_id (map snd (tb_traces tb)) = map fst (tb_traces tb)"
    using mem(2) by (auto intro!: map_cong)
  then have "distinct (map bt_id (map snd (tb_traces tb)))" using D(1) by (simp only:)
  moreover have "mset (map bt_id (map snd (ord (tb_traces tb)))) = mset (map bt_id (map snd (tb_traces tb)))"
    using permutes_mset [OF assms(2), of "tb_traces tb"] by (metis mset_map)
  ultimately have "distinct (map bt_id (map snd (ord (tb_traces tb))))"
    using mset_eq_imp_distinct_iff by blast
  then have "distinct (map bt_id (filter (\<lambda>tr. all \<or> due tb tr now) (map snd (ord (tb_traces tb)))))"
    by (rule distinct_map_filter)
  moreover have "mset (due_list ord now all tb) = mset (filter (\<lambda>tr. all \<or> due tb tr now) (map snd (ord (tb_traces tb))))"
    by (simp add: due_list_def sortByArrival_def)
  ultimately show "distinct (map bt_id (due_list ord now all tb))"
    using mset_eq_imp_distinct_iff by (metis mset_map)
qed

text \<open>The traces marked pending at time \<open>now\<close>, which expiry at that time does not forget.\<close>

definition recalled :: "gotime \<Rightarrow> string set \<Rightarrow> TraceBuffer \<Rightarrow> bool" where
  "recalled now ids tb \<longleftrightarrow> (\<forall>i \<in> ids. remembers i now (0, True) (tb_decided tb))"

lemma begin_trace_simps [simp]:
  "tb_seq (begin_trace now tr tb) = tb_seq tb" "tb_maxSpans (begin_trace now tr tb) = tb_maxSpans tb"
  "tb_carry (begin_trace now tr tb) = tb_carry tb" "tb_ledger (begin_trace now tr tb) = tb_ledger tb"
  "tb_rescuedAtCap (begin_trace now tr tb) = tb_rescuedAtCap tb"
  "tb_decided (begin_trace now tr tb) = snd (decided_put (tb_decided tb) (bt_id tr) 0 True now)"
  "tb_traces (begin_trace now tr tb) = AList.delete (bt_id tr) (tb_traces tb)"
  by (simp_all add: begin_trace_def Let_def) (simp add: remove_def Let_def)

lemma begin_trace_inv:
  assumes inv: "tb_inv tb" and tr: "map_of (tb_traces tb) (bt_id tr) = Some tr"
  shows "tb_inv (begin_trace now tr tb)" and "evictions tb \<le> evictions (begin_trace now tr tb)"
    and "dt_held (tb_decided tb) = [] \<Longrightarrow> dt_held (tb_decided (begin_trace now tr tb)) = []"
proof -
  note wf = tb_invD(10) [OF inv]
  show "tb_inv (begin_trace now tr tb)"
    by (rule tb_inv_cong [OF remove_inv(1) [OF inv tr]])
      (use decided_wf_put [OF wf] tb_invD(8,9) [OF inv] in \<open>simp_all add: begin_trace_def Let_def\<close>)
  show "evictions tb \<le> evictions (begin_trace now tr tb)" using put_evicted [OF wf] by simp
  show "dt_held (tb_decided tb) = [] \<Longrightarrow> dt_held (tb_decided (begin_trace now tr tb)) = []" by simp
qed

definition undecided :: "TraceBuffer \<Rightarrow> bool" where
  "undecided tb \<longleftrightarrow> (\<forall>i tr. map_of (tb_traces tb) i = Some tr \<longrightarrow> map_of (dt_m (tb_decided tb)) i = None)"

lemma begin_trace_separate:
  assumes inv: "tb_inv tb" and tr: "map_of (tb_traces tb) (bt_id tr) = Some tr"
    and u: "undecided tb" and r: "recalled now ids tb"
    and same: "evictions (begin_trace now tr tb) = evictions tb"
  shows "undecided (begin_trace now tr tb)" and "recalled now (insert (bt_id tr) ids) (begin_trace now tr tb)"
proof -
  note wf = tb_invD(10) [OF inv]
  let ?i = "bt_id tr"
  have none: "map_of (dt_m (tb_decided tb)) ?i = None" using u tr by (auto simp: undecided_def)
  have ev: "dt_evicted (snd (decided_put (tb_decided tb) ?i 0 True now)) = dt_evicted (tb_decided tb)"
    using same by simp
  show "undecided (begin_trace now tr tb)"
    unfolding undecided_def
  proof (intro allI impI)
    fix j t
    assume "map_of (tb_traces (begin_trace now tr tb)) j = Some t"
    then have "j \<noteq> ?i" "map_of (tb_traces tb) j = Some t" by (auto simp: AList.delete_conv' split: if_splits)
    then show "map_of (dt_m (tb_decided (begin_trace now tr tb))) j = None"
      using put_lookup(3) [OF wf ev, of j] u by (simp add: undecided_def)
  qed
  have "remembers j now (0, True) (snd (decided_put (tb_decided tb) ?i 0 True now))" if "j \<in> insert ?i ids" for j
  proof (cases "j = ?i")
    case True
    then show ?thesis using decided_since_new [OF wf none] by simp
  next
    case False
    then show ?thesis using put_remembers_other [OF wf _ _ ev, of j] r that by (simp add: recalled_def)
  qed
  then show "recalled now (insert ?i ids) (begin_trace now tr tb)" by (simp add: recalled_def)
qed

lemma begin_trace_pending:
  assumes inv: "tb_inv tb" and p: "pending_in ids tb"
  shows "pending_in (insert (bt_id tr) ids) (begin_trace now tr tb)"
  unfolding pending_in_def
proof (intro allI impI)
  fix j e
  assume "map_of (dt_m (tb_decided (begin_trace now tr tb))) j = Some e" "dc_pending e"
  then show "j \<in> insert (bt_id tr) ids"
    using put_lookup(2) [OF tb_invD(10) [OF inv], of j "bt_id tr" 0 True now e] p
    by (auto simp: pending_in_def)
qed

text \<open>All due traces: facts that hold after each one are collected by induction on the list.\<close>

definition begun :: "gotime \<Rightarrow> TraceBuffer \<Rightarrow> bufferedTrace list \<Rightarrow> TraceBuffer" where
  "begun now tb trs = fold (begin_trace now) trs tb"

lemma begun_simps [simp]:
  "begun now tb [] = tb" "begun now tb (tr # trs) = begun now (begin_trace now tr tb) trs"
  by (simp_all add: begun_def)

lemma begun_frame [simp]:
  "tb_seq (begun now tb trs) = tb_seq tb" "tb_maxSpans (begun now tb trs) = tb_maxSpans tb"
  "tb_carry (begun now tb trs) = tb_carry tb" "tb_ledger (begun now tb trs) = tb_ledger tb"
  "tb_rescuedAtCap (begun now tb trs) = tb_rescuedAtCap tb"
  "dt_ttl (tb_decided (begun now tb trs)) = dt_ttl (tb_decided tb)"
  by (induction trs arbitrary: tb) simp_all

lemma begun_traces: "tb_traces (begun now tb trs) = fold AList.delete (map bt_id trs) (tb_traces tb)"
  by (induction trs arbitrary: tb) simp_all

definition begin_ok :: "TraceBuffer \<Rightarrow> bufferedTrace list \<Rightarrow> bool" where
  "begin_ok tb trs \<longleftrightarrow> tb_inv tb \<and> distinct (map bt_id trs)
     \<and> (\<forall>tr \<in> set trs. map_of (tb_traces tb) (bt_id tr) = Some tr)"

lemma begin_ok_Cons:
  assumes "begin_ok tb (tr # trs)"
  shows "tb_inv tb" and "map_of (tb_traces tb) (bt_id tr) = Some tr" and "begin_ok (begin_trace now tr tb) trs"
proof -
  show 1: "tb_inv tb" "map_of (tb_traces tb) (bt_id tr) = Some tr" using assms by (simp_all add: begin_ok_def)
  show "begin_ok (begin_trace now tr tb) trs"
    using assms begin_trace_inv(1) [OF 1] by (auto simp: begin_ok_def AList.delete_conv' image_iff)
qed

lemma begun_inv:
  assumes "begin_ok tb trs"
  shows "tb_inv (begun now tb trs) \<and> evictions tb \<le> evictions (begun now tb trs)
    \<and> (dt_held (tb_decided tb) = [] \<longrightarrow> dt_held (tb_decided (begun now tb trs)) = [])"
  using assms
proof (induction trs arbitrary: tb)
  case Nil
  then show ?case by (simp add: begin_ok_def)
next
  case (Cons tr trs)
  note ok = begin_ok_Cons [OF Cons.prems]
  show ?case
    using Cons.IH [OF ok(3)] begin_trace_inv(2,3) [OF ok(1,2), of now] by (auto intro: order_trans)
qed

lemma begun_pending:
  "begin_ok tb trs \<Longrightarrow> pending_in ids tb \<Longrightarrow> pending_in (ids \<union> bt_id ` set trs) (begun now tb trs)"
proof (induction trs arbitrary: tb ids)
  case (Cons tr trs)
  note ok = begin_ok_Cons [OF Cons.prems(1)]
  show ?case
    using Cons.IH [OF ok(3) begin_trace_pending [OF ok(1) Cons.prems(2)]] by simp
qed simp

lemma begun_separate:
  assumes "begin_ok tb trs" and "undecided tb" and "recalled now ids tb"
    and "evictions (begun now tb trs) = evictions tb"
  shows "undecided (begun now tb trs) \<and> recalled now (ids \<union> bt_id ` set trs) (begun now tb trs)"
  using assms
proof (induction trs arbitrary: tb ids)
  case (Cons tr trs)
  note ok = begin_ok_Cons [OF Cons.prems(1)]
  have ev: "evictions (begin_trace now tr tb) = evictions tb"
    using begin_trace_inv(2) [OF ok(1,2), of now] begun_inv [OF ok(3) [of now], of now] Cons.prems(4) by simp
  note s = begin_trace_separate [OF ok(1,2) Cons.prems(2,3) ev]
  show ?case using Cons.IH [OF ok(3) s] Cons.prems(4) ev by simp
qed simp

lemma flush_begin_eq:
  assumes "flush_begin ord now all tb = (fl, tb')"
  shows "fl_todo fl = due_list ord now all tb" and "fl_decided fl = []"
    and "fl_kept fl = tb_rescuedAtCap tb"
    and "tb_traces tb' = tb_traces (begun now tb (fl_todo fl))" and "tb_seq tb' = tb_seq tb"
    and "tb_spanCount tb' = tb_spanCount (begun now tb (fl_todo fl))" and "tb_maxSpans tb' = tb_maxSpans tb"
    and "tb_carry tb' = tb_carry tb" and "tb_ledger tb' = tb_ledger tb" and "tb_rescuedAtCap tb' = []"
    and "tb_decided tb' = decided_expire (tb_decided (begun now tb (fl_todo fl))) now"
  using assms
  by (auto simp: flush_begin_def Let_def due_list_def begun_def [symmetric] pruneEvictionQueues_def
      takeLossWindow_def split: prod.splits)

lemma apart_empty: "apart {} tb \<longleftrightarrow> undecided tb \<and> dt_held (tb_decided tb) = []"
proof
  assume a: "apart {} tb"
  have "x \<notin> set (dt_held (tb_decided tb))" for x
    using a by (cases x) (auto simp: apart_def)
  then have "dt_held (tb_decided tb) = []" by (cases "dt_held (tb_decided tb)") auto
  then show "undecided tb \<and> dt_held (tb_decided tb) = []" using a by (auto simp: undecided_def apart_def)
qed (simp add: apart_def undecided_def)

lemma recalled_expire:
  assumes "recalled now ids tb" and "0 < dt_ttl (tb_decided tb)"
    and "tb_decided tb' = decided_expire (tb_decided tb) now"
  shows "flying ids tb'"
  unfolding flying_def
proof
  fix i
  assume "i \<in> ids"
  then obtain e where e: "map_of (dt_m (tb_decided tb)) i = Some e" "dc_pending e"
    "decided_since (tb_decided tb) i (dc_seq e) now"
    using assms(1) by (auto simp: recalled_def remembers_def)
  have "now - dt_ttl (tb_decided tb) < now" using assms(2) by simp
  from expire_keeps [OF e(1,3) this] e show "\<exists>e. map_of (dt_m (tb_decided tb')) i = Some e \<and> dc_pending e"
    using assms(3) by auto
qed

lemma flush_begin_inv:
  assumes inv: "tb_inv tb" and ord: "permutes ord" and b: "flush_begin ord now all tb = (fl, tb')"
  shows "begin_ok tb (fl_todo fl)" and "tb_inv tb'" and "evictions tb \<le> evictions tb'"
    and "pending_in {} tb \<Longrightarrow> pending_in (bt_id ` set (fl_todo fl)) tb'"
    and "apart {} tb \<Longrightarrow> 0 < dt_ttl (tb_decided tb) \<Longrightarrow> evictions tb' = evictions tb \<Longrightarrow>
        apart (bt_id ` set (fl_todo fl)) tb' \<and> flying (bt_id ` set (fl_todo fl)) tb'"
    and "\<forall>tr \<in> set (fl_todo fl). trace_ok tr"
proof -
  note eq = flush_begin_eq [OF b]
  show ok: "begin_ok tb (fl_todo fl)"
    using inv due_list_traces [OF inv ord, of now all] by (simp add: begin_ok_def eq(1))
  let ?tb = "begun now tb (fl_todo fl)"
  note bi = begun_inv [OF ok, of now]
  have wf: "decided_wf (tb_decided ?tb)" using bi tb_invD(10) by blast
  show "tb_inv tb'"
    by (rule tb_inv_cong [OF conjunct1 [OF bi]])
      (use eq expire_wf [OF wf] tb_invD(8,9) [OF inv] in simp_all)
  show "evictions tb \<le> evictions tb'" using bi eq(11) by simp
  have sub: "map_of (dt_m (tb_decided tb')) i = Some e \<Longrightarrow> map_of (dt_m (tb_decided ?tb)) i = Some e" for i e
    using expire_other [of "tb_decided ?tb" now i e] eq(11) by simp
  show "pending_in (bt_id ` set (fl_todo fl)) tb'" if "pending_in {} tb"
    using begun_pending [OF ok that, of now] sub by (auto simp: pending_in_def)
  show "\<forall>tr \<in> set (fl_todo fl). trace_ok tr"
    using ok tb_invD(3) [OF inv] by (auto simp: begin_ok_def)
  show "apart (bt_id ` set (fl_todo fl)) tb' \<and> flying (bt_id ` set (fl_todo fl)) tb'"
    if a: "apart {} tb" and ttl: "0 < dt_ttl (tb_decided tb)" and ev: "evictions tb' = evictions tb"
  proof -
    have a': "undecided tb" "dt_held (tb_decided tb) = []" using a by (simp_all add: apart_empty)
    have "evictions ?tb = evictions tb" using ev eq(11) by simp
    from begun_separate [OF ok a'(1) _ this, of "{}"]
    have s: "undecided ?tb" "recalled now (bt_id ` set (fl_todo fl)) ?tb" by (simp_all add: recalled_def)
    have "map_of (dt_m (tb_decided tb')) i = None" if "map_of (tb_traces tb') i = Some t" for i t
      using s(1) that eq(4) sub [of i] by (cases "map_of (dt_m (tb_decided tb')) i") (auto simp: undecided_def)
    moreover have "dt_held (tb_decided tb') = []" using bi a'(2) eq(11) by simp
    ultimately have "apart (bt_id ` set (fl_todo fl)) tb'" by (simp add: apart_def)
    then show ?thesis using recalled_expire [OF s(2) _ eq(11)] ttl by simp
  qed
qed

section \<open>Deciding, carrying, settling\<close>

lemma decide_one_Cons:
  assumes "fl_todo fl = tr # rest" and "keepWeight lk tb tr now = (w, tb1)"
  shows "decide_one lk now (fl, tb) =
    (if w > 0 then (fl\<lparr>fl_todo := rest, fl_decided := fl_decided fl @ [(bt_id tr, w)],
                      fl_kept := fl_kept fl @ [stampWeight tr w]\<rparr>, tb1)
     else (fl\<lparr>fl_todo := rest, fl_decided := fl_decided fl @ [(bt_id tr, w)]\<rparr>,
           tb1\<lparr>tb_ledger := tally_AddSpans (tb_ledger tb1) SampledOut (bt_spans tr) 1,
                tb_carry := carry_drop (tb_carry tb1) (tr\<lparr>bt_droppedAs := SampledOut\<rparr>) now\<rparr>))"
  using assms by (simp add: decide_one_def Let_def ledgerDropped_def)

lemma decide_one_inv:
  assumes inv: "tb_inv tb" and todo: "fl_todo fl = tr # rest" and ok: "trace_ok tr"
    and d: "decide_one lk now (fl, tb) = (fl', tb')"
  shows "tb_inv tb'" and "tb_traces tb' = tb_traces tb" and "tb_decided tb' = tb_decided tb"
    and "tb_rescuedAtCap tb' = tb_rescuedAtCap tb" and "fl_todo fl' = rest"
    and "map fst (fl_decided fl') = map fst (fl_decided fl) @ [bt_id tr]"
    and "tb_ledger tb' = None \<longleftrightarrow> tb_ledger tb = None"
proof -
  obtain w tb1 where k: "keepWeight lk tb tr now = (w, tb1)" by fastforce
  note D = tb_invD [OF inv] and e = decide_one_Cons [OF todo k]
  note ki = keepWeight_inv [OF D(8,9) k]
  have fr: "tb_traces tb1 = tb_traces tb" "tb_seq tb1 = tb_seq tb" "tb_spanCount tb1 = tb_spanCount tb"
    "tb_maxSpans tb1 = tb_maxSpans tb" "tb_decided tb1 = tb_decided tb" "tb_rescuedAtCap tb1 = tb_rescuedAtCap tb"
    "tb_ledger tb1 = tb_ledger tb"
    using keepWeight_simps [of lk tb tr now] k by simp_all
  have inv1: "tb_inv tb1" by (rule tb_inv_cong [OF inv]) (use fr ki D in simp_all)
  have carr: "carrier_ok (tr\<lparr>bt_droppedAs := SampledOut\<rparr>)" if "\<not> w > 0"
  proof -
    have "\<not> bt_hasError tr" using ki(4) that by auto
    then show ?thesis using ok by (auto simp: carrier_ok_def exit_columns_def trace_ok_def)
  qed
  show "tb_inv tb'"
  proof (cases "w > 0")
    case True
    then show ?thesis using d e inv1 by simp
  next
    case False
    have "tb' = tb1\<lparr>tb_ledger := tally_AddSpans (tb_ledger tb1) SampledOut (bt_spans tr) 1,
                tb_carry := carry_drop (tb_carry tb1) (tr\<lparr>bt_droppedAs := SampledOut\<rparr>) now\<rparr>"
      using d e False by simp
    then show ?thesis
      using carry_wf_drop [OF ki(1)] carriers_ok_drop [OF ki(1,2) carr [OF False]] D(10) fr
      by (intro tb_inv_cong [OF inv1]) simp_all
  qed
  show "tb_traces tb' = tb_traces tb" "tb_decided tb' = tb_decided tb" "tb_rescuedAtCap tb' = tb_rescuedAtCap tb"
    "fl_todo fl' = rest" "map fst (fl_decided fl') = map fst (fl_decided fl) @ [bt_id tr]"
    "tb_ledger tb' = None \<longleftrightarrow> tb_ledger tb = None"
    using d e fr by (auto split: if_splits)
qed

lemma ledgerCarriers_simps [simp]:
  "tb_traces (ledgerCarriers tb trs) = tb_traces tb" "tb_decided (ledgerCarriers tb trs) = tb_decided tb"
  "tb_rescuedAtCap (ledgerCarriers tb trs) = tb_rescuedAtCap tb" "tb_carry (ledgerCarriers tb trs) = tb_carry tb"
  "tb_seq (ledgerCarriers tb trs) = tb_seq tb" "tb_spanCount (ledgerCarriers tb trs) = tb_spanCount tb"
  "tb_maxSpans (ledgerCarriers tb trs) = tb_maxSpans tb"
  by (simp_all add: ledgerCarriers_def)

lemma fold_tally_live:
  "fold (\<lambda>tr t. tally_AddSpans t (bt_droppedAs tr) (bt_spans tr) (- 1)) trs t = None \<longleftrightarrow> t = None"
  by (induction trs arbitrary: t) simp_all

lemma flush_carriers_inv:
  assumes inv: "tb_inv tb" and ord: "permutes ord" and c: "flush_carriers ord now all (fl, tb) = (fl', tb')"
  obtains carriers c' where "carry_expired ord (tb_carry tb) now all = (carriers, c')"
    and "fl' = fl\<lparr>fl_kept := fl_kept fl @ carriers\<rparr>" and "tb' = ledgerCarriers (tb\<lparr>tb_carry := c'\<rparr>) carriers"
    and "\<forall>tr \<in> set carriers. carrier_ok tr \<and> hasRoot tr" and "tb_inv tb'"
proof -
  note D = tb_invD [OF inv]
  obtain carriers c' where e: "carry_expired ord (tb_carry tb) now all = (carriers, c')" by fastforce
  note p = carry_expired_props [OF D(8) ord e]
  have "carriers_ok c'" using D(9) p(3) unfolding carriers_ok_def by blast
  then have "tb_inv (ledgerCarriers (tb\<lparr>tb_carry := c'\<rparr>) carriers)"
    by (intro tb_inv_cong [OF inv]) (use p(1) D(10) in simp_all)
  moreover have "carrier_ok tr \<and> hasRoot tr" if tr: "tr \<in> set carriers" for tr
  proof -
    obtain k e t where e: "(k, e) \<in> set (ct_m (tb_carry tb))" "ce_held e = Some t" "tr = stampWeight t (ce_dropped e)"
      using p(4) [OF tr] by blast
    then have "carrier_ok t" using D(9) by (simp add: carriers_ok_def)
    moreover have "hasRoot t" using e D(8) by (auto simp: carry_wf_def entry_ok_def split: option.splits)
    ultimately show ?thesis
      using e(3) by (auto simp: carrier_ok_def is_error_def stampWeight_def hasRoot_def)
  qed
  ultimately show ?thesis
    using that [OF e] c by (auto simp: flush_carriers_def e Let_def)
qed

text \<open>Settling one decision: the spans held for it are followed one by one.\<close>

lemma settle_held_eq:
  "settle_held rec tb = tb\<lparr>tb_decided := follow_state (tb_decided tb) (tb_ledger tb) rec,
     tb_ledger := follow_tally (tb_decided tb) (tb_ledger tb) rec\<rparr>"
  by (simp add: settle_held_def split: prod.splits)

lemma settle_held_simps [simp]:
  "tb_traces (settle_held rec tb) = tb_traces tb" "tb_rescuedAtCap (settle_held rec tb) = tb_rescuedAtCap tb"
  "tb_carry (settle_held rec tb) = tb_carry tb" "tb_seq (settle_held rec tb) = tb_seq tb"
  "tb_spanCount (settle_held rec tb) = tb_spanCount tb" "tb_maxSpans (settle_held rec tb) = tb_maxSpans tb"
  "dt_evicted (tb_decided (settle_held rec tb)) = dt_evicted (tb_decided tb)"
  "dt_ttl (tb_decided (settle_held rec tb)) = dt_ttl (tb_decided tb)"
  by (simp_all add: settle_held_eq)

definition settled :: "string \<Rightarrow> TraceBuffer \<Rightarrow> bool" where
  "settled i tb \<longleftrightarrow> (\<exists>e. map_of (dt_m (tb_decided tb)) i = Some e \<and> \<not> dc_pending e)"

lemma settle_held_inv:
  "tb_inv tb \<Longrightarrow> tb_inv (settle_held rec tb)"
  "pending_in ids tb \<Longrightarrow> pending_in ids (settle_held rec tb)"
proof -
  show "tb_inv (settle_held rec tb)" if inv: "tb_inv tb"
    by (rule tb_inv_cong [OF inv]) (use follow_wf tb_invD [OF inv] in \<open>simp_all add: settle_held_eq\<close>)
  show "pending_in ids (settle_held rec tb)" if "pending_in ids tb"
    using that by (auto simp: pending_in_def settle_held_eq follow_lookup split: option.splits if_splits)
qed

lemma settle_held_step:
  assumes inv: "tb_inv tb" and s: "settled (sr_TraceID rec) tb"
  shows "settled i (settle_held rec tb) = settled i tb"
    and "dt_held (tb_decided (settle_held rec tb)) = dt_held (tb_decided tb)"
    and "(map_of (dt_m (tb_decided (settle_held rec tb))) i = None) = (map_of (dt_m (tb_decided tb)) i = None)"
    and "(\<exists>e. map_of (dt_m (tb_decided (settle_held rec tb))) i = Some e \<and> dc_pending e) =
       (\<exists>e. map_of (dt_m (tb_decided tb)) i = Some e \<and> dc_pending e)"
    and "fst (decided_follow (tb_decided tb) (tb_ledger tb) rec)"
    and "tb_ledger (settle_held rec tb) = None \<longleftrightarrow> tb_ledger tb = None"
proof -
  show "settled i (settle_held rec tb) = settled i tb"
    "(map_of (dt_m (tb_decided (settle_held rec tb))) i = None) = (map_of (dt_m (tb_decided tb)) i = None)"
    "(\<exists>e. map_of (dt_m (tb_decided (settle_held rec tb))) i = Some e \<and> dc_pending e) =
       (\<exists>e. map_of (dt_m (tb_decided tb)) i = Some e \<and> dc_pending e)"
    by (auto simp: settle_held_eq follow_lookup settled_def split: option.splits)
  show "dt_held (tb_decided (settle_held rec tb)) = dt_held (tb_decided tb)"
    using s by (auto simp: settle_held_eq follow_held settled_def)
  show "fst (decided_follow (tb_decided tb) (tb_ledger tb) rec)"
    using s by (auto simp: follow_known settled_def not_None_eq)
  show "tb_ledger (settle_held rec tb) = None \<longleftrightarrow> tb_ledger tb = None"
    by (simp add: settle_held_eq follow_tally_eq)
qed

lemma settle_helds:
  assumes "tb_inv tb" and "settled i tb" and "\<forall>rec \<in> set recs. sr_TraceID rec = i"
  shows "(\<forall>j. settled j (fold settle_held recs tb) = settled j tb)
    \<and> dt_held (tb_decided (fold settle_held recs tb)) = dt_held (tb_decided tb)
    \<and> (\<forall>j. (map_of (dt_m (tb_decided (fold settle_held recs tb))) j = None) = (map_of (dt_m (tb_decided tb)) j = None))
    \<and> (\<forall>j. (\<exists>e. map_of (dt_m (tb_decided (fold settle_held recs tb))) j = Some e \<and> dc_pending e) =
         (\<exists>e. map_of (dt_m (tb_decided tb)) j = Some e \<and> dc_pending e))
    \<and> (tb_ledger (fold settle_held recs tb) = None \<longleftrightarrow> tb_ledger tb = None)"
  using assms
proof (induction recs arbitrary: tb)
  case (Cons rec recs)
  have s: "settled (sr_TraceID rec) tb" using Cons.prems by simp
  note st = settle_held_step [OF Cons.prems(1) s]
  have "settled i (settle_held rec tb)" using st(1) Cons.prems(2) by simp
  from Cons.IH [OF settle_held_inv(1) [OF Cons.prems(1)] this] Cons.prems(3) show ?case using st(1-4,6) by simp
qed simp

lemma fold_settle_held_frame [simp]:
  "tb_traces (fold settle_held recs tb) = tb_traces tb"
  "tb_rescuedAtCap (fold settle_held recs tb) = tb_rescuedAtCap tb"
  "tb_carry (fold settle_held recs tb) = tb_carry tb"
  "dt_evicted (tb_decided (fold settle_held recs tb)) = dt_evicted (tb_decided tb)"
  "dt_ttl (tb_decided (fold settle_held recs tb)) = dt_ttl (tb_decided tb)"
  by (induction recs arbitrary: tb) simp_all

lemma settle_one_eq:
  "settle_one now (i, w) tb = fold settle_held (held_of (tb_decided tb) i)
     (tb\<lparr>tb_decided := snd (decided_put (tb_decided tb) i w False now)\<rparr>)"
  by (simp add: settle_one_def case_prod_beta)

lemma settle_one_frame [simp]:
  "tb_traces (settle_one now iw tb) = tb_traces tb"
  "tb_rescuedAtCap (settle_one now iw tb) = tb_rescuedAtCap tb"
  "tb_carry (settle_one now iw tb) = tb_carry tb"
  "dt_ttl (tb_decided (settle_one now iw tb)) = dt_ttl (tb_decided tb)"
  by (cases iw; simp add: settle_one_eq)+

lemma fold_settle_held_inv:
  "tb_inv tb \<Longrightarrow> tb_inv (fold settle_held recs tb)"
  "pending_in ids tb \<Longrightarrow> pending_in ids (fold settle_held recs tb)"
  by (induction recs arbitrary: tb) (simp_all add: settle_held_inv)

lemma settle_one_inv:
  assumes inv: "tb_inv tb"
  shows "tb_inv (settle_one now (i, w) tb)" and "evictions tb \<le> evictions (settle_one now (i, w) tb)"
    and "pending_in ids tb \<Longrightarrow> pending_in (ids - {i}) (settle_one now (i, w) tb)"
proof -
  note wf = tb_invD(10) [OF inv]
  let ?tb = "tb\<lparr>tb_decided := snd (decided_put (tb_decided tb) i w False now)\<rparr>"
  have inv1: "tb_inv ?tb" by (rule tb_inv_cong [OF inv]) (use decided_wf_put [OF wf] tb_invD [OF inv] in simp_all)
  then show "tb_inv (settle_one now (i, w) tb)" by (simp add: settle_one_eq fold_settle_held_inv)
  show "evictions tb \<le> evictions (settle_one now (i, w) tb)"
    using put_evicted [OF wf] by (simp add: settle_one_eq)
  have "pending_in (ids - {i}) ?tb" if p: "pending_in ids tb"
    unfolding pending_in_def
  proof (intro allI impI)
    fix j e
    assume j: "map_of (dt_m (tb_decided ?tb)) j = Some e" "dc_pending e"
    then have "j \<noteq> i" using put_lookup(1) [OF wf, of i w False now] by auto
    then show "j \<in> ids - {i}" using put_lookup(2) [OF wf, of j i w False now e] j p by (auto simp: pending_in_def)
  qed
  then show "pending_in ids tb \<Longrightarrow> pending_in (ids - {i}) (settle_one now (i, w) tb)"
    by (simp add: settle_one_eq fold_settle_held_inv)
qed

lemma settle_one_separate:
  assumes inv: "tb_inv tb" and a: "apart ids tb" and fl: "flying ids tb" and i: "i \<in> ids"
  shows "apart (ids - {i}) (settle_one now (i, w) tb)" and "flying (ids - {i}) (settle_one now (i, w) tb)"
    and "tb_ledger (settle_one now (i, w) tb) = None \<longleftrightarrow> tb_ledger tb = None"
    and "\<forall>rec \<in> set (held_of (tb_decided tb) i). sr_TraceID rec = i"
    and "settled i (tb\<lparr>tb_decided := snd (decided_put (tb_decided tb) i w False now)\<rparr>)"
    and "tb_inv (tb\<lparr>tb_decided := snd (decided_put (tb_decided tb) i w False now)\<rparr>)"
proof -
  note wf = tb_invD(10) [OF inv]
  let ?d = "tb_decided tb" and ?p = "snd (decided_put (tb_decided tb) i w False now)"
  let ?tb = "tb\<lparr>tb_decided := ?p\<rparr>"
  obtain e where e: "map_of (dt_m ?d) i = Some e" using fl i by (auto simp: flying_def)
  have p: "dt_m ?p = AList.update i (e\<lparr>dc_weight := w, dc_pending := False\<rparr>) (dt_m ?d)"
    using e by (simp add: decided_put_def Let_def)
  show inv1: "tb_inv ?tb" by (rule tb_inv_cong [OF inv]) (use decided_wf_put [OF wf] tb_invD [OF inv] in simp_all)
  show s: "settled i ?tb" by (simp add: settled_def p AList.update_conv')
  show own: "\<forall>rec \<in> set (held_of ?d i). sr_TraceID rec = i"
  proof (cases "map_of (dt_held ?d) i")
    case (Some xs)
    then show ?thesis using a map_of_SomeD [OF Some] by (simp add: apart_def held_of_def)
  qed (simp add: held_of_def)
  note sh = settle_helds [OF inv1 s own]
  let ?r = "settle_one now (i, w) tb"
  have none: "map_of (dt_m (tb_decided ?r)) j = None \<longleftrightarrow> map_of (dt_m ?d) j = None" for j
    using sh e by (simp add: settle_one_eq p AList.update_conv')
  have pend: "(\<exists>e. map_of (dt_m (tb_decided ?r)) j = Some e \<and> dc_pending e) \<longleftrightarrow>
      (\<exists>e. map_of (dt_m ?d) j = Some e \<and> dc_pending e)" if "j \<noteq> i" for j
    using sh that by (simp add: settle_one_eq p AList.update_conv')
  have held: "dt_held (tb_decided ?r) = AList.delete i (dt_held ?d)" using sh by (simp add: settle_one_eq)
  show "tb_ledger ?r = None \<longleftrightarrow> tb_ledger tb = None" using sh by (simp add: settle_one_eq)
  show "flying (ids - {i}) ?r" using fl pend by (simp add: flying_def)
  show "apart (ids - {i}) ?r"
    unfolding apart_def
  proof (intro conjI allI impI)
    fix j t
    assume "map_of (tb_traces ?r) j = Some t"
    then show "map_of (dt_m (tb_decided ?r)) j = None" using a none [of j] by (simp add: apart_def)
  next
    fix j xs
    assume "(j, xs) \<in> set (dt_held (tb_decided ?r))"
    then have "j \<noteq> i" "(j, xs) \<in> set (dt_held ?d)" by (simp_all add: held set_delete)
    then show "j \<in> ids - {i}" "\<exists>e. map_of (dt_m (tb_decided ?r)) j = Some e \<and> dc_pending e"
      "\<forall>rec \<in> set xs. sr_TraceID rec = j"
      using a pend [of j] by (simp_all add: apart_def)
  qed
qed

lemma takeLate_state:
  "tb_inv tb \<Longrightarrow> tb_inv (tb\<lparr>tb_decided := snd (decided_takeLate (tb_decided tb))\<rparr>)"
  "pending_in ids (tb\<lparr>tb_decided := snd (decided_takeLate (tb_decided tb))\<rparr>) = pending_in ids tb"
  "apart ids (tb\<lparr>tb_decided := snd (decided_takeLate (tb_decided tb))\<rparr>) = apart ids tb"
  "flying ids (tb\<lparr>tb_decided := snd (decided_takeLate (tb_decided tb))\<rparr>) = flying ids tb"
  by (simp_all add: decided_takeLate_def tb_inv_def pending_in_def apart_def flying_def)

lemma settle_eq:
  assumes "settle now ws tb = (late, tb')"
  shows "late = dt_late (tb_decided (fold (settle_one now) ws tb))"
    and "tb' = (fold (settle_one now) ws tb)\<lparr>tb_decided :=
        snd (decided_takeLate (tb_decided (fold (settle_one now) ws tb)))\<rparr>"
  using assms by (auto simp: settle_def Let_def decided_takeLate_def)

lemma fold_settle_one_frame [simp]:
  "tb_traces (fold (settle_one now) ws tb) = tb_traces tb"
  "tb_rescuedAtCap (fold (settle_one now) ws tb) = tb_rescuedAtCap tb"
  "tb_carry (fold (settle_one now) ws tb) = tb_carry tb"
  "dt_ttl (tb_decided (fold (settle_one now) ws tb)) = dt_ttl (tb_decided tb)"
  by (induction ws arbitrary: tb) simp_all

lemma fold_settle_one_inv:
  assumes "tb_inv tb"
  shows "tb_inv (fold (settle_one now) ws tb) \<and> evictions tb \<le> evictions (fold (settle_one now) ws tb)
    \<and> (pending_in ids tb \<longrightarrow> pending_in (ids - fst ` set ws) (fold (settle_one now) ws tb))"
  using assms
proof (induction ws arbitrary: tb ids)
  case (Cons iw ws)
  obtain i w where iw: "iw = (i, w)" by fastforce
  note so = settle_one_inv [OF Cons.prems]
  have "ids - {i} - fst ` set ws = ids - fst ` set (iw # ws)" using iw by auto
  with Cons.IH [OF so(1) [of now i w], of "ids - {i}"] so(2) [of now i w] so(3) [of ids i now w] show ?case by (auto simp: iw)
qed simp

lemma fold_settle_one_separate:
  assumes "tb_inv tb" and "apart ids tb" and "flying ids tb" and "distinct (map fst ws)" and "fst ` set ws \<subseteq> ids"
  shows "apart (ids - fst ` set ws) (fold (settle_one now) ws tb)
    \<and> (tb_ledger (fold (settle_one now) ws tb) = None \<longleftrightarrow> tb_ledger tb = None)"
  using assms
proof (induction ws arbitrary: tb ids)
  case (Cons iw ws)
  obtain i w where iw: "iw = (i, w)" by fastforce
  have i: "i \<in> ids" using Cons.prems(5) iw by simp
  note so = settle_one_separate [OF Cons.prems(1-3) i]
  have "ids - {i} - fst ` set ws = ids - fst ` set (iw # ws)" using iw by auto
  moreover have "fst ` set ws \<subseteq> ids - {i}" using Cons.prems(4,5) iw by auto
  ultimately show ?case
    using Cons.IH [OF settle_one_inv(1) [OF Cons.prems(1)] so(1,2)] so(3) Cons.prems(4) iw by auto
qed simp

lemma settle_inv:
  assumes inv: "tb_inv tb" and s: "settle now ws tb = (late, tb')"
  shows "tb_inv tb'" and "evictions tb \<le> evictions tb'"
    and "pending_in (fst ` set ws) tb \<Longrightarrow> pending_in {} tb'"
    and "apart (fst ` set ws) tb \<Longrightarrow> flying (fst ` set ws) tb \<Longrightarrow> distinct (map fst ws) \<Longrightarrow> apart {} tb'"
    and "apart (fst ` set ws) tb \<Longrightarrow> flying (fst ` set ws) tb \<Longrightarrow> distinct (map fst ws) \<Longrightarrow>
       tb_ledger tb' = None \<longleftrightarrow> tb_ledger tb = None"
proof -
  note e = settle_eq [OF s]
  let ?tb = "fold (settle_one now) ws tb"
  note fi = fold_settle_one_inv [OF inv, of now ws]
  show "tb_inv tb'" unfolding e(2) by (rule takeLate_state(1)) (use fi in blast)
  show "evictions tb \<le> evictions tb'" using fi unfolding e(2) by (simp add: decided_takeLate_def)
  show "pending_in {} tb'" if "pending_in (fst ` set ws) tb"
    unfolding e(2) takeLate_state(2) using fi [of "fst ` set ws"] that by simp
  show "apart {} tb'" "tb_ledger tb' = None \<longleftrightarrow> tb_ledger tb = None"
    if "apart (fst ` set ws) tb" "flying (fst ` set ws) tb" "distinct (map fst ws)"
    using fold_settle_one_separate [OF inv that(1,2,3) subset_refl, of now] unfolding e(2) takeLate_state(3)
    by simp_all
qed

section \<open>Accounts through a flush\<close>

context exit_account
begin

lemma begin_trace_account:
  assumes inv: "tb_inv tb" and tr: "map_of (tb_traces tb) (bt_id tr) = Some tr" and h: "dt_held (tb_decided tb) = []"
  shows "account (begin_trace now tr tb) + spans_total (bt_spans tr) = account tb"
proof -
  have "decided_total (snd (decided_put (tb_decided tb) (bt_id tr) 0 True now)) = decided_total (tb_decided tb)"
    using put_total [OF tb_invD(10) [OF inv], of "bt_id tr" 0 True now] h by (simp add: held_of_def)
  then show ?thesis
    using trace_split [OF tb_invD(1) [OF inv] tr] by (simp add: account_def buffer_total ac_simps)
qed

lemma begun_account:
  "begin_ok tb trs \<Longrightarrow> dt_held (tb_decided tb) = [] \<Longrightarrow>
   account (begun now tb trs) + spans_total (traces_spans trs) = account tb"
proof (induction trs arbitrary: tb)
  case (Cons tr trs)
  note ok = begin_ok_Cons [OF Cons.prems(1)]
  show ?case
    using Cons.IH [OF ok(3) [of now] begin_trace_inv(3) [OF ok(1,2) Cons.prems(2)]]
      begin_trace_account [OF ok(1,2) Cons.prems(2), of now]
    by (simp add: ac_simps)
qed simp

lemma flush_begin_account:
  assumes inv: "tb_inv tb" and ord: "permutes ord" and b: "flush_begin ord now all tb = (fl, tb')"
    and a: "apart {} tb"
  shows "account tb' + spans_total (traces_spans (fl_todo fl)) + spans_total (traces_spans (fl_kept fl)) = account tb"
proof -
  note eq = flush_begin_eq [OF b]
  let ?tb = "begun now tb (fl_todo fl)"
  have "account tb' + spans_total (traces_spans (tb_rescuedAtCap tb)) = account ?tb"
    by (simp add: account_def buffer_total eq ac_simps)
  moreover have "account ?tb + spans_total (traces_spans (fl_todo fl)) = account tb"
    using begun_account [OF flush_begin_inv(1) [OF inv ord b]] a by (simp add: apart_empty)
  ultimately show ?thesis using eq(3) by (metis add.assoc add.commute)
qed

lemma decide_one_account:
  assumes inv: "tb_inv tb" and todo: "fl_todo fl = tr # rest" and ok: "trace_ok tr" and live: "tb_ledger tb \<noteq> None"
    and d: "decide_one lk now (fl, tb) = (fl', tb')"
  shows "account tb' + spans_total (traces_spans (fl_todo fl')) + spans_total (traces_spans (fl_kept fl')) =
    account tb + spans_total (traces_spans (fl_todo fl)) + spans_total (traces_spans (fl_kept fl))"
proof -
  obtain w tb1 where k: "keepWeight lk tb tr now = (w, tb1)" by fastforce
  note D = tb_invD [OF inv] and e = decide_one_Cons [OF todo k]
  have fr: "tb_traces tb1 = tb_traces tb" "tb_decided tb1 = tb_decided tb" "tb_rescuedAtCap tb1 = tb_rescuedAtCap tb"
    "tb_ledger tb1 = tb_ledger tb"
    using keepWeight_simps [of lk tb tr now] k by simp_all
  show ?thesis
  proof (cases "w > 0")
    case True
    have "account tb1 = account tb" by (rule account_cong) (use fr in simp_all)
    then show ?thesis using True d e todo by (auto simp: ac_simps)
  next
    case False
    have "\<not> bt_hasError tr" using keepWeight_inv(4) [OF D(8,9) k] False by auto
    then have "\<forall>s \<in> set (bt_spans tr). \<not> is_error s" using ok by (auto simp: trace_ok_def)
    from X_exits_total [OF live _ this, of SampledOut]
    have "account tb' = account tb + spans_total (bt_spans tr)"
      using d e False fr by (auto simp: account_def buffer_spans_def exit_columns_def ac_simps)
    then show ?thesis using False d e todo by (auto simp: ac_simps)
  qed
qed

lemma carriers_account:
  assumes "t \<noteq> None" and "\<forall>tr \<in> set trs. carrier_ok tr"
  shows "X (fold (\<lambda>tr t. tally_AddSpans t (bt_droppedAs tr) (bt_spans tr) (- 1)) trs t)
    + spans_total (traces_spans trs) = X t"
  using assms
proof (induction trs arbitrary: t)
  case (Cons tr trs)
  let ?t = "tally_AddSpans t (bt_droppedAs tr) (bt_spans tr) (- 1)"
  have "X ?t + spans_total (bt_spans tr) = X t"
    using Cons.prems by (intro X_back_total) (auto simp: carrier_ok_def)
  moreover have "X (fold (\<lambda>tr t. tally_AddSpans t (bt_droppedAs tr) (bt_spans tr) (- 1)) trs ?t)
      + spans_total (traces_spans trs) = X ?t"
    by (rule Cons.IH) (use Cons.prems in simp_all)
  ultimately show ?case by (simp add: ac_simps)
qed simp

lemma flush_carriers_account:
  assumes inv: "tb_inv tb" and ord: "permutes ord" and live: "tb_ledger tb \<noteq> None"
    and c: "flush_carriers ord now all (fl, tb) = (fl', tb')"
  shows "account tb' + spans_total (traces_spans (fl_kept fl')) = account tb + spans_total (traces_spans (fl_kept fl))"
proof -
  obtain carriers c' where fl': "fl' = fl\<lparr>fl_kept := fl_kept fl @ carriers\<rparr>"
    and tb': "tb' = ledgerCarriers (tb\<lparr>tb_carry := c'\<rparr>) carriers" and ok: "\<forall>tr \<in> set carriers. carrier_ok tr \<and> hasRoot tr"
    using flush_carriers_inv [OF inv ord c] by metis
  have "X (tb_ledger tb') + spans_total (traces_spans carriers) = X (tb_ledger tb)"
    using carriers_account [OF live, of carriers] ok by (simp add: tb' ledgerCarriers_def)
  then have "account tb' + spans_total (traces_spans carriers) = account tb"
    by (simp add: account_def buffer_spans_def tb' add.assoc)
  then show ?thesis by (simp add: fl' ac_simps) (metis add.assoc add.commute)
qed

lemma settle_helds_account:
  assumes "tb_inv tb" and "settled i tb" and "\<forall>rec \<in> set recs. sr_TraceID rec = i" and "tb_ledger tb \<noteq> None"
  shows "account (fold settle_held recs tb) = account tb + spans_total recs"
  using assms
proof (induction recs arbitrary: tb)
  case (Cons rec recs)
  have s: "settled (sr_TraceID rec) tb" using Cons.prems by simp
  note st = settle_held_step [OF Cons.prems(1) s]
  have "settled i (settle_held rec tb)" using st(1) Cons.prems(2) by simp
  from Cons.IH [OF settle_held_inv(1) [OF Cons.prems(1)] this] Cons.prems(3,4) st(6)
  have "account (fold settle_held recs (settle_held rec tb)) = account (settle_held rec tb) + spans_total recs" by simp
  moreover have "account (settle_held rec tb) = account tb + f rec"
    by (rule follow_account [OF tb_invD(10) [OF Cons.prems(1)] Cons.prems(4) st(5) settle_held_eq])
  ultimately show ?case by (simp add: ac_simps)
qed simp

lemma settle_one_account:
  assumes inv: "tb_inv tb" and a: "apart ids tb" and fl: "flying ids tb" and i: "i \<in> ids" and live: "tb_ledger tb \<noteq> None"
  shows "account (settle_one now (i, w) tb) = account tb"
proof -
  note so = settle_one_separate [OF inv a fl i]
  let ?tb = "tb\<lparr>tb_decided := snd (decided_put (tb_decided tb) i w False now)\<rparr>"
  have "account (settle_one now (i, w) tb) = account ?tb + spans_total (held_of (tb_decided tb) i)"
    unfolding settle_one_eq by (rule settle_helds_account [OF so(6,5,4)]) (use live in simp)
  also have "\<dots> = account tb"
    using put_total [OF tb_invD(10) [OF inv], of i w False now] by (simp add: account_def buffer_total ac_simps)
  finally show ?thesis .
qed

lemma fold_settle_one_account:
  assumes "tb_inv tb" and "apart ids tb" and "flying ids tb" and "distinct (map fst ws)" and "fst ` set ws \<subseteq> ids"
    and "tb_ledger tb \<noteq> None"
  shows "account (fold (settle_one now) ws tb) = account tb"
  using assms
proof (induction ws arbitrary: tb ids)
  case (Cons iw ws)
  obtain i w where iw: "iw = (i, w)" by fastforce
  have i: "i \<in> ids" using Cons.prems(5) iw by simp
  note so = settle_one_separate [OF Cons.prems(1-3) i]
  have "fst ` set ws \<subseteq> ids - {i}" using Cons.prems(4,5) iw by auto
  then show ?case
    using Cons.IH [OF settle_one_inv(1) [OF Cons.prems(1)] so(1,2)] so(3) Cons.prems(4,6)
      settle_one_account [OF Cons.prems(1-3) i Cons.prems(6)] iw by simp
qed simp

lemma settle_account:
  assumes "tb_inv tb" and "apart (fst ` set ws) tb" and "flying (fst ` set ws) tb" and "distinct (map fst ws)"
    and "tb_ledger tb \<noteq> None" and s: "settle now ws tb = (late, tb')"
  shows "account tb' + spans_total late = account tb"
proof -
  note e = settle_eq [OF s]
  let ?tb = "fold (settle_one now) ws tb"
  have "account tb' + spans_total late = account ?tb"
    using takeLate_total [of "tb_decided ?tb"] unfolding e account_def buffer_total
    by (simp add: decided_takeLate_def ac_simps)
  then show ?thesis using fold_settle_one_account [OF assms(1-4) subset_refl assms(5), of now] by simp
qed

end

end
