(* ===== verification/TraceCount.thy ===== *)
theory TraceCount
  imports TraceBufferFlush
begin

text \<open>
  Counting traces. \<open>trace_count\<close> is the number of rooted traces the buffer still has to count in
  a stored weight: those buffered, the weight of those rescued at the cap, the drops waiting
  for a carrier, and the drops given up as uncarried. Every operation keeps it, up to the
  traces that gain their root and the traces handed to delivery.
\<close>

declare map_of_eq_Some_iff [simp del] not_None_eq [iff del]

definition root_one :: "bufferedTrace \<Rightarrow> int" where
  "root_one tr = (if hasRoot tr then 1 else 0)"

definition rooted_count :: "bufferedTrace list \<Rightarrow> int" where
  "rooted_count trs = (\<Sum>tr\<leftarrow>trs. root_one tr)"

definition rooted_weight :: "bufferedTrace list \<Rightarrow> int" where
  "rooted_weight trs = (\<Sum>tr\<leftarrow>trs. if hasRoot tr then trace_weight tr else 0)"

definition carry_total :: "carryTally \<Rightarrow> int" where
  "carry_total c = pending_drops c + ct_uncarriedTotal c"

definition trace_count :: "TraceBuffer \<Rightarrow> int" where
  "trace_count tb = asum root_one (tb_traces tb) + rooted_weight (tb_rescuedAtCap tb) + carry_total (tb_carry tb)"

definition rooted_at :: "TraceBuffer \<Rightarrow> string \<Rightarrow> bool" where
  "rooted_at tb i = (case map_of (tb_traces tb) i of None \<Rightarrow> False | Some tr \<Rightarrow> hasRoot tr)"

lemma rooted_simps [simp]:
  "rooted_count [] = 0" "rooted_count (tr # trs) = root_one tr + rooted_count trs"
  "rooted_weight [] = 0"
  "rooted_weight (tr # trs) = (if hasRoot tr then trace_weight tr else 0) + rooted_weight trs"
  "rooted_weight (trs @ us) = rooted_weight trs + rooted_weight us"
  by (simp_all add: rooted_count_def rooted_weight_def)

lemma trace_count_cong:
  "tb_traces tb' = tb_traces tb \<Longrightarrow> tb_rescuedAtCap tb' = tb_rescuedAtCap tb \<Longrightarrow> tb_carry tb' = tb_carry tb
   \<Longrightarrow> trace_count tb' = trace_count tb"
  by (simp add: trace_count_def)

text \<open>A kept trace takes over the drops it carries; a dropped one adds itself to them.\<close>

lemma keepWeight_count:
  assumes wf: "carry_wf (tb_carry tb)" and k: "keepWeight lk tb tr now = (w, tb')" and ne: "bt_spans tr \<noteq> []" and "w \<noteq> 0"
  shows "rooted_weight [stampWeight tr w] + carry_total (tb_carry tb') = root_one tr + carry_total (tb_carry tb)"
proof -
  have sw: "rooted_weight [stampWeight tr w] = (if hasRoot tr then w else 0)"
    using trace_weight_stamp [OF ne, of w] by simp
  note t = carry_take_props [OF wf, of "bt_projectID tr" "traceOp tr"]
  show ?thesis
    by (cases rule: keepWeight_cases [OF k])
      (use \<open>w \<noteq> 0\<close> sw t in \<open>simp_all add: root_one_def carry_total_def\<close>)
qed

lemma drop_count:
  "carry_wf c \<Longrightarrow> bt_spans tr \<noteq> [] \<Longrightarrow>
   carry_total (carry_drop c (tr\<lparr>bt_droppedAs := col\<rparr>) now) = carry_total c + root_one tr"
  using pending_drop [of c "tr\<lparr>bt_droppedAs := col\<rparr>" now]
  by (simp add: carry_total_def root_one_def hasRoot_def)

lemma evicts_count:
  assumes inv: "tb_inv tb" and e: "evicts lk now tb i tr tb'"
  shows "trace_count tb' = trace_count tb"
proof -
  note D = tb_invD [OF inv]
  have i: "map_of (tb_traces tb) i = Some tr" and t': "tb_traces tb' = AList.delete i (tb_traces tb)"
    using e by (simp_all add: evicts_def)
  have ne: "bt_spans tr \<noteq> []" using D(3) [OF i] by (simp add: trace_ok_def)
  note sp = asum_split [OF D(1) i, of root_one]
  consider (rescued) w tb0 tb1 where "w \<noteq> 0" "tb_carry tb0 = tb_carry tb" "keepWeight lk tb0 tr now = (w, tb1)"
      "tb_carry tb' = tb_carry tb1" "tb_rescuedAtCap tb' = tb_rescuedAtCap tb @ [stampWeight tr w]"
    | (dropped) col where "tb_carry tb' = carry_drop (tb_carry tb) (tr\<lparr>bt_droppedAs := col\<rparr>) now"
      "tb_rescuedAtCap tb' = tb_rescuedAtCap tb"
    using e unfolding evicts_def by blast
  then show ?thesis
  proof cases
    case rescued
    then show ?thesis
      using keepWeight_count [of tb0 lk tr now w tb1] D(8) ne sp t' by (simp add: trace_count_def)
  next
    case dropped
    then show ?thesis using drop_count [OF D(8) ne] sp t' by (simp add: trace_count_def)
  qed
qed

lemma ensureRoom_count: "tb_inv tb \<Longrightarrow> trace_count (snd (ensureRoom lk now keep tb)) = trace_count tb"
  by (rule ensureRoom_evicts_induct [THEN conjunct2, of "\<lambda>tb'. trace_count tb' = trace_count tb"])
    (simp_all add: evicts_count, simp add: trace_count_def)

lemma inserts_count:
  assumes inv: "tb_inv tb" and ins: "inserts now tb rec tb'"
  shows "trace_count tb' = trace_count tb
    + (if rooted_at tb' (sr_TraceID rec) \<and> \<not> rooted_at tb (sr_TraceID rec) then 1 else 0)"
proof -
  let ?i = "sr_TraceID rec"
  obtain tr' where g: "grown now tb rec tr'" and t': "tb_traces tb' = AList.update ?i tr' (tb_traces tb)"
    and fr: "tb_carry tb' = tb_carry tb" "tb_rescuedAtCap tb' = tb_rescuedAtCap tb"
    using ins by (auto simp: inserts_def)
  have r: "rooted_at tb' ?i = hasRoot tr'" by (simp add: rooted_at_def t' AList.update_conv')
  have mono: "hasRoot tr \<Longrightarrow> hasRoot tr'" if "map_of (tb_traces tb) ?i = Some tr" for tr
    using g that by (auto simp: grown_def hasRoot_def root_time_def)
  have "asum root_one (tb_traces tb') = asum root_one (tb_traces tb)
      + (if rooted_at tb' ?i \<and> \<not> rooted_at tb ?i then 1 else 0)"
    unfolding t' asum_upsert [OF tb_invD(1) [OF inv]] r
    using mono by (auto simp: rooted_at_def root_one_def split: option.splits)
  then show ?thesis by (simp add: trace_count_def fr)
qed

lemma Add_count:
  assumes inv: "tb_inv tb"
  shows "trace_count (Add lk now rec tb) = trace_count tb
    + (if rooted_at (Add lk now rec tb) (sr_TraceID rec) \<and> \<not> rooted_at tb (sr_TraceID rec) then 1 else 0)"
proof -
  let ?tb = "accept_span tb rec"
  have inv0: "tb_inv ?tb" using inv by simp
  have acc: "trace_count ?tb = trace_count tb" by (rule trace_count_cong) simp_all
  show ?thesis
  proof (cases rule: Add_cases [OF inv, of rec lk now, case_names followed refused inserted])
    case followed
    then have t: "tb_traces (Add lk now rec tb) = tb_traces tb" by simp
    have "trace_count (Add lk now rec tb) = trace_count tb" by (rule trace_count_cong) (use followed(3) in simp_all)
    then show ?thesis using t by (simp add: rooted_at_def)
  next
    case (refused keep tb1)
    have "trace_count (refuse_span tb1 rec) = trace_count tb1" by (rule trace_count_cong) simp_all
    moreover have "trace_count tb1 = trace_count tb"
      using ensureRoom_count [OF inv0, of lk now keep] refused(1) acc by simp
    moreover have "rooted_at tb1 (sr_TraceID rec) \<Longrightarrow> rooted_at tb (sr_TraceID rec)"
      using ensureRoom_inv(3) [OF inv0, of lk now keep "sr_TraceID rec"] refused(1)
      by (auto simp: rooted_at_def split: option.splits)
    ultimately show ?thesis using refused(4) by (simp add: rooted_at_def)
  next
    case (inserted room keep tb1)
    have inv1: "tb_inv tb1" and c1: "trace_count tb1 = trace_count tb"
      using ensureRoom_inv(1) [OF inv0, of lk now keep] ensureRoom_count [OF inv0, of lk now keep] inserted(1) acc
      by simp_all
    have "rooted_at tb1 (sr_TraceID rec) = rooted_at tb (sr_TraceID rec)" using inserted(3) by (simp add: rooted_at_def)
    with inserts_count [OF inv1 inserted(5)] c1 show ?thesis by simp
  qed
qed

section \<open>Through a flush\<close>

lemma begun_count:
  "begin_ok tb trs \<Longrightarrow> trace_count (begun now tb trs) + rooted_count trs = trace_count tb"
proof (induction trs arbitrary: tb)
  case (Cons tr trs)
  note ok = begin_ok_Cons [OF Cons.prems]
  have "trace_count (begin_trace now tr tb) + root_one tr = trace_count tb"
    using asum_split [OF tb_invD(1) [OF ok(1)] ok(2), of root_one] by (simp add: trace_count_def)
  then show ?case using Cons.IH [OF ok(3) [of now]] by simp
qed simp

lemma flush_begin_count:
  assumes "tb_inv tb" and "permutes ord" and b: "flush_begin ord now all tb = (fl, tb')"
  shows "trace_count tb' + rooted_count (fl_todo fl) + rooted_weight (fl_kept fl) = trace_count tb"
  using begun_count [OF flush_begin_inv(1) [OF assms], of now] flush_begin_eq [OF b]
  by (simp add: trace_count_def)

lemma decide_one_count:
  assumes inv: "tb_inv tb" and todo: "fl_todo fl = tr # rest" and ok: "trace_ok tr"
    and d: "decide_one lk now (fl, tb) = (fl', tb')"
  shows "trace_count tb' + rooted_count (fl_todo fl') + rooted_weight (fl_kept fl') =
    trace_count tb + rooted_count (fl_todo fl) + rooted_weight (fl_kept fl)"
proof -
  obtain w tb1 where k: "keepWeight lk tb tr now = (w, tb1)" by fastforce
  note D = tb_invD [OF inv] and e = decide_one_Cons [OF todo k]
  have ne: "bt_spans tr \<noteq> []" using ok by (simp add: trace_ok_def)
  note ki = keepWeight_inv [OF D(8,9) k]
  have fr: "tb_traces tb1 = tb_traces tb" "tb_rescuedAtCap tb1 = tb_rescuedAtCap tb"
    using keepWeight_simps [of lk tb tr now] k by simp_all
  show ?thesis
  proof (cases "w > 0")
    case True
    then show ?thesis using keepWeight_count [OF D(8) k ne] d e todo fr by (auto simp: trace_count_def)
  next
    case False
    then have "w = 0" using ki(3) by simp
    then have "tb_carry tb1 = tb_carry tb" by (rule ki(5))
    then show ?thesis using False drop_count [OF D(8) ne] d e todo fr by (auto simp: trace_count_def)
  qed
qed

lemma rooted_weight_all: "\<forall>tr \<in> set trs. hasRoot tr \<Longrightarrow> rooted_weight trs = weight_sum trs"
  by (induction trs) simp_all

lemma flush_carriers_count:
  assumes inv: "tb_inv tb" and ord: "permutes ord" and c: "flush_carriers ord now all (fl, tb) = (fl', tb')"
  shows "trace_count tb' + rooted_weight (fl_kept fl') = trace_count tb + rooted_weight (fl_kept fl)"
proof -
  obtain carriers c' where e: "carry_expired ord (tb_carry tb) now all = (carriers, c')"
    and fl': "fl' = fl\<lparr>fl_kept := fl_kept fl @ carriers\<rparr>" and tb': "tb' = ledgerCarriers (tb\<lparr>tb_carry := c'\<rparr>) carriers"
    and ok: "\<forall>tr \<in> set carriers. carrier_ok tr \<and> hasRoot tr"
    using flush_carriers_inv [OF inv ord c] by metis
  have "rooted_weight carriers = weight_sum carriers" using ok by (intro rooted_weight_all) simp
  with carry_expired_props(2) [OF tb_invD(8) [OF inv] ord e] show ?thesis
    by (simp add: fl' tb' trace_count_def carry_total_def)
qed

lemma settle_count: "settle now ws tb = (late, tb') \<Longrightarrow> trace_count tb' = trace_count tb"
  using settle_eq [of now ws tb late tb'] by (intro trace_count_cong) simp_all

end
