(* ===== verification/RingQueue.thy ===== *)
theory RingQueue
  imports SpanModel
begin

text \<open>
  The in-memory span queue between the HTTP handler and the flusher
  (\<^verbatim>\<open>internal/ingest/queue.go\<close>): a ring buffer that refuses instead of blocking. The locale
  \<open>bounded_fifo\<close> is the contract its users rely on, a list of at most \<open>cap\<close> elements; the
  interpretation shows that the ring implements it. The specification \<open>fifo_enq\<close>, \<open>fifo_drain\<close> is that
  list itself, and every implementation of the contract gives the results the list gives.
\<close>

record Queue =
  q_buf :: "SpanRecord list"
  q_head :: nat
  q_count :: nat
  q_capacity :: nat

definition DefaultQueueCapacity :: int where
  "DefaultQueueCapacity = 32768"

definition NewQueue :: "int \<Rightarrow> Queue" where
  "NewQueue capacity =
     (let c = nat (if capacity \<le> 0 then DefaultQueueCapacity else capacity)
      in \<lparr>q_buf = replicate c zero_span, q_head = 0, q_count = 0, q_capacity = c\<rparr>)"

definition Enqueue :: "Queue \<Rightarrow> SpanRecord \<Rightarrow> bool \<times> Queue" where
  "Enqueue q rec =
     (if q_count q \<ge> q_capacity q then (False, q)
      else let idx = (q_head q + q_count q) mod q_capacity q
        in (True, q\<lparr>q_buf := (q_buf q)[idx := rec], q_count := q_count q + 1\<rparr>))"

definition Drain_queue :: "Queue \<Rightarrow> SpanRecord list \<times> Queue" where
  "Drain_queue q =
     (if q_count q = 0 then ([], q)
      else (map (\<lambda>i. q_buf q ! ((q_head q + i) mod q_capacity q)) [0..<q_count q],
            q\<lparr>q_head := 0, q_count := 0\<rparr>))"

definition Len :: "Queue \<Rightarrow> nat" where
  "Len q = q_count q"

section \<open>The contract\<close>

text \<open>
  A run of calls on a queue: \<open>Some x\<close> enqueues \<open>x\<close>, \<open>None\<close> drains. \<open>accepted\<close> are the elements
  whose enqueue succeeded.
\<close>

definition fifo_step :: "('q \<Rightarrow> 'a \<Rightarrow> bool \<times> 'q) \<Rightarrow> ('q \<Rightarrow> 'a list \<times> 'q) \<Rightarrow> 'q \<Rightarrow> 'a option
    \<Rightarrow> (bool \<times> 'a list) \<times> 'q" where
  "fifo_step enq drain q e = (case e of Some x \<Rightarrow> (let (ok, q') = enq q x in ((ok, []), q'))
     | None \<Rightarrow> (let (out, q') = drain q in ((True, out), q')))"

fun accepted :: "'a option list \<Rightarrow> (bool \<times> 'a list) list \<Rightarrow> 'a list" where
  "accepted (Some x # es) ((ok, _) # rs) = (if ok then x # accepted es rs else accepted es rs)"
| "accepted (None # es) (_ # rs) = accepted es rs"
| "accepted _ _ = []"

text \<open>The specification: a list that takes elements at its end while it has fewer than \<open>n\<close>.\<close>

definition fifo_enq :: "nat \<Rightarrow> 'a list \<Rightarrow> 'a \<Rightarrow> bool \<times> 'a list" where
  "fifo_enq n xs x = (if length xs < n then (True, xs @ [x]) else (False, xs))"

definition fifo_drain :: "'a list \<Rightarrow> 'a list \<times> 'a list" where
  "fifo_drain xs = (xs, [])"

locale bounded_fifo =
  fixes enq :: "'q \<Rightarrow> 'a \<Rightarrow> bool \<times> 'q"
    and drain :: "'q \<Rightarrow> 'a list \<times> 'q"
    and items :: "'q \<Rightarrow> 'a list"
    and cap :: "'q \<Rightarrow> nat"
    and invar :: "'q \<Rightarrow> bool"
  assumes enq_ok: "invar q \<Longrightarrow> length (items q) < cap q \<Longrightarrow>
      fst (enq q x) \<and> items (snd (enq q x)) = items q @ [x]"
    and enq_full: "invar q \<Longrightarrow> \<not> length (items q) < cap q \<Longrightarrow> enq q x = (False, q)"
    and drain_all: "invar q \<Longrightarrow> fst (drain q) = items q \<and> items (snd (drain q)) = []"
    and cap_enq: "invar q \<Longrightarrow> cap (snd (enq q x)) = cap q"
    and cap_drain: "invar q \<Longrightarrow> cap (snd (drain q)) = cap q"
    and invar_enq: "invar q \<Longrightarrow> invar (snd (enq q x))"
    and invar_drain: "invar q \<Longrightarrow> invar (snd (drain q))"
    and items_bound: "invar q \<Longrightarrow> length (items q) \<le> cap q"
begin

abbreviation op_step :: "'q \<Rightarrow> 'a option \<Rightarrow> (bool \<times> 'a list) \<times> 'q" where
  "op_step \<equiv> fifo_step enq drain"

lemma op_step_invar: "invar q \<Longrightarrow> invar (snd (op_step q e))"
  using invar_enq invar_drain
  by (auto simp: fifo_step_def split: option.splits prod.splits) (metis snd_conv)+

lemma op_step_enq:
  "fst (op_step q (Some x)) = (fst (enq q x), [])" "snd (op_step q (Some x)) = snd (enq q x)"
  by (simp_all add: fifo_step_def split: prod.splits)

lemma op_step_drain:
  "fst (op_step q None) = (True, fst (drain q))" "snd (op_step q None) = snd (drain q)"
  by (simp_all add: fifo_step_def split: prod.splits)

lemma run_fifo:
  "invar q \<Longrightarrow>
   concat (map snd (fst (run_ops op_step q es))) @ items (snd (run_ops op_step q es)) =
     items q @ accepted es (fst (run_ops op_step q es))"
proof (induction es arbitrary: q)
  case (Cons e es)
  have IH: "concat (map snd (fst (run_ops op_step (snd (op_step q e)) es)))
        @ items (snd (run_ops op_step (snd (op_step q e)) es)) =
      items (snd (op_step q e)) @ accepted es (fst (run_ops op_step (snd (op_step q e)) es))"
    using Cons.IH op_step_invar Cons.prems by blast
  show ?case
  proof (cases e)
    case None
    then show ?thesis
      using IH drain_all [OF Cons.prems]
      by (simp add: run_ops_Cons op_step_drain del: run_ops.simps)
  next
    case (Some x)
    have enq: "items (snd (enq q x)) = (if fst (enq q x) then items q @ [x] else items q)"
      using enq_ok [OF Cons.prems] enq_full [OF Cons.prems]
      by (cases "length (items q) < cap q") auto
    show ?thesis
      using IH enq Some
      by (cases "fst (enq q x)") (simp_all add: run_ops_Cons op_step_enq del: run_ops.simps)
  qed
qed simp

lemma op_step_cap: "invar q \<Longrightarrow> cap (snd (op_step q e)) = cap q"
  using cap_enq cap_drain by (cases e) (simp_all add: op_step_enq op_step_drain)

lemma op_step_spec:
  assumes "invar q"
  shows "fst (op_step q e) = fst (fifo_step (fifo_enq (cap q)) fifo_drain (items q) e)"
    and "items (snd (op_step q e)) = snd (fifo_step (fifo_enq (cap q)) fifo_drain (items q) e)"
proof -
  have "fst (enq q x) = fst (fifo_enq (cap q) (items q) x) \<and> items (snd (enq q x)) = snd (fifo_enq (cap q) (items q) x)" for x
    using enq_ok [OF assms] enq_full [OF assms] by (cases "length (items q) < cap q") (simp_all add: fifo_enq_def)
  moreover have "fst (drain q) = fst (fifo_drain (items q)) \<and> items (snd (drain q)) = snd (fifo_drain (items q))"
    using drain_all [OF assms] by (simp add: fifo_drain_def)
  ultimately show "fst (op_step q e) = fst (fifo_step (fifo_enq (cap q)) fifo_drain (items q) e)"
    and "items (snd (op_step q e)) = snd (fifo_step (fifo_enq (cap q)) fifo_drain (items q) e)"
    by (cases e; simp add: op_step_enq op_step_drain; simp add: fifo_step_def split: prod.splits)+
qed

lemma run_spec:
  "invar q \<Longrightarrow>
   fst (run_ops op_step q es) = fst (run_ops (fifo_step (fifo_enq (cap q)) fifo_drain) (items q) es)
   \<and> items (snd (run_ops op_step q es)) = snd (run_ops (fifo_step (fifo_enq (cap q)) fifo_drain) (items q) es)
   \<and> invar (snd (run_ops op_step q es)) \<and> cap (snd (run_ops op_step q es)) = cap q"
proof (induction es arbitrary: q)
  case (Cons e es)
  note s = op_step_spec [OF Cons.prems, of e] and i = op_step_invar [OF Cons.prems, of e] and c = op_step_cap [OF Cons.prems, of e]
  show ?case using Cons.IH [OF i] s c by (simp add: run_ops_Cons del: run_ops.simps)
qed simp

end

section \<open>The ring implements it\<close>

definition queue_items :: "Queue \<Rightarrow> SpanRecord list" where
  "queue_items q = map (\<lambda>i. q_buf q ! ((q_head q + i) mod q_capacity q)) [0..<q_count q]"

definition queue_wf :: "Queue \<Rightarrow> bool" where
  "queue_wf q \<longleftrightarrow> length (q_buf q) = q_capacity q \<and> q_head q < q_capacity q \<and> q_count q \<le> q_capacity q"

lemma ring_slots_distinct:
  "i < n \<Longrightarrow> n < c \<Longrightarrow> (h + i) mod c \<noteq> (h + n) mod (c :: nat)"
proof
  assume "i < n" "n < c" "(h + i) mod c = (h + n) mod c"
  then have "c dvd n - i"
    using mod_eq_dvd_iff_nat [of "h + i" "h + n" c] by simp
  with \<open>i < n\<close> have "c \<le> n - i" by (intro dvd_imp_le) simp_all
  with \<open>n < c\<close> show False by simp
qed

lemma queue_items_enq:
  assumes "queue_wf q" and "q_count q < q_capacity q"
  shows "queue_items (snd (Enqueue q x)) = queue_items q @ [x]"
proof -
  let ?c = "q_capacity q"
  have "(q_head q + q_count q) mod ?c < length (q_buf q)"
    using assms by (simp add: queue_wf_def)
  moreover have "(q_head q + q_count q) mod ?c \<noteq> (q_head q + i) mod ?c" if "i < q_count q" for i
    using ring_slots_distinct [OF that assms(2), of "q_head q"] by metis
  ultimately show ?thesis
    using assms(2) by (simp add: Enqueue_def Let_def queue_items_def)
qed

interpretation ring: bounded_fifo Enqueue Drain_queue queue_items q_capacity queue_wf
proof unfold_locales
  fix q x
  assume wf: "queue_wf q"
  have len: "length (queue_items q) = q_count q" by (simp add: queue_items_def)
  show "length (queue_items q) \<le> q_capacity q" using wf len by (simp add: queue_wf_def)
  show "length (queue_items q) < q_capacity q \<Longrightarrow>
      fst (Enqueue q x) \<and> queue_items (snd (Enqueue q x)) = queue_items q @ [x]"
    using queue_items_enq [OF wf] len by (auto simp: Enqueue_def Let_def)
  show "\<not> length (queue_items q) < q_capacity q \<Longrightarrow> Enqueue q x = (False, q)"
    using len by (simp add: Enqueue_def)
  show "fst (Drain_queue q) = queue_items q \<and> queue_items (snd (Drain_queue q)) = []"
    by (simp add: Drain_queue_def queue_items_def)
  show "q_capacity (snd (Enqueue q x)) = q_capacity q"
    by (simp add: Enqueue_def Let_def)
  show "q_capacity (snd (Drain_queue q)) = q_capacity q"
    by (simp add: Drain_queue_def)
  show "queue_wf (snd (Enqueue q x))" "queue_wf (snd (Drain_queue q))"
    using wf by (auto simp: queue_wf_def Enqueue_def Drain_queue_def Let_def)
qed

section \<open>Properties\<close>

lemma NewQueue_wf: "queue_wf (NewQueue c)" "queue_items (NewQueue c) = []"
  by (simp_all add: NewQueue_def Let_def queue_wf_def queue_items_def DefaultQueueCapacity_def)

lemma NewQueue_capacity: "q_capacity (NewQueue c) = nat (if c \<le> 0 then 32768 else c)"
  by (simp add: NewQueue_def Let_def DefaultQueueCapacity_def)

lemma Len_items: "Len q = length (queue_items q)"
  by (simp add: Len_def queue_items_def)

text \<open>
  C37: the span queue is a bounded first-in first-out queue. Over any sequence of enqueues (\<open>Some\<close>) and
  drains (\<open>None\<close>) on a new queue every call returns what the list specification of capacity \<open>c\<close>, or 32768
  for a capacity that is not positive, returns: \<^verbatim>\<open>Enqueue\<close> accepts exactly while fewer spans than that are
  queued, and \<^verbatim>\<open>Drain\<close> gives all of them in order. What is queued at the end is the list's content, \<^verbatim>\<open>Len\<close> is
  its length and never exceeds the capacity, and the spans drained followed by the spans still queued are
  the spans accepted.
\<close>

theorem queue_refines_bounded_fifo:
  "fst (run_ops (fifo_step Enqueue Drain_queue) (NewQueue c) es) =
     fst (run_ops (fifo_step (fifo_enq (nat (if c \<le> 0 then 32768 else c))) fifo_drain) [] es)
   \<and> queue_items (snd (run_ops (fifo_step Enqueue Drain_queue) (NewQueue c) es)) =
     snd (run_ops (fifo_step (fifo_enq (nat (if c \<le> 0 then 32768 else c))) fifo_drain) [] es)
   \<and> Len (snd (run_ops (fifo_step Enqueue Drain_queue) (NewQueue c) es)) =
     length (snd (run_ops (fifo_step (fifo_enq (nat (if c \<le> 0 then 32768 else c))) fifo_drain) [] es))
   \<and> Len (snd (run_ops (fifo_step Enqueue Drain_queue) (NewQueue c) es)) \<le> nat (if c \<le> 0 then 32768 else c)
   \<and> concat (map snd (fst (run_ops (fifo_step Enqueue Drain_queue) (NewQueue c) es)))
      @ queue_items (snd (run_ops (fifo_step Enqueue Drain_queue) (NewQueue c) es)) =
    accepted es (fst (run_ops (fifo_step Enqueue Drain_queue) (NewQueue c) es))"
  using ring.run_spec [OF NewQueue_wf(1), of c es] ring.run_fifo [OF NewQueue_wf(1), of c es]
    ring.items_bound [of "snd (run_ops (fifo_step Enqueue Drain_queue) (NewQueue c) es)"]
  by (simp only: NewQueue_wf NewQueue_capacity Len_items append_Nil simp_thms)

end
