(* ===== verification/TraceBufferRun.thy ===== *)
theory TraceBufferRun
  imports TraceCount RingQueue
begin

text \<open>
  Runs of the trace buffer: \<^verbatim>\<open>Add\<close> calls of any number of goroutines interleaved with the
  pieces of one flush at a time (the gc loop, or \<^verbatim>\<open>Close\<close> and \<^verbatim>\<open>Drain\<close>, which wait for the gc
  loop to end). Closing the buffer marks it closed. A step is a critical section of the buffer's lock, or
  between two of them the decision of one trace, the release of the carriers or one delivery; the smaller
  locks taken within a step are not interleaved. The step relation keeps a history of the spans added,
  the traces that gained their root and the batches handed to delivery; the properties compare it with
  the state. The sequential \<^verbatim>\<open>flush\<close> is a run of steps.
\<close>

declare map_of_eq_Some_iff [simp del] not_None_eq [iff del]

datatype phase =
    Idle
  | Deciding gotime bool flight
  | Settling gotime flight
  | Delivering "bufferedTrace list" "SpanRecord list" int

record history =
  hi_added :: "SpanRecord list"
  hi_roots :: int
  hi_traces :: "(bufferedTrace \<times> bool) list"
  hi_late :: "(SpanRecord list \<times> bool) list"

record system =
  sy_tb :: TraceBuffer
  sy_phase :: phase
  sy_hist :: history

definition start :: "TraceBuffer \<Rightarrow> system" where
  "start tb = \<lparr>sy_tb = tb, sy_phase = Idle,
     sy_hist = \<lparr>hi_added = [], hi_roots = 0, hi_traces = [], hi_late = []\<rparr>\<rparr>"

text \<open>One delivery attempt, and the count of undelivered spans at the end of a flush.\<close>

definition deliver_batch :: "bool \<Rightarrow> SpanRecord list \<Rightarrow> TraceBuffer \<Rightarrow> TraceBuffer" where
  "deliver_batch ok spans tb = snd (snd (deliver_one ok spans (0, 0, tb)))"

definition lost_spans :: "bool \<Rightarrow> SpanRecord list \<Rightarrow> int" where
  "lost_spans ok spans = (if ok then 0 else int (length spans))"

definition end_flush :: "int \<Rightarrow> TraceBuffer \<Rightarrow> TraceBuffer" where
  "end_flush n tb = (if n > 0 then tb\<lparr>tb_undeliverTotal := tb_undeliverTotal tb + n\<rparr> else tb)"

inductive tb_step :: "system \<Rightarrow> system \<Rightarrow> bool" where
  add: "tb_step s (s\<lparr>sy_tb := Add lk now rec (sy_tb s),
      sy_hist := (sy_hist s)\<lparr>hi_added := hi_added (sy_hist s) @ [rec],
        hi_roots := hi_roots (sy_hist s) + (if rooted_at (Add lk now rec (sy_tb s)) (sr_TraceID rec)
            \<and> \<not> rooted_at (sy_tb s) (sr_TraceID rec) then 1 else 0)\<rparr>\<rparr>)"
| begin_flush: "sy_phase s = Idle \<Longrightarrow> permutes ord \<Longrightarrow> flush_begin ord now all (sy_tb s) = (fl, tb) \<Longrightarrow>
    tb_step s (s\<lparr>sy_tb := tb, sy_phase := Deciding now all fl\<rparr>)"
| decide: "sy_phase s = Deciding now all fl \<Longrightarrow> fl_todo fl = tr # rest \<Longrightarrow>
    decide_one lk now (fl, sy_tb s) = (fl', tb) \<Longrightarrow>
    tb_step s (s\<lparr>sy_tb := tb, sy_phase := Deciding now all fl'\<rparr>)"
| carry: "sy_phase s = Deciding now all fl \<Longrightarrow> fl_todo fl = [] \<Longrightarrow> permutes ord \<Longrightarrow>
    flush_carriers ord now all (fl, sy_tb s) = (fl', tb) \<Longrightarrow>
    tb_step s (s\<lparr>sy_tb := tb, sy_phase := Settling now fl'\<rparr>)"
| settle: "sy_phase s = Settling now fl \<Longrightarrow> settle now (fl_decided fl) (sy_tb s) = (late, tb) \<Longrightarrow>
    tb_step s (s\<lparr>sy_tb := tb, sy_phase := Delivering (fl_kept fl) late 0\<rparr>)"
| deliver_trace: "sy_phase s = Delivering (tr # kept) late n \<Longrightarrow>
    tb_step s (s\<lparr>sy_tb := deliver_batch ok (bt_spans tr) (sy_tb s),
      sy_phase := Delivering kept late (n + lost_spans ok (bt_spans tr)),
      sy_hist := (sy_hist s)\<lparr>hi_traces := hi_traces (sy_hist s) @ [(tr, ok)]\<rparr>\<rparr>)"
| deliver_late: "sy_phase s = Delivering [] late n \<Longrightarrow> late \<noteq> [] \<Longrightarrow>
    tb_step s (s\<lparr>sy_tb := deliver_batch ok late (sy_tb s),
      sy_phase := Delivering [] [] (n + lost_spans ok late),
      sy_hist := (sy_hist s)\<lparr>hi_late := hi_late (sy_hist s) @ [(late, ok)]\<rparr>\<rparr>)"
| finish: "sy_phase s = Delivering [] [] n \<Longrightarrow>
    tb_step s (s\<lparr>sy_tb := end_flush n (sy_tb s), sy_phase := Idle\<rparr>)"
| close_once: "tb_step s (s\<lparr>sy_tb := (sy_tb s)\<lparr>tb_closed := True\<rparr>\<rparr>)"

inductive reachable :: "system \<Rightarrow> system \<Rightarrow> bool" for s0 where
  init: "reachable s0 s0"
| step: "reachable s0 s \<Longrightarrow> tb_step s s' \<Longrightarrow> reachable s0 s'"

section \<open>The invariant\<close>

definition phase_ids :: "phase \<Rightarrow> string set" where
  "phase_ids ph = (case ph of Deciding now all fl \<Rightarrow> bt_id ` set (fl_todo fl) \<union> fst ` set (fl_decided fl)
     | Settling now fl \<Rightarrow> fst ` set (fl_decided fl) | _ \<Rightarrow> {})"

definition phase_ok :: "phase \<Rightarrow> bool" where
  "phase_ok ph = (case ph of
      Deciding now all fl \<Rightarrow> (\<forall>tr \<in> set (fl_todo fl). trace_ok tr)
        \<and> distinct (map fst (fl_decided fl) @ map bt_id (fl_todo fl))
    | Settling now fl \<Rightarrow> distinct (map fst (fl_decided fl)) | _ \<Rightarrow> True)"

text \<open>The spans a flush in progress holds, and the rooted traces it still has to count.\<close>

definition phase_spans :: "phase \<Rightarrow> SpanRecord list" where
  "phase_spans ph = (case ph of Idle \<Rightarrow> []
    | Deciding now all fl \<Rightarrow> traces_spans (fl_todo fl) @ traces_spans (fl_kept fl)
    | Settling now fl \<Rightarrow> traces_spans (fl_kept fl)
    | Delivering kept late n \<Rightarrow> traces_spans kept @ late)"

definition phase_count :: "phase \<Rightarrow> int" where
  "phase_count ph = (case ph of Idle \<Rightarrow> 0
    | Deciding now all fl \<Rightarrow> rooted_count (fl_todo fl) + rooted_weight (fl_kept fl)
    | Settling now fl \<Rightarrow> rooted_weight (fl_kept fl)
    | Delivering kept late n \<Rightarrow> rooted_weight kept)"

definition sys_inv :: "system \<Rightarrow> bool" where
  "sys_inv s \<longleftrightarrow> tb_inv (sy_tb s) \<and> phase_ok (sy_phase s) \<and> pending_in (phase_ids (sy_phase s)) (sy_tb s)
     \<and> 0 < dt_ttl (tb_decided (sy_tb s))"

definition sys_separate :: "system \<Rightarrow> bool" where
  "sys_separate s \<longleftrightarrow> apart (phase_ids (sy_phase s)) (sy_tb s) \<and> flying (phase_ids (sy_phase s)) (sy_tb s)
     \<and> tb_ledger (sy_tb s) \<noteq> None"

lemmas phase_defs = phase_ids_def phase_ok_def phase_spans_def phase_count_def

lemma deliver_batch_simps [simp]:
  "tb_traces (deliver_batch ok xs tb) = tb_traces tb" "tb_decided (deliver_batch ok xs tb) = tb_decided tb"
  "tb_carry (deliver_batch ok xs tb) = tb_carry tb" "tb_rescuedAtCap (deliver_batch ok xs tb) = tb_rescuedAtCap tb"
  "tb_seq (deliver_batch ok xs tb) = tb_seq tb" "tb_spanCount (deliver_batch ok xs tb) = tb_spanCount tb"
  "tb_maxSpans (deliver_batch ok xs tb) = tb_maxSpans tb"
  "tb_ledger (deliver_batch ok xs tb) =
     tally_AddSpans (tb_ledger tb) (if ok then Forwarded else LostInBuffer) xs 1"
  by (simp_all add: deliver_batch_def deliver_one_def)

lemma end_flush_simps [simp]:
  "tb_traces (end_flush n tb) = tb_traces tb" "tb_decided (end_flush n tb) = tb_decided tb"
  "tb_carry (end_flush n tb) = tb_carry tb" "tb_rescuedAtCap (end_flush n tb) = tb_rescuedAtCap tb"
  "tb_seq (end_flush n tb) = tb_seq tb" "tb_spanCount (end_flush n tb) = tb_spanCount tb"
  "tb_maxSpans (end_flush n tb) = tb_maxSpans tb" "tb_ledger (end_flush n tb) = tb_ledger tb"
  by (simp_all add: end_flush_def)

lemma closed_inv [simp]:
  "tb_inv (tb\<lparr>tb_closed := b\<rparr>) = tb_inv tb" "pending_in ids (tb\<lparr>tb_closed := b\<rparr>) = pending_in ids tb"
  "apart ids (tb\<lparr>tb_closed := b\<rparr>) = apart ids tb" "flying ids (tb\<lparr>tb_closed := b\<rparr>) = flying ids tb"
  by (simp_all add: tb_inv_def pending_in_def apart_def flying_def)

lemma deliver_inv:
  "tb_inv (deliver_batch ok xs tb) = tb_inv tb" "pending_in ids (deliver_batch ok xs tb) = pending_in ids tb"
  "apart ids (deliver_batch ok xs tb) = apart ids tb" "flying ids (deliver_batch ok xs tb) = flying ids tb"
  "tb_inv (end_flush n tb) = tb_inv tb" "pending_in ids (end_flush n tb) = pending_in ids tb"
  "apart ids (end_flush n tb) = apart ids tb" "flying ids (end_flush n tb) = flying ids tb"
  by (simp_all add: tb_inv_def pending_in_def apart_def flying_def)

lemma ttl_frame [simp]:
  "dt_ttl (tb_decided (Add lk now rec tb)) = dt_ttl (tb_decided tb)" if "tb_inv tb"
proof -
  have er: "dt_ttl (tb_decided (snd (ensureRoom lk now keep (accept_span tb rec)))) = dt_ttl (tb_decided tb)" for keep
    by (rule ensureRoom_evicts_induct [THEN conjunct2, of "\<lambda>tb'. dt_ttl (tb_decided tb') = dt_ttl (tb_decided tb)"])
      (use that in \<open>auto simp: evicts_def\<close>)
  show ?thesis
  proof (cases rule: Add_cases [OF that, of rec lk now, case_names followed refused inserted])
    case followed
    then show ?thesis by simp
  next
    case (refused keep tb1)
    then show ?thesis using er [of keep] by simp
  next
    case (inserted room keep tb1)
    then show ?thesis using er [of keep] by (simp add: inserts_def)
  qed
qed

lemma step_inv: "tb_step s s' \<Longrightarrow> sys_inv s \<Longrightarrow> sys_inv s' \<and> evictions (sy_tb s) \<le> evictions (sy_tb s')"
proof (induction rule: tb_step.induct)
  case (add s lk now rec)
  then show ?case
    using Add_inv [of "sy_tb s" lk now rec] Add_apart(1) [of "sy_tb s" "phase_ids (sy_phase s)" lk now rec]
    by (simp add: sys_inv_def)
next
  case (begin_flush s ord now all fl tb)
  have inv: "tb_inv (sy_tb s)" "pending_in {} (sy_tb s)" "0 < dt_ttl (tb_decided (sy_tb s))"
    using begin_flush by (auto simp: sys_inv_def phase_ids_def)
  note b = flush_begin_inv [OF inv(1) begin_flush(2,3)] and e = flush_begin_eq [OF begin_flush(3)]
  show ?case
    using b(1-4,6) e(2,11) inv by (auto simp: sys_inv_def phase_defs begin_ok_def)
next
  case (decide s now all fl tr rest lk fl' tb)
  have inv: "tb_inv (sy_tb s)" and ok: "trace_ok tr" using decide by (auto simp: sys_inv_def phase_ok_def)
  note d = decide_one_inv [OF inv decide(2) ok decide(3)]
  have ids: "phase_ids (Deciding now all fl') = phase_ids (sy_phase s)"
    using d(5) arg_cong [OF d(6), of set] by (simp add: phase_ids_def decide(1,2))
  have "distinct (map fst (fl_decided fl') @ map bt_id (fl_todo fl'))"
    unfolding d(5,6) using decide(1,2,4) by (simp add: sys_inv_def phase_ok_def)
  then have "phase_ok (Deciding now all fl')"
    using d(5) decide(1,2,4) by (simp add: phase_ok_def sys_inv_def)
  then show ?case
    using decide(4) d(1,3) unfolding sys_inv_def by (simp add: ids pending_in_def)
next
  case (carry s now all fl ord fl' tb)
  have inv: "tb_inv (sy_tb s)" using carry by (simp add: sys_inv_def)
  obtain carriers c' where "fl' = fl\<lparr>fl_kept := fl_kept fl @ carriers\<rparr>"
    "tb = ledgerCarriers ((sy_tb s)\<lparr>tb_carry := c'\<rparr>) carriers" "tb_inv tb"
    using flush_carriers_inv [OF inv carry(3,4)] by metis
  then show ?case using carry by (auto simp: sys_inv_def phase_defs pending_in_def)
next
  case (settle s now fl late tb)
  have inv: "tb_inv (sy_tb s)" "pending_in (fst ` set (fl_decided fl)) (sy_tb s)"
    using settle by (auto simp: sys_inv_def phase_ids_def)
  note si = settle_inv [OF inv(1) settle(2)]
  have "dt_ttl (tb_decided tb) = dt_ttl (tb_decided (sy_tb s))"
    using settle_eq(2) [OF settle(2)] by (simp add: decided_takeLate_def)
  then show ?case using si(1,2) si(3) [OF inv(2)] settle(3) by (simp add: sys_inv_def phase_defs)
qed (auto simp: sys_inv_def phase_defs deliver_inv)

text \<open>An account that also knows what delivering a batch, or failing to, does to the ledger.\<close>

locale delivery_account = exit_account f g X
  for f :: "SpanRecord \<Rightarrow> 'a::cancel_comm_monoid_add" and g :: "SpanRecord \<Rightarrow> 'a" and X :: "Tally \<Rightarrow> 'a" +
  fixes h :: "SpanRecord \<Rightarrow> 'a"
  assumes X_deliver: "t \<noteq> None \<Longrightarrow>
    X (tally_AddSpans t (if ok then Forwarded else LostInBuffer) spans 1) = X t + (\<Sum>s\<leftarrow>spans. h s)"

text \<open>The accounts: the spans of one ledger cell, and the error spans.\<close>

definition span_at :: "rowKey \<Rightarrow> SpanRecord \<Rightarrow> int" where
  "span_at k s = (if span_key s = k then 1 else 0)"

definition exits_at :: "rowKey \<Rightarrow> Tally \<Rightarrow> int" where
  "exits_at k t = cell t k SampledOut + cell t k ShedUnsampled + cell t k LostInBuffer + cell t k Forwarded"

definition error_span :: "SpanRecord \<Rightarrow> SpanRecord multiset" where
  "error_span s = (if is_error s then {#s\<lparr>sr_SampleWeight := 0\<rparr>#} else {#})"

definition error_spans :: "SpanRecord list \<Rightarrow> SpanRecord multiset" where
  "error_spans xs = (\<Sum>s\<leftarrow>xs. error_span s)"

lemma sum_span_at: "(\<Sum>s\<leftarrow>xs. span_at k s) = nspans k xs"
  by (induction xs) (simp_all add: span_at_def)

interpretation ledger_account: delivery_account "span_at k" "\<lambda>s. - span_at k s"
    "\<lambda>t. exits_at k t - cell t k Accepted" "span_at k" for k
proof unfold_locales
  show "span_at k (s\<lparr>sr_SampleWeight := w\<rparr>) = span_at k s" for s w
    by (simp add: span_at_def span_key_def)
  show "exits_at k (tally_Add t Accepted (sr_ProjectID s) (sr_StartTimeUs s) 1)
      - cell (tally_Add t Accepted (sr_ProjectID s) (sr_StartTimeUs s) 1) k Accepted =
      exits_at k t - cell t k Accepted + - span_at k s" if "t \<noteq> None" for t s
    using that by (simp add: exits_at_def cell_Add span_at_def)
  show "exits_at k (tally_Add t col (sr_ProjectID s) (sr_StartTimeUs s) 1)
      - cell (tally_Add t col (sr_ProjectID s) (sr_StartTimeUs s) 1) k Accepted =
      exits_at k t - cell t k Accepted + span_at k s" if "t \<noteq> None" "col \<in> exit_columns" "\<not> is_error s" for t col s
    using that by (auto simp: exits_at_def cell_Add span_at_def exit_columns_def)
  show "exits_at k (tally_AddSpans t col spans 1) - cell (tally_AddSpans t col spans 1) k Accepted =
      exits_at k t - cell t k Accepted + (\<Sum>s\<leftarrow>spans. span_at k s)"
    if "t \<noteq> None" "col \<in> exit_columns" "\<forall>s \<in> set spans. \<not> is_error s" for t col spans
    using that by (auto simp: exits_at_def cell_AddSpans sum_span_at exit_columns_def)
  show "exits_at k (tally_AddSpans t col spans (- 1)) - cell (tally_AddSpans t col spans (- 1)) k Accepted
      + (\<Sum>s\<leftarrow>spans. span_at k s) = exits_at k t - cell t k Accepted"
    if "t \<noteq> None" "col \<in> exit_columns" "\<forall>s \<in> set spans. \<not> is_error s" for t col spans
    using that by (auto simp: exits_at_def cell_AddSpans sum_span_at exit_columns_def)
  show "exits_at k (tally_AddSpans t (if ok then Forwarded else LostInBuffer) spans 1)
      - cell (tally_AddSpans t (if ok then Forwarded else LostInBuffer) spans 1) k Accepted =
      exits_at k t - cell t k Accepted + (\<Sum>s\<leftarrow>spans. span_at k s)" if "t \<noteq> None" for t ok spans
    using that by (simp add: exits_at_def cell_AddSpans sum_span_at)
qed

lemma error_spans_none: "\<forall>s \<in> set xs. \<not> is_error s \<Longrightarrow> (\<Sum>s\<leftarrow>xs. error_span s) = {#}"
  by (induction xs) (simp_all add: error_span_def)

interpretation error_account: delivery_account error_span "\<lambda>_. {#}" "\<lambda>_. {#}" "\<lambda>_. {#}"
  by unfold_locales (simp_all add: error_spans_none, simp_all add: error_span_def is_error_def)

lemma step_separate:
  "tb_step s s' \<Longrightarrow> sys_inv s \<Longrightarrow> sys_separate s \<Longrightarrow> evictions (sy_tb s') = evictions (sy_tb s) \<Longrightarrow> sys_separate s'"
proof (induction rule: tb_step.induct)
  case (add s lk now rec)
  have inv: "tb_inv (sy_tb s)" "pending_in (phase_ids (sy_phase s)) (sy_tb s)"
    and sep: "apart (phase_ids (sy_phase s)) (sy_tb s)" "flying (phase_ids (sy_phase s)) (sy_tb s)" "tb_ledger (sy_tb s) \<noteq> None"
    using add by (simp_all add: sys_inv_def sys_separate_def)
  have ev: "evictions (Add lk now rec (sy_tb s)) = evictions (sy_tb s)" using add(3) by simp
  have "tb_ledger (Add lk now rec (sy_tb s)) \<noteq> None"
    by (rule ledger_account.Add_account(2) [OF inv(1) sep(1,3) ev])
  then show ?case
    using Add_apart(2) [OF inv sep(1) ev] Add_flying [OF inv(1) sep(1,2) ev] by (simp add: sys_separate_def)
next
  case (begin_flush s ord now all fl tb)
  have inv: "tb_inv (sy_tb s)" "0 < dt_ttl (tb_decided (sy_tb s))" and sep: "apart {} (sy_tb s)" "tb_ledger (sy_tb s) \<noteq> None"
    using begin_flush by (simp_all add: sys_inv_def sys_separate_def phase_ids_def)
  have ev: "evictions tb = evictions (sy_tb s)" using begin_flush(6) by simp
  show ?case
    using flush_begin_inv(5) [OF inv(1) begin_flush(2,3) sep(1) inv(2) ev] flush_begin_eq(2,9) [OF begin_flush(3)] sep(2)
    by (simp add: sys_separate_def phase_ids_def)
next
  case (decide s now all fl tr rest lk fl' tb)
  have inv: "tb_inv (sy_tb s)" and ok: "trace_ok tr" using decide by (auto simp: sys_inv_def phase_ok_def)
  note d = decide_one_inv [OF inv decide(2) ok decide(3)]
  have ids: "phase_ids (Deciding now all fl') = phase_ids (sy_phase s)"
    using d(5) arg_cong [OF d(6), of set] by (simp add: phase_ids_def decide(1,2))
  show ?case
    using decide(5) d(2,3,7) unfolding sys_separate_def by (simp add: ids apart_def flying_def)
next
  case (carry s now all fl ord fl' tb)
  have inv: "tb_inv (sy_tb s)" using carry by (simp add: sys_inv_def)
  obtain carriers c' where "fl' = fl\<lparr>fl_kept := fl_kept fl @ carriers\<rparr>"
    "tb = ledgerCarriers ((sy_tb s)\<lparr>tb_carry := c'\<rparr>) carriers"
    using flush_carriers_inv [OF inv carry(3,4)] by metis
  then show ?case
    using carry(1,2,6) by (auto simp: sys_separate_def phase_ids_def apart_def flying_def ledgerCarriers_def fold_tally_live)
next
  case (settle s now fl late tb)
  let ?ids = "fst ` set (fl_decided fl)"
  have inv: "tb_inv (sy_tb s)" "distinct (map fst (fl_decided fl))"
    and sep: "apart ?ids (sy_tb s)" "flying ?ids (sy_tb s)" "tb_ledger (sy_tb s) \<noteq> None"
    using settle by (simp_all add: sys_inv_def sys_separate_def phase_defs)
  show ?case
    using settle_inv(4,5) [OF inv(1) settle(2) sep(1,2) inv(2)] sep(3) by (simp add: sys_separate_def phase_ids_def flying_def)
qed (auto simp: sys_separate_def phase_ids_def deliver_inv)

section \<open>Accounts of a run\<close>

definition hist_out :: "history \<Rightarrow> SpanRecord list" where
  "hist_out hi = traces_spans (map fst (hi_traces hi)) @ concat (map fst (hi_late hi))"

definition held_spans :: "system \<Rightarrow> SpanRecord list" where
  "held_spans s = buffer_spans (sy_tb s) @ phase_spans (sy_phase s)"

context delivery_account
begin

lemma deliver_account:
  "tb_ledger tb \<noteq> None \<Longrightarrow> account (deliver_batch ok spans tb) = account tb + (\<Sum>s\<leftarrow>spans. h s)"
  by (simp add: account_def buffer_spans_def X_deliver add.assoc)

definition sys_account :: "system \<Rightarrow> 'a" where
  "sys_account s = account (sy_tb s) + spans_total (phase_spans (sy_phase s))"

definition handed_out :: "(SpanRecord \<Rightarrow> 'a) \<Rightarrow> history \<Rightarrow> 'a" where
  "handed_out m hi = (\<Sum>(tr, ok)\<leftarrow>hi_traces hi. \<Sum>s\<leftarrow>bt_spans tr. m s) + (\<Sum>(late, ok)\<leftarrow>hi_late hi. \<Sum>s\<leftarrow>late. m s)"

lemma handed_out_eq: "handed_out m hi = (\<Sum>s\<leftarrow>hist_out hi. m s)"
proof -
  have "(\<Sum>(tr, ok)\<leftarrow>xs. \<Sum>s\<leftarrow>bt_spans tr. m s) = (\<Sum>s\<leftarrow>traces_spans (map fst xs). m s)" for xs :: "(bufferedTrace \<times> bool) list"
    by (induction xs) (auto simp: traces_spans_def)
  moreover have "(\<Sum>(late, ok)\<leftarrow>xs. \<Sum>s\<leftarrow>late. m s) = (\<Sum>s\<leftarrow>concat (map fst xs). m s)" for xs :: "(SpanRecord list \<times> bool) list"
    by (induction xs) auto
  ultimately show ?thesis by (simp add: handed_out_def hist_out_def)
qed

definition run_account :: "system \<Rightarrow> 'a \<Rightarrow> bool" where
  "run_account s c \<longleftrightarrow> sys_account s + handed_out f (sy_hist s) =
     c + (\<Sum>s\<leftarrow>hi_added (sy_hist s). f s + g s) + handed_out h (sy_hist s)"

lemma run_account_cong:
  assumes "run_account s c" and "sys_account s' = sys_account s" and "sy_hist s' = sy_hist s"
  shows "run_account s' c"
  using assms by (simp add: run_account_def)

lemma run_account_deliver:
  assumes run: "run_account s c"
    and acc: "sys_account s' + (\<Sum>x\<leftarrow>xs. f x) = sys_account s + (\<Sum>x\<leftarrow>xs. h x)"
    and out: "\<And>m. handed_out m (sy_hist s') = handed_out m (sy_hist s) + (\<Sum>x\<leftarrow>xs. m x)"
    and same: "hi_added (sy_hist s') = hi_added (sy_hist s)"
  shows "run_account s' c"
proof -
  have "sys_account s' + handed_out f (sy_hist s') =
      (sys_account s' + (\<Sum>x\<leftarrow>xs. f x)) + handed_out f (sy_hist s)"
    by (simp add: out ac_simps)
  also have "\<dots> = (sys_account s + handed_out f (sy_hist s)) + (\<Sum>x\<leftarrow>xs. h x)"
    unfolding acc by (simp add: ac_simps)
  finally show ?thesis using run by (simp add: run_account_def out same ac_simps)
qed

lemma step_account:
  "tb_step s s' \<Longrightarrow> sys_inv s \<Longrightarrow> sys_separate s \<Longrightarrow> evictions (sy_tb s') = evictions (sy_tb s) \<Longrightarrow>
   run_account s c \<Longrightarrow> run_account s' c"
proof (induction rule: tb_step.induct)
  case (add s lk now rec)
  have "account (Add lk now rec (sy_tb s)) = account (sy_tb s) + (f rec + g rec)"
    by (rule Add_account(1) [where ids = "phase_ids (sy_phase s)"]) (use add in \<open>simp_all add: sys_inv_def sys_separate_def\<close>)
  then show ?case using add(4) by (simp add: run_account_def sys_account_def handed_out_def ac_simps)
next
  case (begin_flush s ord now all fl tb)
  have "account tb + spans_total (traces_spans (fl_todo fl)) + spans_total (traces_spans (fl_kept fl)) = account (sy_tb s)"
    by (rule flush_begin_account [OF _ begin_flush(2,3)])
      (use begin_flush in \<open>simp_all add: sys_inv_def sys_separate_def phase_ids_def\<close>)
  then show ?case
    by (intro run_account_cong [OF begin_flush(7)]) (simp_all add: sys_account_def phase_spans_def begin_flush(1) add.assoc)
next
  case (decide s now all fl tr rest lk fl' tb)
  have "account tb + spans_total (traces_spans (fl_todo fl')) + spans_total (traces_spans (fl_kept fl')) =
      account (sy_tb s) + spans_total (traces_spans (fl_todo fl)) + spans_total (traces_spans (fl_kept fl))"
    by (rule decide_one_account [OF _ decide(2) _ _ decide(3)])
      (use decide in \<open>auto simp: sys_inv_def sys_separate_def phase_ok_def\<close>)
  then show ?case
    by (intro run_account_cong [OF decide(7)]) (simp_all add: sys_account_def phase_spans_def decide(1) add.assoc)
next
  case (carry s now all fl ord fl' tb)
  have "account tb + spans_total (traces_spans (fl_kept fl')) = account (sy_tb s) + spans_total (traces_spans (fl_kept fl))"
    by (rule flush_carriers_account [OF _ carry(3) _ carry(4)])
      (use carry in \<open>simp_all add: sys_inv_def sys_separate_def\<close>)
  then show ?case
    by (intro run_account_cong [OF carry(8)]) (simp_all add: sys_account_def phase_spans_def carry(1,2))
next
  case (settle s now fl late tb)
  have "account tb + spans_total late = account (sy_tb s)"
    by (rule settle_account [OF _ _ _ _ _ settle(2)])
      (use settle in \<open>simp_all add: sys_inv_def sys_separate_def phase_defs\<close>)
  then have "account (sy_tb s) = account tb + spans_total late" by (rule sym)
  then show ?case
    by (intro run_account_cong [OF settle(6)]) (simp_all add: sys_account_def phase_spans_def settle(1) ac_simps)
next
  case (deliver_trace s tr kept late n ok)
  have "account (deliver_batch ok (bt_spans tr) (sy_tb s)) = account (sy_tb s) + (\<Sum>s\<leftarrow>bt_spans tr. h s)"
    by (rule deliver_account) (use deliver_trace in \<open>simp add: sys_separate_def\<close>)
  then show ?case
    by (intro run_account_deliver [OF deliver_trace(5), where xs = "bt_spans tr"])
      (simp_all add: sys_account_def phase_spans_def handed_out_def deliver_trace(1) spans_total_def [of "bt_spans tr"] ac_simps)
next
  case (deliver_late s late n ok)
  have "account (deliver_batch ok late (sy_tb s)) = account (sy_tb s) + (\<Sum>s\<leftarrow>late. h s)"
    by (rule deliver_account) (use deliver_late in \<open>simp add: sys_separate_def\<close>)
  then show ?case
    by (intro run_account_deliver [OF deliver_late(6), where xs = late])
      (simp_all add: sys_account_def phase_spans_def handed_out_def deliver_late(1) spans_total_def [of late] ac_simps)
next
  case (finish s n)
  then show ?case
    by (intro run_account_cong [OF finish(5)]) (simp_all add: sys_account_def phase_spans_def account_def buffer_spans_def)
next
  case (close_once s)
  then show ?case
    by (intro run_account_cong [OF close_once(4)]) (simp_all add: sys_account_def account_def buffer_spans_def)
qed

end

section \<open>Reachable states\<close>

definition fresh_buffer :: "duration \<Rightarrow> int \<Rightarrow> RescueRules \<Rightarrow> duration \<Rightarrow> TraceBuffer" where
  "fresh_buffer ttl maxSpans rules grace =
     SetRootGrace (SetLedger (NewTraceBufferWithRules ttl maxSpans rules) tally_New) grace"

lemma fresh_buffer_simps [simp]:
  "tb_traces (fresh_buffer ttl n rules grace) = []" "tb_rescuedAtCap (fresh_buffer ttl n rules grace) = []"
  "dt_evicted (tb_decided (fresh_buffer ttl n rules grace)) = 0" "tb_ledger (fresh_buffer ttl n rules grace) = tally_New"
  "dt_late (tb_decided (fresh_buffer ttl n rules grace)) = []" "dt_held (tb_decided (fresh_buffer ttl n rules grace)) = []"
  "dt_m (tb_decided (fresh_buffer ttl n rules grace)) = []" "ct_m (tb_carry (fresh_buffer ttl n rules grace)) = []"
  "ct_uncarriedTotal (tb_carry (fresh_buffer ttl n rules grace)) = 0"
  "0 < dt_ttl (tb_decided (fresh_buffer ttl n rules grace))"
  by (simp_all add: fresh_buffer_def SetRootGrace_def SetLedger_def NewTraceBufferWithRules_def Let_def
      newDecidedTraces_def newCarryTally_def DefaultTraceBufferTTL_def time_units)

lemma sys_inv_start: "sys_inv (start (fresh_buffer ttl n rules grace))"
proof -
  have "tb_inv (fresh_buffer ttl n rules grace)"
    using tb_inv_New [of ttl n rules]
    by (simp add: fresh_buffer_def SetRootGrace_def SetLedger_def tb_inv_def)
  then show ?thesis by (simp add: sys_inv_def start_def phase_defs pending_in_def)
qed

lemma sys_separate_start: "sys_separate (start (fresh_buffer ttl n rules grace))"
  by (simp add: sys_separate_def start_def phase_ids_def apart_empty undecided_def flying_def tally_New_def)

lemma reachable_inv:
  "reachable s0 s \<Longrightarrow> sys_inv s0 \<Longrightarrow> sys_inv s \<and> evictions (sy_tb s0) \<le> evictions (sy_tb s)"
proof (induction rule: reachable.induct)
  case (step s s')
  then show ?case using step_inv [of s s'] by auto
qed simp

lemma reachable_separate:
  "reachable s0 s \<Longrightarrow> sys_inv s0 \<Longrightarrow> sys_separate s0 \<Longrightarrow> evictions (sy_tb s) = evictions (sy_tb s0) \<Longrightarrow> sys_separate s"
proof (induction rule: reachable.induct)
  case (step s s')
  have "sys_inv s" "evictions (sy_tb s0) \<le> evictions (sy_tb s)" using reachable_inv [OF step(1,4)] by simp_all
  with step step_inv [OF step(2)] step_separate [OF step(2)] show ?case by simp
qed

context delivery_account
begin

lemma reachable_account:
  "reachable s0 s \<Longrightarrow> sys_inv s0 \<Longrightarrow> sys_separate s0 \<Longrightarrow> run_account s0 c \<Longrightarrow>
   evictions (sy_tb s) = evictions (sy_tb s0) \<Longrightarrow> run_account s c"
proof (induction rule: reachable.induct)
  case (step s s')
  have inv: "sys_inv s" "evictions (sy_tb s0) \<le> evictions (sy_tb s)" using reachable_inv [OF step(1,4)] by simp_all
  with step_inv [OF step(2)] step(7) have ev: "evictions (sy_tb s) = evictions (sy_tb s0)" by simp
  have "sys_separate s" by (rule reachable_separate [OF step(1,4,5) ev])
  then show ?case using step_account [OF step(2) inv(1)] step(3-7) ev by simp
qed

lemma run_account_start:
  "run_account (start (fresh_buffer ttl n rules grace)) (X tally_New)"
  by (simp add: run_account_def sys_account_def account_def buffer_spans_def decided_spans_def start_def phase_spans_def
      handed_out_def)

lemma fresh_account:
  assumes "reachable (start (fresh_buffer ttl n rules grace)) s" and "evictions (sy_tb s) = 0"
  shows "(\<Sum>x\<leftarrow>held_spans s. f x) + X (tb_ledger (sy_tb s)) + (\<Sum>x\<leftarrow>hist_out (sy_hist s). f x) =
    X tally_New + (\<Sum>x\<leftarrow>hi_added (sy_hist s). f x + g x) + (\<Sum>x\<leftarrow>hist_out (sy_hist s). h x)"
proof -
  have "run_account s (X tally_New)"
    by (rule reachable_account [OF assms(1) sys_inv_start sys_separate_start run_account_start])
      (simp add: assms(2) start_def)
  then show ?thesis
    by (simp add: run_account_def sys_account_def account_def held_spans_def spans_total_def handed_out_eq ac_simps)
qed

end

lemma step_count:
  "tb_step s s' \<Longrightarrow> sys_inv s \<Longrightarrow>
   trace_count (sy_tb s') + phase_count (sy_phase s') + rooted_weight (map fst (hi_traces (sy_hist s'))) - hi_roots (sy_hist s') =
   trace_count (sy_tb s) + phase_count (sy_phase s) + rooted_weight (map fst (hi_traces (sy_hist s))) - hi_roots (sy_hist s)"
proof (induction rule: tb_step.induct)
  case (add s lk now rec)
  then show ?case using Add_count [of "sy_tb s" lk now rec] by (simp add: sys_inv_def)
next
  case (begin_flush s ord now all fl tb)
  then show ?case using flush_begin_count [of "sy_tb s" ord now all fl tb] by (simp add: sys_inv_def phase_count_def)
next
  case (decide s now all fl tr rest lk fl' tb)
  have "tb_inv (sy_tb s)" "trace_ok tr" using decide by (auto simp: sys_inv_def phase_ok_def)
  from decide_one_count [OF this(1) decide(2) this(2) decide(3)] show ?case
    by (simp add: phase_count_def decide(1))
next
  case (carry s now all fl ord fl' tb)
  then show ?case
    using flush_carriers_count [of "sy_tb s" ord now all fl fl' tb] by (simp add: sys_inv_def phase_count_def)
next
  case (settle s now fl late tb)
  then show ?case using settle_count [of now "fl_decided fl" "sy_tb s" late tb] by (simp add: phase_count_def)
next
  case (deliver_trace s tr kept late n ok)
  have "trace_count (deliver_batch ok (bt_spans tr) (sy_tb s)) = trace_count (sy_tb s)"
    by (rule trace_count_cong) simp_all
  then show ?case using deliver_trace by (simp add: phase_count_def)
next
  case (deliver_late s late n ok)
  have "trace_count (deliver_batch ok late (sy_tb s)) = trace_count (sy_tb s)" by (rule trace_count_cong) simp_all
  then show ?case using deliver_late by (simp add: phase_count_def)
next
  case (finish s n)
  have "trace_count (end_flush n (sy_tb s)) = trace_count (sy_tb s)" by (rule trace_count_cong) simp_all
  then show ?case using finish by (simp add: phase_count_def)
next
  case (close_once s)
  then show ?case by (simp add: trace_count_def)
qed

lemma reachable_count:
  "reachable s0 s \<Longrightarrow> sys_inv s0 \<Longrightarrow>
   trace_count (sy_tb s) + phase_count (sy_phase s) + rooted_weight (map fst (hi_traces (sy_hist s))) - hi_roots (sy_hist s) =
   trace_count (sy_tb s0) + phase_count (sy_phase s0) + rooted_weight (map fst (hi_traces (sy_hist s0))) - hi_roots (sy_hist s0)"
proof (induction rule: reachable.induct)
  case (step s s')
  then show ?case using step_count [OF step(2)] reachable_inv [OF step(1,4)] by simp
qed simp

section \<open>The sequential flush is a run\<close>

lemma reachable_trans: "reachable s2 s3 \<Longrightarrow> reachable s1 s2 \<Longrightarrow> reachable s1 s3"
  by (induction rule: reachable.induct) (auto intro: reachable.intros)

lemma reachable_one: "tb_step s s' \<Longrightarrow> reachable s s'"
  by (rule reachable.step [OF reachable.init])

lemma decide_one_todo: "fl_todo fl = tr # rest \<Longrightarrow> fl_todo (fst (decide_one lk now (fl, tb))) = rest"
  by (simp add: decide_one_def Let_def ledgerDropped_def split: prod.splits)

lemma decide_run:
  "sy_phase s = Deciding now all fl \<Longrightarrow> length (fl_todo fl) = n \<Longrightarrow>
   fold (\<lambda>i. decide_one (lk i) now) [a..<a + n] (fl, sy_tb s) = (fl', tb') \<Longrightarrow>
   fl_todo fl' = [] \<and> reachable s (s\<lparr>sy_tb := tb', sy_phase := Deciding now all fl'\<rparr>)"
proof (induction n arbitrary: s fl a)
  case 0
  then have same: "fl' = fl" "tb' = sy_tb s" by simp_all
  have eq: "s\<lparr>sy_tb := tb', sy_phase := Deciding now all fl'\<rparr> = s" using 0(1) same by (cases s) simp
  show ?case unfolding eq using same 0(2) reachable.init by simp
next
  case (Suc n)
  then obtain tr rest where todo: "fl_todo fl = tr # rest" by (cases "fl_todo fl") auto
  obtain fl1 tb1 where d: "decide_one (lk a) now (fl, sy_tb s) = (fl1, tb1)" by fastforce
  let ?s = "s\<lparr>sy_tb := tb1, sy_phase := Deciding now all fl1\<rparr>"
  have st: "tb_step s ?s" by (rule tb_step.decide [OF Suc.prems(1) todo d])
  have "fl_todo fl1 = rest" using decide_one_todo [OF todo, of "lk a" now "sy_tb s"] d by simp
  moreover have "[a..<a + Suc n] = a # [Suc a..<Suc a + n]" by (simp add: upt_conv_Cons)
  ultimately have "fl_todo fl' = [] \<and> reachable ?s (?s\<lparr>sy_tb := tb', sy_phase := Deciding now all fl'\<rparr>)"
    using Suc.prems(2,3) todo d by (intro Suc.IH [of ?s fl1 "Suc a"]) simp_all
  then show ?case using reachable_trans [OF _ reachable_one [OF st]] by simp
qed

lemma deliver_one_eq:
  "deliver_one ok xs (sent, n, tb) =
     (if ok then sent + int (length xs) else sent, n + lost_spans ok xs, deliver_batch ok xs tb)"
  by (simp add: deliver_one_def deliver_batch_def lost_spans_def)

lemma deliver_run:
  "sy_phase s = Delivering kept late n \<Longrightarrow>
   fold (\<lambda>(i, spans). deliver_one (ok i) spans) (enumerate a (flush_batches kept late)) (sent, n, sy_tb s) = (sent', n', tb') \<Longrightarrow>
   \<exists>hi. reachable s (s\<lparr>sy_tb := tb', sy_phase := Delivering [] [] n', sy_hist := hi\<rparr>) \<and> hi_added hi = hi_added (sy_hist s)
     \<and> int (length (hist_out (sy_hist s))) + (sent' - sent) \<le> int (length (hist_out hi))"
proof (induction kept arbitrary: s a n sent)
  case Nil
  show ?case
  proof (cases "late = []")
    case True
    then have "s\<lparr>sy_tb := tb', sy_phase := Delivering [] [] n', sy_hist := sy_hist s\<rparr> = s"
      using Nil by (cases s) (simp add: flush_batches_def)
    moreover have "sent' = sent" using Nil True by (simp add: flush_batches_def)
    ultimately show ?thesis
      using reachable.init [of s] by (intro exI [of _ "sy_hist s"]) simp
  next
    case False
    let ?s = "s\<lparr>sy_tb := deliver_batch (ok a) late (sy_tb s), sy_phase := Delivering [] [] (n + lost_spans (ok a) late),
      sy_hist := (sy_hist s)\<lparr>hi_late := hi_late (sy_hist s) @ [(late, ok a)]\<rparr>\<rparr>"
    have "tb_step s ?s" by (rule tb_step.deliver_late [OF Nil(1) False])
    moreover have "tb' = deliver_batch (ok a) late (sy_tb s)" "n' = n + lost_spans (ok a) late"
        "sent' = (if ok a then sent + int (length late) else sent)"
      using Nil(2) False by (simp_all add: flush_batches_def deliver_one_eq)
    ultimately show ?thesis
      by (intro exI [of _ "(sy_hist s)\<lparr>hi_late := hi_late (sy_hist s) @ [(late, ok a)]\<rparr>"]) (simp add: reachable_one hist_out_def)
  qed
next
  case (Cons tr kept)
  let ?s = "s\<lparr>sy_tb := deliver_batch (ok a) (bt_spans tr) (sy_tb s),
      sy_phase := Delivering kept late (n + lost_spans (ok a) (bt_spans tr)),
      sy_hist := (sy_hist s)\<lparr>hi_traces := hi_traces (sy_hist s) @ [(tr, ok a)]\<rparr>\<rparr>"
  have st: "tb_step s ?s" by (rule tb_step.deliver_trace [OF Cons.prems(1)])
  have "\<exists>hi. reachable ?s (?s\<lparr>sy_tb := tb', sy_phase := Delivering [] [] n', sy_hist := hi\<rparr>)
      \<and> hi_added hi = hi_added (sy_hist ?s)
      \<and> int (length (hist_out (sy_hist ?s))) + (sent' - (if ok a then sent + int (length (bt_spans tr)) else sent))
          \<le> int (length (hist_out hi))"
    using Cons.prems(2)
    by (intro Cons.IH [of ?s _ "Suc a" "if ok a then sent + int (length (bt_spans tr)) else sent"])
      (simp_all add: flush_batches_def deliver_one_eq)
  then obtain hi where "reachable ?s (?s\<lparr>sy_tb := tb', sy_phase := Delivering [] [] n', sy_hist := hi\<rparr>)"
    and hi: "hi_added hi = hi_added (sy_hist s)"
      "int (length (hist_out (sy_hist s))) + (sent' - sent) \<le> int (length (hist_out hi))"
    by (auto simp: hist_out_def split: if_splits)
  then have "reachable s (?s\<lparr>sy_tb := tb', sy_phase := Delivering [] [] n', sy_hist := hi\<rparr>)"
    using reachable_trans [OF _ reachable_one [OF st]] by blast
  with hi show ?case by (intro exI [of _ hi]) simp
qed

lemma flush_runs:
  assumes idle: "sy_phase s = Idle" and ords: "permutes (fe_traceOrd env)" "permutes (fe_carryOrd env)"
    and fl: "flush env now all (sy_tb s) = (sent, tb')"
  shows "\<exists>hi. reachable s (s\<lparr>sy_tb := tb', sy_phase := Idle, sy_hist := hi\<rparr>) \<and> hi_added hi = hi_added (sy_hist s)
    \<and> int (length (hist_out (sy_hist s))) + sent \<le> int (length (hist_out hi))"
proof -
  obtain f1 tb1 where b: "flush_begin (fe_traceOrd env) now all (sy_tb s) = (f1, tb1)" by fastforce
  obtain f2 tb2 where d: "fold (\<lambda>i. decide_one (fe_lookup env i) now) [0..<length (fl_todo f1)] (f1, tb1) = (f2, tb2)"
    by fastforce
  obtain f3 tb3 where c: "flush_carriers (fe_carryOrd env) now all (f2, tb2) = (f3, tb3)" by fastforce
  obtain late tb4 where e: "settle now (fl_decided f3) tb3 = (late, tb4)" by fastforce
  obtain sent' n tb5 where g: "fold (\<lambda>(i, spans). deliver_one (fe_ok env i) spans)
      (enumerate 0 (flush_batches (fl_kept f3) late)) (0, 0, tb4) = (sent', n, tb5)" by (metis prod_cases3)
  have tb': "tb' = end_flush n tb5" "sent' = sent"
    using fl by (simp_all add: flush_def Let_def b d c e deliverAll_def g end_flush_def)
  let ?s1 = "s\<lparr>sy_tb := tb1, sy_phase := Deciding now all f1\<rparr>"
  let ?s2 = "s\<lparr>sy_tb := tb2, sy_phase := Deciding now all f2\<rparr>"
  let ?s3 = "s\<lparr>sy_tb := tb3, sy_phase := Settling now f3\<rparr>"
  let ?s4 = "s\<lparr>sy_tb := tb4, sy_phase := Delivering (fl_kept f3) late 0\<rparr>"
  have r1: "reachable s ?s1" by (rule reachable_one [OF tb_step.begin_flush [OF idle ords(1) b]])
  have dr: "fl_todo f2 = [] \<and> reachable ?s1 (?s1\<lparr>sy_tb := tb2, sy_phase := Deciding now all f2\<rparr>)"
    by (rule decide_run [where a = 0]) (use d in simp_all)
  then have r2: "reachable ?s1 ?s2" by simp
  have r3: "reachable ?s2 (?s2\<lparr>sy_tb := tb3, sy_phase := Settling now f3\<rparr>)"
    by (rule reachable_one, rule tb_step.carry [OF _ _ ords(2)]) (use dr c in simp_all)
  have r4: "reachable ?s3 (?s3\<lparr>sy_tb := tb4, sy_phase := Delivering (fl_kept f3) late 0\<rparr>)"
    by (rule reachable_one, rule tb_step.settle) (use e in simp_all)
  obtain hi where r5: "reachable ?s4 (?s4\<lparr>sy_tb := tb5, sy_phase := Delivering [] [] n, sy_hist := hi\<rparr>)"
    and hi: "hi_added hi = hi_added (sy_hist s)"
      "int (length (hist_out (sy_hist s))) + sent \<le> int (length (hist_out hi))"
    using tb'(2) deliver_run [of ?s4 "fl_kept f3" late 0 "fe_ok env" 0 0 sent' n tb5] g by auto
  let ?s5 = "s\<lparr>sy_tb := tb5, sy_phase := Delivering [] [] n, sy_hist := hi\<rparr>"
  have r6: "reachable ?s5 (?s5\<lparr>sy_tb := end_flush n (sy_tb ?s5), sy_phase := Idle\<rparr>)"
    by (rule reachable_one, rule tb_step.finish) simp
  have r3': "reachable ?s2 ?s3" and r4': "reachable ?s3 ?s4" and r5': "reachable ?s4 ?s5"
    using r3 r4 r5 by simp_all
  have "reachable s ?s5"
    by (rule reachable_trans [OF r5' reachable_trans [OF r4' reachable_trans [OF r3' reachable_trans [OF r2 r1]]]])
  from reachable_trans [OF r6 this]
  have "reachable s (?s5\<lparr>sy_tb := end_flush n (sy_tb ?s5), sy_phase := Idle\<rparr>)" .
  moreover have "?s5\<lparr>sy_tb := end_flush n (sy_tb ?s5), sy_phase := Idle\<rparr> =
      s\<lparr>sy_tb := tb', sy_phase := Idle, sy_hist := hi\<rparr>"
    by (cases s) (simp add: tb'(1))
  ultimately have "reachable s (s\<lparr>sy_tb := tb', sy_phase := Idle, sy_hist := hi\<rparr>)" by (simp only:)
  with hi show ?thesis by blast
qed

end
