(* ===== verification/TraceBufferProps.thy ===== *)
theory TraceBufferProps
  imports TraceBufferRun
begin

text \<open>
  The properties of the trace buffer as statements about its runs: the ledger balances, error
  spans leave only by delivery, every trace is counted once, the cap holds, \<^verbatim>\<open>Close\<close> leaves
  nothing behind, and the decisions do not depend on map order.
\<close>

declare map_of_eq_Some_iff [simp del] not_None_eq [iff del]

text \<open>A small run for the witnesses: two spans added to a buffer without a cap.\<close>

definition demo_span :: "string \<Rightarrow> string \<Rightarrow> string \<Rightarrow> SpanRecord" where
  "demo_span tid parent status = zero_span\<lparr>sr_ProjectID := 7, sr_TraceID := tid, sr_ParentSpanID := parent,
     sr_Name := ''GET /'', sr_Status := status, sr_StartTimeUs := 600000000\<rparr>"

definition add_step :: "lookup \<Rightarrow> gotime \<Rightarrow> SpanRecord \<Rightarrow> system \<Rightarrow> system" where
  "add_step lk now rec s = s\<lparr>sy_tb := Add lk now rec (sy_tb s),
      sy_hist := (sy_hist s)\<lparr>hi_added := hi_added (sy_hist s) @ [rec],
        hi_roots := hi_roots (sy_hist s) + (if rooted_at (Add lk now rec (sy_tb s)) (sr_TraceID rec)
            \<and> \<not> rooted_at (sy_tb s) (sr_TraceID rec) then 1 else 0)\<rparr>\<rparr>"

definition demo_buffer :: TraceBuffer where
  "demo_buffer = fresh_buffer 0 0 \<lparr>rr_SlowThresholdUs = 0, rr_MinTracesPerHour = 0\<rparr> 0"

definition demo_run :: system where
  "demo_run = add_step None 9 (demo_span ''b'' '''' ''ok'')
     (add_step None 5 (demo_span ''a'' ''p'' ''error'') (start demo_buffer))"

lemma add_step_reachable: "reachable s0 s \<Longrightarrow> reachable s0 (add_step lk now rec s)"
  unfolding add_step_def by (rule reachable.step [OF _ tb_step.add])

lemma demo_reachable: "reachable (start demo_buffer) demo_run"
  unfolding demo_run_def by (intro add_step_reachable reachable.init)

lemma demo_evicted: "dt_evicted (tb_decided (sy_tb demo_run)) = 0"
  by code_simp

lemma Stats_evicted: "bs_DecidedEvicted (Stats tb) = evictions tb"
  by (simp add: Stats_def Let_def split: prod.splits)

section \<open>Conservation\<close>

text \<open>
  C1: the ledger balances at every moment. In any interleaving of added spans with the pieces of
  flushes, as long as the cap on remembered decisions has evicted none, for every project and
  bucket the accepted spans are exactly the spans counted as sampled out, shed, lost in the
  buffer or forwarded plus the spans the buffer or the flush in progress still holds. No span
  leaves uncounted and none is counted twice, a dropped trace that goes out as a carrier
  included.
\<close>

theorem ledger_balance:
  assumes "reachable (start (fresh_buffer ttl maxSpans rules grace)) s"
    and "bs_DecidedEvicted (Stats (sy_tb s)) = 0"
  shows "cell (tb_ledger (sy_tb s)) k Accepted =
    cell (tb_ledger (sy_tb s)) k SampledOut + cell (tb_ledger (sy_tb s)) k ShedUnsampled
    + cell (tb_ledger (sy_tb s)) k LostInBuffer + cell (tb_ledger (sy_tb s)) k Forwarded
    + nspans k (held_spans s)"
proof -
  have "exits_at k tally_New - cell tally_New k Accepted = 0"
    by (simp add: exits_at_def tally_New_def)
  moreover have "(\<Sum>x\<leftarrow>xs. span_at k x + - span_at k x) = 0" for xs :: "SpanRecord list"
    by (induction xs) simp_all
  ultimately show ?thesis
    using ledger_account.fresh_account [OF assms(1), of k] assms(2)
    by (simp add: Stats_evicted sum_span_at exits_at_def)
qed

theorem ledger_balance_witness:
  "cell (tb_ledger (sy_tb demo_run)) \<lparr>rk_bucket = 600, rk_projectID = 7\<rparr> Accepted =
    cell (tb_ledger (sy_tb demo_run)) \<lparr>rk_bucket = 600, rk_projectID = 7\<rparr> SampledOut
    + cell (tb_ledger (sy_tb demo_run)) \<lparr>rk_bucket = 600, rk_projectID = 7\<rparr> ShedUnsampled
    + cell (tb_ledger (sy_tb demo_run)) \<lparr>rk_bucket = 600, rk_projectID = 7\<rparr> LostInBuffer
    + cell (tb_ledger (sy_tb demo_run)) \<lparr>rk_bucket = 600, rk_projectID = 7\<rparr> Forwarded
    + nspans \<lparr>rk_bucket = 600, rk_projectID = 7\<rparr> (held_spans demo_run)
   \<and> nspans \<lparr>rk_bucket = 600, rk_projectID = 7\<rparr> (held_spans demo_run) = 2"
proof
  show "nspans \<lparr>rk_bucket = 600, rk_projectID = 7\<rparr> (held_spans demo_run) = 2" by code_simp
qed (rule ledger_balance [OF demo_reachable [unfolded demo_buffer_def]], simp add: Stats_evicted demo_evicted)

text \<open>
  C2: error spans are never dropped. In any interleaving, as long as the cap on remembered
  decisions has evicted none, the error spans added are, as a multiset and up to the sample
  weight, exactly the error spans the buffer still holds together with those handed to
  delivery. No sampling decision, eviction or refusal ever discards one.
\<close>

theorem error_spans_kept:
  assumes "reachable (start (fresh_buffer ttl maxSpans rules grace)) s"
    and "bs_DecidedEvicted (Stats (sy_tb s)) = 0"
  shows "error_spans (hi_added (sy_hist s)) = error_spans (held_spans s) + error_spans (hist_out (sy_hist s))"
proof -
  have "(\<Sum>x\<leftarrow>xs. {#} :: SpanRecord multiset) = {#}" for xs :: "SpanRecord list" by (induction xs) simp_all
  then show ?thesis
    using error_account.fresh_account [OF assms(1)] assms(2) by (simp add: Stats_evicted error_spans_def)
qed

theorem error_spans_kept_witness:
  "error_spans (hi_added (sy_hist demo_run)) =
     error_spans (held_spans demo_run) + error_spans (hist_out (sy_hist demo_run))
   \<and> error_spans (held_spans demo_run) = {#demo_span ''a'' ''p'' ''error''#}"
proof
  show "error_spans (held_spans demo_run) = {#demo_span ''a'' ''p'' ''error''#}" by code_simp
qed (rule error_spans_kept [OF demo_reachable [unfolded demo_buffer_def]], simp add: Stats_evicted demo_evicted)

text \<open>
  C3: every trace is counted exactly once. In any interleaving, the number of traces whose root
  span was buffered equals the sum of the weights of the rooted traces handed to delivery, the
  rooted traces still waiting (in the buffer, in the flush in progress, or rescued with their
  weight), the dropped traces waiting for a carrier and the dropped traces given up as
  uncarried. This holds whatever the sample ratios, the cap and the hourly floor decide.
\<close>

theorem traces_counted_once:
  assumes "reachable (start (fresh_buffer ttl maxSpans rules grace)) s"
  shows "hi_roots (sy_hist s) = rooted_weight (map fst (hi_traces (sy_hist s)))
    + phase_count (sy_phase s) + asum root_one (tb_traces (sy_tb s)) + rooted_weight (tb_rescuedAtCap (sy_tb s))
    + pending_drops (tb_carry (sy_tb s)) + bs_UncarriedDrops (Stats (sy_tb s))"
proof -
  have "trace_count (fresh_buffer ttl maxSpans rules grace) = 0"
    by (simp add: trace_count_def carry_total_def pending_drops_def)
  then show ?thesis
    using reachable_count [OF assms sys_inv_start]
    by (simp add: start_def phase_count_def trace_count_def carry_total_def Stats_def carry_stats_def Let_def)
qed

theorem traces_counted_once_witness:
  "hi_roots (sy_hist demo_run) = rooted_weight (map fst (hi_traces (sy_hist demo_run)))
    + phase_count (sy_phase demo_run) + asum root_one (tb_traces (sy_tb demo_run))
    + rooted_weight (tb_rescuedAtCap (sy_tb demo_run))
    + pending_drops (tb_carry (sy_tb demo_run)) + bs_UncarriedDrops (Stats (sy_tb demo_run))
   \<and> hi_roots (sy_hist demo_run) = 1"
proof
  show "hi_roots (sy_hist demo_run) = 1" by code_simp
qed (rule traces_counted_once [OF demo_reachable [unfolded demo_buffer_def]])

lemma reachable_tb_inv:
  assumes "reachable (start (fresh_buffer ttl maxSpans rules grace)) s"
  shows "tb_inv (sy_tb s)"
  using reachable_inv [OF assms sys_inv_start] by (simp add: sys_inv_def)

text \<open>
  C6: the span cap. In any interleaving, the buffer's span count is exactly the number of
  buffered spans, and with a positive cap the spans of traces without an error never exceed it:
  only error traces may take the buffer over its cap.
\<close>

theorem cap_respected:
  assumes "reachable (start (fresh_buffer ttl maxSpans rules grace)) s"
  shows "bs_BufferedSpans (Stats (sy_tb s)) = (\<Sum>(tid, tr)\<leftarrow>tb_traces (sy_tb s). int (length (bt_spans tr)))
    \<and> (0 < tb_maxSpans (sy_tb s) \<longrightarrow>
        (\<Sum>(tid, tr)\<leftarrow>tb_traces (sy_tb s). if bt_hasError tr then 0 else int (length (bt_spans tr)))
          \<le> tb_maxSpans (sy_tb s))"
  using tb_invD(6,7) [OF reachable_tb_inv [OF assms], unfolded asum_def clean_len_def span_len_def]
  by (simp add: Stats_def Let_def carry_stats_def case_prod_unfold)

text \<open>A buffer capped at two spans that three spans were added to: one trace had to go.\<close>

definition capped_run :: system where
  "capped_run = add_step None 9 (demo_span ''c'' '''' ''ok'') (add_step None 8 (demo_span ''b'' '''' ''ok'')
     (add_step None 7 (demo_span ''a'' '''' ''ok'') (start (fresh_buffer 0 2 \<lparr>rr_SlowThresholdUs = 0, rr_MinTracesPerHour = 0\<rparr> 0))))"

theorem cap_respected_witness:
  "tb_maxSpans (sy_tb capped_run) = 2 \<and> length (hi_added (sy_hist capped_run)) = 3
   \<and> (\<Sum>(tid, tr)\<leftarrow>tb_traces (sy_tb capped_run). if bt_hasError tr then 0 else int (length (bt_spans tr))) \<le> 2"
proof -
  have r: "reachable (start (fresh_buffer 0 2 \<lparr>rr_SlowThresholdUs = 0, rr_MinTracesPerHour = 0\<rparr> 0)) capped_run"
    unfolding capped_run_def by (intro add_step_reachable reachable.init)
  have cap: "tb_maxSpans (sy_tb capped_run) = 2" and three: "length (hi_added (sy_hist capped_run)) = 3" by code_simp+
  have "0 < tb_maxSpans (sy_tb capped_run)" by (simp add: cap)
  then have "(\<Sum>(tid, tr)\<leftarrow>tb_traces (sy_tb capped_run). if bt_hasError tr then 0 else int (length (bt_spans tr)))
      \<le> tb_maxSpans (sy_tb capped_run)"
    by (rule cap_respected [OF r, THEN conjunct2, THEN mp])
  then show ?thesis using three unfolding cap by simp
qed

section \<open>Shutdown\<close>

lemma fold_delete_none: "map_of (fold AList.delete ks m) i = (if i \<in> set ks then None else map_of m i)"
  by (induction ks arbitrary: m) (auto simp: AList.delete_conv')

lemma map_of_empty: "(\<And>i. map_of m i = None) \<Longrightarrow> m = []"
proof -
  assume none: "\<And>i. map_of m i = None"
  show "m = []"
  proof (cases m)
    case (Cons x xs)
    then show ?thesis using none [of "fst x"] by simp
  qed
qed

lemma flush_begin_all:
  assumes inv: "tb_inv tb" and ord: "permutes ord" and b: "flush_begin ord now True tb = (fl, tb')"
  shows "tb_traces tb' = []"
proof (rule map_of_empty)
  fix i
  note eq = flush_begin_eq [OF b]
  have "map_of (tb_traces tb) i = Some tr \<Longrightarrow> i \<in> bt_id ` set (fl_todo fl)" for tr
    using tb_invD(2) [OF inv] eq(1) due_list_set [OF ord, of now True tb] map_of_SomeD [of "tb_traces tb" i tr] by force
  then show "map_of (tb_traces tb') i = None"
    unfolding eq(4) begun_traces by (cases "map_of (tb_traces tb) i") (auto simp: fold_delete_none)
qed

lemma decide_fold_frame:
  "tb_inv tb \<Longrightarrow> \<forall>tr \<in> set (fl_todo fl). trace_ok tr \<Longrightarrow> length (fl_todo fl) = n \<Longrightarrow>
   fold (\<lambda>i. decide_one (lk i) now) [a..<a + n] (fl, tb) = (fl', tb') \<Longrightarrow>
   tb_inv tb' \<and> tb_traces tb' = tb_traces tb \<and> tb_rescuedAtCap tb' = tb_rescuedAtCap tb"
proof (induction n arbitrary: fl tb a)
  case (Suc n)
  then obtain tr rest where todo: "fl_todo fl = tr # rest" by (cases "fl_todo fl") auto
  obtain fl1 tb1 where d: "decide_one (lk a) now (fl, tb) = (fl1, tb1)" by fastforce
  note di = decide_one_inv [OF Suc.prems(1) todo _ d]
  have ok: "trace_ok tr" using Suc.prems(2) todo by simp
  have "[a..<a + Suc n] = a # [Suc a..<Suc a + n]" by (simp add: upt_conv_Cons)
  then have "tb_inv tb' \<and> tb_traces tb' = tb_traces tb1 \<and> tb_rescuedAtCap tb' = tb_rescuedAtCap tb1"
    using Suc.prems(2-4) todo d di(1,5) [OF ok] by (intro Suc.IH [of tb1 fl1 "Suc a"]) simp_all
  then show ?case using di(2,4) [OF ok] by simp
qed simp

lemma deliver_fold_frame:
  "fold (\<lambda>(i, spans). deliver_one (ok i) spans) xs (sent, n, tb) = (sent', n', tb') \<Longrightarrow>
   tb_traces tb' = tb_traces tb \<and> tb_carry tb' = tb_carry tb \<and> tb_rescuedAtCap tb' = tb_rescuedAtCap tb
   \<and> tb_decided tb' = tb_decided tb"
proof (induction xs arbitrary: sent n tb)
  case (Cons x xs)
  obtain i spans where x: "x = (i, spans)" by fastforce
  from Cons.prems have "fold (\<lambda>(i, spans). deliver_one (ok i) spans) xs
      (if ok i then sent + int (length spans) else sent, n + lost_spans (ok i) spans, deliver_batch (ok i) spans tb)
      = (sent', n', tb')"
    by (simp add: x deliver_one_eq)
  from Cons.IH [OF this] show ?case by simp
qed simp

lemma flush_all_empties:
  assumes inv: "tb_inv tb" and ords: "permutes (fe_traceOrd env)" "permutes (fe_carryOrd env)"
    and fl: "flush env now True tb = (sent, tb')"
  shows "tb_traces tb' = []" and "ct_m (tb_carry tb') = []" and "tb_rescuedAtCap tb' = []" and "dt_late (tb_decided tb') = []"
proof -
  obtain f1 tb1 where b: "flush_begin (fe_traceOrd env) now True tb = (f1, tb1)" by fastforce
  obtain f2 tb2 where d: "fold (\<lambda>i. decide_one (fe_lookup env i) now) [0..<length (fl_todo f1)] (f1, tb1) = (f2, tb2)"
    by fastforce
  obtain f3 tb3 where c: "flush_carriers (fe_carryOrd env) now True (f2, tb2) = (f3, tb3)" by fastforce
  obtain late tb4 where e: "settle now (fl_decided f3) tb3 = (late, tb4)" by fastforce
  obtain sent' n tb5 where g: "fold (\<lambda>(i, spans). deliver_one (fe_ok env i) spans)
      (enumerate 0 (flush_batches (fl_kept f3) late)) (0, 0, tb4) = (sent', n, tb5)" by (metis prod_cases3)
  have tb': "tb' = end_flush n tb5"
    using fl by (simp add: flush_def Let_def b d c e deliverAll_def g end_flush_def)
  note bi = flush_begin_inv [OF inv ords(1) b]
  have di: "tb_inv tb2 \<and> tb_traces tb2 = tb_traces tb1 \<and> tb_rescuedAtCap tb2 = tb_rescuedAtCap tb1"
    by (rule decide_fold_frame [where a = 0, OF bi(2,6) refl]) (use d in simp)
  obtain carriers c' where cc: "carry_expired (fe_carryOrd env) (tb_carry tb2) now True = (carriers, c')"
    and tb3: "tb3 = ledgerCarriers (tb2\<lparr>tb_carry := c'\<rparr>) carriers"
    using flush_carriers_inv [OF _ ords(2) c] di by metis
  note se = settle_eq(2) [OF e] and gf = deliver_fold_frame [OF g]
  show "tb_traces tb' = []"
    using flush_begin_all [OF inv ords(1) b] di gf by (simp add: tb' se tb3)
  show "ct_m (tb_carry tb') = []"
    using carry_expired_all [OF tb_invD(8) ords(2), of tb2 now] cc di gf by (simp add: tb' se tb3)
  show "tb_rescuedAtCap tb' = []" using flush_begin_eq(10) [OF b] di gf by (simp add: tb' se tb3)
  show "dt_late (tb_decided tb') = []" using gf by (simp add: tb' se decided_takeLate_def)
qed

text \<open>
  C4: closing the buffer leaves nothing behind. From any reachable state between flushes, \<^verbatim>\<open>Close\<close>
  decides every trace: afterwards no trace is buffered, no rescued trace, late span or drop
  count is pending, and, as long as the cap on remembered decisions has evicted none, every
  span ever accepted has been counted under exactly one exit. Before it decides, \<^verbatim>\<open>Close\<close> reports
  how many traces and spans it found.
\<close>

theorem Close_leaves_nothing:
  assumes reach: "reachable (start (fresh_buffer ttl maxSpans rules grace)) s" and idle: "sy_phase s = Idle"
    and ords: "permutes (fe_traceOrd env)" "permutes (fe_carryOrd env)"
    and opened: "\<not> tb_closed (sy_tb s)" and close: "Close env now (sy_tb s) = (res, tb')"
  shows "tb_traces tb' = [] \<and> ct_m (tb_carry tb') = [] \<and> tb_rescuedAtCap tb' = [] \<and> dt_late (tb_decided tb') = []
    \<and> cr_Traces res = int (length (tb_traces (sy_tb s))) \<and> cr_Spans res = tb_spanCount (sy_tb s)
    \<and> (bs_DecidedEvicted (Stats tb') = 0 \<longrightarrow>
        cell (tb_ledger tb') k Accepted = cell (tb_ledger tb') k SampledOut + cell (tb_ledger tb') k ShedUnsampled
          + cell (tb_ledger tb') k LostInBuffer + cell (tb_ledger tb') k Forwarded)"
proof -
  let ?s = "s\<lparr>sy_tb := (sy_tb s)\<lparr>tb_closed := True\<rparr>\<rparr>"
  have r: "reachable (start (fresh_buffer ttl maxSpans rules grace)) ?s"
    by (rule reachable.step [OF reach tb_step.close_once])
  obtain kept where fl: "flush env now True (sy_tb ?s) = (kept, tb')" and res: "res = (stopGC (sy_tb s))\<lparr>cr_Kept := kept\<rparr>"
    using close opened by (auto simp: Close_def Let_def finish_def split: prod.splits)
  have inv: "tb_inv (sy_tb ?s)" by (rule reachable_tb_inv [OF r])
  note empty = flush_all_empties [OF inv ords fl]
  have "sy_phase ?s = Idle" using idle by simp
  from flush_runs [OF this ords fl] obtain hi where r': "reachable ?s (?s\<lparr>sy_tb := tb', sy_phase := Idle, sy_hist := hi\<rparr>)"
    by blast
  let ?s' = "?s\<lparr>sy_tb := tb', sy_phase := Idle, sy_hist := hi\<rparr>"
  have r2: "reachable (start (fresh_buffer ttl maxSpans rules grace)) ?s'" by (rule reachable_trans [OF r' r])
  have "exits_at k (tb_ledger tb') - cell (tb_ledger tb') k Accepted = 0" if ev: "evictions tb' = 0"
  proof -
    have "sys_separate ?s'"
      by (rule reachable_separate [OF r2 sys_inv_start sys_separate_start]) (simp add: ev start_def)
    then have "dt_held (tb_decided tb') = []" by (simp add: sys_separate_def phase_ids_def apart_empty)
    then have "held_spans ?s' = []"
      using empty by (simp add: held_spans_def buffer_spans_def decided_spans_def phase_spans_def)
    moreover have "(\<Sum>x\<leftarrow>xs. span_at k x + - span_at k x) = 0" for xs :: "SpanRecord list"
      by (induction xs) simp_all
    ultimately show ?thesis
      using ledger_account.fresh_account [OF r2, of k] ev by (simp add: exits_at_def tally_New_def)
  qed
  then show ?thesis using empty res by (simp add: Stats_evicted exits_at_def stopGC_def)
qed

definition demo_env :: flush_env where
  "demo_env = \<lparr>fe_traceOrd = rev, fe_carryOrd = rev, fe_lookup = (\<lambda>_. None), fe_ok = (\<lambda>i. i = 0)\<rparr>"

theorem Close_leaves_nothing_witness:
  "tb_traces (snd (Close demo_env 20 (sy_tb demo_run))) = []
   \<and> cr_Spans (fst (Close demo_env 20 (sy_tb demo_run))) = 2
   \<and> tb_spanCount (sy_tb demo_run) = 2"
proof -
  have c: "tb_spanCount (sy_tb demo_run) = 2" "\<not> tb_closed (sy_tb demo_run)" by code_simp+
  have idle: "sy_phase demo_run = Idle" by (simp add: demo_run_def add_step_def start_def)
  obtain res tb' where close: "Close demo_env 20 (sy_tb demo_run) = (res, tb')" by fastforce
  have ords: "permutes (fe_traceOrd demo_env)" "permutes (fe_carryOrd demo_env)" by (simp_all add: demo_env_def)
  from Close_leaves_nothing [OF demo_reachable [unfolded demo_buffer_def] idle ords c(2) close] c(1)
  show ?thesis by (simp add: close)
qed

end
