(* ===== verification/TraceWeights.thy ===== *)
theory TraceWeights
  imports TraceBufferProps
begin

text \<open>
  Weights, order and pressure: every span handed to delivery carries a positive weight, the
  order in which a flush decides does not depend on map order, \<^verbatim>\<open>Drain\<close> ends, and the warnings
  about a buffer at its cap are spaced out. A run in which \<^verbatim>\<open>Add\<close> refuses a span although no
  error trace is buffered closes the theory.
\<close>

declare map_of_eq_Some_iff [simp del] not_None_eq [iff del]

section \<open>Positive weights\<close>

definition weighted :: "SpanRecord list \<Rightarrow> bool" where
  "weighted xs \<longleftrightarrow> (\<forall>s \<in> set xs. 1 \<le> sr_SampleWeight s)"

definition decided_weights :: "decidedTraces \<Rightarrow> bool" where
  "decided_weights d \<longleftrightarrow> (\<forall>i e. map_of (dt_m d) i = Some e \<longrightarrow> 0 \<le> dc_weight e) \<and> weighted (dt_late d)"

definition tb_weights :: "TraceBuffer \<Rightarrow> bool" where
  "tb_weights tb \<longleftrightarrow> decided_weights (tb_decided tb) \<and> weighted (traces_spans (tb_rescuedAtCap tb))"

definition phase_weights :: "phase \<Rightarrow> bool" where
  "phase_weights ph = (case ph of Idle \<Rightarrow> True
    | Deciding now all fl \<Rightarrow> weighted (traces_spans (fl_kept fl)) \<and> (\<forall>w \<in> snd ` set (fl_decided fl). 0 \<le> w)
    | Settling now fl \<Rightarrow> weighted (traces_spans (fl_kept fl)) \<and> (\<forall>w \<in> snd ` set (fl_decided fl). 0 \<le> w)
    | Delivering kept late n \<Rightarrow> weighted (traces_spans kept) \<and> weighted late)"

lemma weighted_simps [simp]:
  "weighted []" "weighted (s # xs) \<longleftrightarrow> 1 \<le> sr_SampleWeight s \<and> weighted xs"
  "weighted (xs @ ys) \<longleftrightarrow> weighted xs \<and> weighted ys"
  by (auto simp: weighted_def)

lemma weighted_stamp: "1 \<le> w \<Longrightarrow> weighted (bt_spans (stampWeight tr w))"
  by (auto simp: weighted_def stampWeight_def)

lemma put_weights:
  assumes "decided_wf d" and "decided_weights d" and "0 \<le> w"
  shows "decided_weights (snd (decided_put d tid w p at))"
proof -
  have "0 \<le> dc_weight e" if "map_of (dt_m (snd (decided_put d tid w p at))) i = Some e" for i e
  proof (cases "i = tid")
    case True
    then show ?thesis using put_lookup(1) [OF assms(1), of tid w p at] that assms(3) by auto
  next
    case False
    then show ?thesis
      using put_lookup(2) [OF assms(1) False that] assms(2) by (auto simp: decided_weights_def)
  qed
  then show ?thesis using assms(2) by (simp add: decided_weights_def)
qed

lemma follow_weights:
  assumes d: "decided_weights d"
  shows "decided_weights (follow_state d t rec)"
proof -
  have "0 \<le> dc_weight e" if "map_of (dt_m (follow_state d t rec)) i = Some e" for i e
    using that d by (auto simp: follow_lookup decided_weights_def split: option.splits if_splits)
  moreover have "weighted (dt_late (follow_state d t rec))"
  proof (cases rule: follow_cases [of d rec t])
    case (kept e)
    have "0 \<le> dc_weight e" using d kept(1) unfolding decided_weights_def by blast
    with kept(3) have "1 \<le> dc_weight e" by simp
    then show ?thesis using kept(5) d by (simp add: decided_weights_def)
  qed (use d in \<open>simp_all add: decided_weights_def\<close>)
  ultimately show ?thesis by (simp add: decided_weights_def)
qed

lemma expire_weights: "decided_weights d \<Longrightarrow> decided_weights (decided_expire d now)"
  using expire_other [of d now] unfolding decided_weights_def expire_frame by blast

lemma evicts_weights:
  assumes inv: "tb_inv tb" and e: "evicts lk now tb i tr tb'" and w: "tb_weights tb"
  shows "tb_weights tb'"
proof -
  note D = tb_invD [OF inv]
  have dw: "decided_weights (tb_decided tb)" using w by (simp add: tb_weights_def)
  consider (rescued) v tb0 tb1 where "v \<noteq> 0" "tb_carry tb0 = tb_carry tb" "keepWeight lk tb0 tr now = (v, tb1)"
      "tb_rescuedAtCap tb' = tb_rescuedAtCap tb @ [stampWeight tr v]"
      "tb_decided tb' = snd (decided_put (tb_decided tb) i v False now)"
    | (dropped) "tb_rescuedAtCap tb' = tb_rescuedAtCap tb"
      "tb_decided tb' = snd (decided_put (tb_decided tb) i 0 False now)"
    using e unfolding evicts_def by blast
  then show ?thesis
  proof cases
    case rescued
    then have "1 \<le> v" using keepWeight_inv(3) [of tb0 lk tr now v tb1] D(8,9) by simp
    then show ?thesis
      using rescued w put_weights [OF D(10) dw, of v i False now] weighted_stamp [of v tr] by (simp add: tb_weights_def)
  next
    case dropped
    then show ?thesis using w put_weights [OF D(10) dw, of 0 i False now] by (simp add: tb_weights_def)
  qed
qed

lemma Add_weights:
  assumes inv: "tb_inv tb" and w: "tb_weights tb"
  shows "tb_weights (Add lk now rec tb)"
proof -
  let ?tb = "accept_span tb rec"
  have er: "tb_weights (snd (ensureRoom lk now keep ?tb))" for keep
    by (rule ensureRoom_evicts_induct [THEN conjunct2, of tb_weights])
      (use inv w in \<open>auto simp: evicts_weights\<close>, simp_all add: tb_weights_def)
  show ?thesis
  proof (cases rule: Add_cases [OF inv, of rec lk now, case_names followed refused inserted])
    case followed
    then show ?thesis using w follow_weights by (simp add: tb_weights_def)
  next
    case (refused keep tb1)
    then show ?thesis using er [of keep] by (simp add: tb_weights_def)
  next
    case (inserted room keep tb1)
    then show ?thesis using er [of keep] by (simp add: tb_weights_def inserts_def)
  qed
qed

lemma begun_weights: "begin_ok tb trs \<Longrightarrow> tb_weights tb \<Longrightarrow> tb_weights (begun now tb trs)"
proof (induction trs arbitrary: tb)
  case (Cons tr trs)
  note ok = begin_ok_Cons [OF Cons.prems(1)]
  have "tb_weights (begin_trace now tr tb)"
    using Cons.prems(2) put_weights [OF tb_invD(10) [OF ok(1)], of 0] by (simp add: tb_weights_def)
  then show ?case using Cons.IH [OF ok(3) [of now]] by simp
qed simp

lemma settle_weights:
  assumes "tb_inv tb" and "tb_weights tb" and "\<forall>w \<in> snd ` set ws. 0 \<le> w"
  shows "tb_weights (fold (settle_one now) ws tb)"
  using assms
proof (induction ws arbitrary: tb)
  case (Cons iw ws)
  obtain i w where iw: "iw = (i, w)" by fastforce
  let ?tb = "tb\<lparr>tb_decided := snd (decided_put (tb_decided tb) i w False now)\<rparr>"
  have "tb_weights ?tb"
    using Cons.prems iw put_weights [OF tb_invD(10) [OF Cons.prems(1)], of w i False now] by (simp add: tb_weights_def)
  moreover have "tb_weights (fold settle_held recs u)" if "tb_weights u" for recs u
    using that by (induction recs arbitrary: u) (simp_all add: settle_held_eq tb_weights_def follow_weights)
  ultimately have "tb_weights (settle_one now (i, w) tb)" by (simp add: settle_one_eq)
  with Cons settle_one_inv(1) [OF Cons.prems(1)] iw show ?case by simp
qed simp

definition sys_weights :: "system \<Rightarrow> bool" where
  "sys_weights s \<longleftrightarrow> tb_weights (sy_tb s) \<and> phase_weights (sy_phase s) \<and> weighted (hist_out (sy_hist s))"

lemma weighted_carriers:
  assumes "carry_wf c" and "permutes ord" and e: "carry_expired ord c now all = (out, c')"
  shows "weighted (traces_spans out)"
proof -
  have "weighted (bt_spans tr)" if tr: "tr \<in> set out" for tr
  proof -
    obtain k e t where "(k, e) \<in> set (ct_m c)" "tr = stampWeight t (ce_dropped e)"
      using carry_expired_props(4) [OF assms tr] by blast
    moreover from this have "1 \<le> ce_dropped e" using assms(1) by (auto simp: carry_wf_def entry_ok_def)
    ultimately show ?thesis using weighted_stamp by simp
  qed
  then show ?thesis by (auto simp: traces_spans_def weighted_def)
qed

lemma step_weights: "tb_step s s' \<Longrightarrow> sys_inv s \<Longrightarrow> sys_weights s \<Longrightarrow> sys_weights s'"
proof (induction rule: tb_step.induct)
  case (add s lk now rec)
  then show ?case using Add_weights [of "sy_tb s" lk now rec] by (simp add: sys_weights_def sys_inv_def hist_out_def)
next
  case (begin_flush s ord now all fl tb)
  have inv: "tb_inv (sy_tb s)" "tb_weights (sy_tb s)" using begin_flush by (simp_all add: sys_inv_def sys_weights_def)
  have "tb_weights (begun now (sy_tb s) (fl_todo fl))"
    by (rule begun_weights [OF flush_begin_inv(1) [OF inv(1) begin_flush(2,3)] inv(2)])
  then have "tb_weights tb"
    using flush_begin_eq(10,11) [OF begin_flush(3)] expire_weights by (simp add: tb_weights_def)
  then show ?case
    using begin_flush(5) flush_begin_eq(2,3) [OF begin_flush(3)]
    by (simp add: sys_weights_def phase_weights_def tb_weights_def)
next
  case (decide s now all fl tr rest lk fl' tb)
  have inv: "tb_inv (sy_tb s)" and ok: "trace_ok tr" using decide by (auto simp: sys_inv_def phase_ok_def)
  note d = decide_one_inv [OF inv decide(2) ok decide(3)]
  obtain w tb1 where k: "keepWeight lk (sy_tb s) tr now = (w, tb1)" by fastforce
  have "0 \<le> w" using keepWeight_inv(3) [OF tb_invD(8,9) [OF inv] k] .
  then have "phase_weights (Deciding now all fl')"
    using decide(1,3,5) decide_one_Cons [OF decide(2) k] weighted_stamp [of w tr]
    by (auto simp: sys_weights_def phase_weights_def split: if_splits)
  then show ?case using decide(5) d(3,4) by (simp add: sys_weights_def tb_weights_def)
next
  case (carry s now all fl ord fl' tb)
  have inv: "tb_inv (sy_tb s)" using carry by (simp add: sys_inv_def)
  obtain carriers c' where e: "carry_expired ord (tb_carry (sy_tb s)) now all = (carriers, c')"
    and "fl' = fl\<lparr>fl_kept := fl_kept fl @ carriers\<rparr>" "tb = ledgerCarriers ((sy_tb s)\<lparr>tb_carry := c'\<rparr>) carriers"
    using flush_carriers_inv [OF inv carry(3,4)] by metis
  then show ?case
    using carry(1,6) weighted_carriers [OF tb_invD(8) [OF inv] carry(3) e]
    by (simp add: sys_weights_def phase_weights_def tb_weights_def)
next
  case (settle s now fl late tb)
  have "tb_weights (fold (settle_one now) (fl_decided fl) (sy_tb s))"
    by (rule settle_weights) (use settle in \<open>simp_all add: sys_inv_def sys_weights_def phase_weights_def\<close>)
  then have "weighted late" "tb_weights tb"
    unfolding settle_eq [OF settle(2)] by (simp_all add: tb_weights_def decided_weights_def decided_takeLate_def)
  then show ?case using settle(1,4) by (simp add: sys_weights_def phase_weights_def)
next
  case (deliver_trace s tr kept late n ok)
  then show ?case
    by (auto simp: sys_weights_def phase_weights_def tb_weights_def hist_out_def)
next
  case (deliver_late s late n ok)
  then show ?case by (auto simp: sys_weights_def phase_weights_def tb_weights_def hist_out_def)
qed (auto simp: sys_weights_def phase_weights_def tb_weights_def)

lemma reachable_weights: "reachable s0 s \<Longrightarrow> sys_inv s0 \<Longrightarrow> sys_weights s0 \<Longrightarrow> sys_weights s"
proof (induction rule: reachable.induct)
  case (step s s')
  then show ?case using step_weights [OF step(2)] reachable_inv [OF step(1,4)] by simp
qed

text \<open>
  C7: every span handed to delivery carries a weight of at least 1, whichever way its trace was
  kept: by an error, as slow, by the ratio or the floor, rescued at the cap, as a carrier of
  dropped traces, or as a late span following its trace's decision. No stored span has the
  weight 0 of a dropped trace.
\<close>

theorem delivered_weights_positive:
  assumes "reachable (start (fresh_buffer ttl maxSpans rules grace)) s"
  shows "\<forall>x \<in> set (hist_out (sy_hist s)). 1 \<le> sr_SampleWeight x"
proof -
  have "sys_weights (start (fresh_buffer ttl maxSpans rules grace))"
    by (simp add: sys_weights_def start_def tb_weights_def decided_weights_def phase_weights_def hist_out_def)
  from reachable_weights [OF assms sys_inv_start this] show ?thesis by (simp add: sys_weights_def weighted_def)
qed

theorem delivered_weights_positive_witness:
  "\<exists>hi. hi_added hi = hi_added (sy_hist demo_run)
     \<and> hist_out hi \<noteq> [] \<and> list_all (\<lambda>x. 1 \<le> sr_SampleWeight x) (hist_out hi)"
proof -
  obtain sent tb' where f: "flush demo_env 20 True (sy_tb demo_run) = (sent, tb')" by fastforce
  have "0 < fst (flush demo_env 20 True (sy_tb demo_run))" by code_simp
  with f have sent: "0 < sent" by simp
  have idle: "sy_phase demo_run = Idle" by (simp add: demo_run_def add_step_def start_def)
  have ords: "permutes (fe_traceOrd demo_env)" "permutes (fe_carryOrd demo_env)" by (simp_all add: demo_env_def)
  obtain hi where hi: "hi_added hi = hi_added (sy_hist demo_run)"
    and r: "reachable demo_run (demo_run\<lparr>sy_tb := tb', sy_phase := Idle, sy_hist := hi\<rparr>)"
    and out: "int (length (hist_out (sy_hist demo_run))) + sent \<le> int (length (hist_out hi))"
    using flush_runs [OF idle ords f] by blast
  from delivered_weights_positive [OF reachable_trans [OF r demo_reachable [unfolded demo_buffer_def]]]
  have "list_all (\<lambda>x. 1 \<le> sr_SampleWeight x) (hist_out hi)" by (simp add: list_all_iff)
  moreover have "hist_out hi \<noteq> []" using out sent by auto
  ultimately show ?thesis using hi by blast
qed

section \<open>Map order\<close>

text \<open>
  C13: the order in which a flush decides traces does not depend on the order in which Go ranges
  over the trace map: whatever that order, the first critical section of a flush takes the
  same traces out in the same order, sorted by arrival, and leaves the same buffer.
\<close>

theorem flush_order_irrelevant:
  assumes "reachable (start (fresh_buffer ttl maxSpans rules grace)) s" and "permutes ord"
  shows "flush_begin ord now all (sy_tb s) = flush_begin id now all (sy_tb s)
    \<and> sorted (map bt_seq (fl_todo (fst (flush_begin ord now all (sy_tb s)))))"
proof -
  let ?tb = "sy_tb s" and ?P = "\<lambda>tr. all \<or> due (sy_tb s) tr now"
  have "mset (filter ?P (map snd (ord (tb_traces ?tb)))) = mset (filter ?P (map snd (tb_traces ?tb)))"
    using permutes_mset [OF assms(2), of "tb_traces ?tb"] by (metis mset_filter mset_map)
  moreover have "distinct (map bt_seq (filter ?P (map snd (tb_traces ?tb))))"
    using tb_invD(5) [OF reachable_tb_inv [OF assms(1)]] by (intro distinct_map_filter) simp
  ultimately have "sortByArrival (filter ?P (map snd (ord (tb_traces ?tb)))) =
      sortByArrival (filter ?P (map snd (id (tb_traces ?tb))))"
    unfolding sortByArrival_def by (intro sort_key_perm_unique [symmetric]) simp_all
  then have "flush_begin ord now all ?tb = flush_begin id now all ?tb" by (simp only: flush_begin_def)
  moreover have "fl_todo (fst (flush_begin ord now all ?tb)) = due_list ord now all ?tb"
    by (rule flush_begin_eq(1) [OF surjective_pairing])
  ultimately show ?thesis by (simp add: due_list_def sortByArrival_def)
qed

theorem flush_order_irrelevant_witness:
  "flush_begin rev 20 True (sy_tb demo_run) = flush_begin id 20 True (sy_tb demo_run)
   \<and> map bt_id (fl_todo (fst (flush_begin rev 20 True (sy_tb demo_run)))) = [''a'', ''b'']"
proof
  show "map bt_id (fl_todo (fst (flush_begin rev 20 True (sy_tb demo_run)))) = [''a'', ''b'']" by code_simp
qed (rule flush_order_irrelevant [OF demo_reachable [unfolded demo_buffer_def] permutes_rev, THEN conjunct1])

section \<open>Drain\<close>

lemma drain_loop_returns:
  "ticks \<noteq> [] \<Longrightarrow> deadline \<le> snd (last ticks) \<Longrightarrow> \<exists>kept tb'. drain_loop deadline ticks n tb = Some (kept, tb')"
proof (induction ticks arbitrary: n tb)
  case (Cons et ticks)
  obtain env now where et: "et = (env, now)" by fastforce
  obtain sent rooted tb1 where d: "drainStep env now tb = (sent, rooted, tb1)" by (metis prod_cases3)
  show ?case
  proof (cases "rooted = 0 \<or> \<not> now < deadline")
    case False
    then have "ticks \<noteq> []" using Cons.prems(2) et by (cases ticks) auto
    with Cons.IH [of "n + sent" tb1] Cons.prems(2) False d et show ?thesis by auto
  qed (use d et in auto)
qed simp

lemma drain_loop_runs:
  "drain_loop deadline ticks n (sy_tb s) = Some (kept, tb') \<Longrightarrow> sy_phase s = Idle \<Longrightarrow>
   \<forall>(env, now) \<in> set ticks. permutes (fe_traceOrd env) \<and> permutes (fe_carryOrd env) \<Longrightarrow>
   \<exists>hi. reachable s (s\<lparr>sy_tb := tb', sy_phase := Idle, sy_hist := hi\<rparr>)"
proof (induction ticks arbitrary: n s)
  case (Cons et ticks)
  obtain env now where et: "et = (env, now)" by fastforce
  obtain sent tb1 where f: "flush env now False (sy_tb s) = (sent, tb1)" by fastforce
  have ords: "permutes (fe_traceOrd env)" "permutes (fe_carryOrd env)" using Cons.prems(3) et by auto
  obtain hi where r: "reachable s (s\<lparr>sy_tb := tb1, sy_phase := Idle, sy_hist := hi\<rparr>)"
    using flush_runs [OF Cons.prems(2) ords f] by blast
  let ?s = "s\<lparr>sy_tb := tb1, sy_phase := Idle, sy_hist := hi\<rparr>"
  from Cons.prems(1) et f consider "tb' = tb1" | "drain_loop deadline ticks (n + sent) (sy_tb ?s) = Some (kept, tb')"
    by (auto simp: drainStep_def Let_def split: if_splits)
  then show ?case
  proof cases
    case 1
    with r show ?thesis by blast
  next
    case 2
    obtain hi' where "reachable ?s (?s\<lparr>sy_tb := tb', sy_phase := Idle, sy_hist := hi'\<rparr>)"
      using Cons.IH [OF 2] Cons.prems(3) by auto
    then show ?thesis using reachable_trans [OF _ r] by auto
  qed
qed simp

text \<open>
  C5: draining ends and leaves nothing behind. From any reachable open state between flushes,
  \<^verbatim>\<open>Drain\<close> returns once a tick reads a clock at or after the deadline, however many traces wait
  for their root, and afterwards no trace, rescued trace, late span or drop count is left.
\<close>

theorem Drain_returns_empty:
  assumes reach: "reachable (start (fresh_buffer ttl maxSpans rules grace)) s" and idle: "sy_phase s = Idle"
    and opened: "\<not> tb_closed (sy_tb s)"
    and ticks: "ticks \<noteq> []" "deadline \<le> snd (last ticks)"
    and ords: "\<forall>(e, t) \<in> set ((env, now) # ticks). permutes (fe_traceOrd e) \<and> permutes (fe_carryOrd e)"
  shows "\<exists>res tb'. Drain deadline ticks env now (sy_tb s) = Some (res, tb') \<and> tb_traces tb' = []
    \<and> ct_m (tb_carry tb') = [] \<and> tb_rescuedAtCap tb' = [] \<and> dt_late (tb_decided tb') = []
    \<and> cr_Spans res = tb_spanCount (sy_tb s)"
proof -
  let ?s = "s\<lparr>sy_tb := (sy_tb s)\<lparr>tb_closed := True\<rparr>\<rparr>"
  have r: "reachable (start (fresh_buffer ttl maxSpans rules grace)) ?s"
    by (rule reachable.step [OF reach tb_step.close_once])
  obtain kept tb1 where d: "drain_loop deadline ticks 0 (sy_tb ?s) = Some (kept, tb1)"
    using drain_loop_returns [OF ticks] by blast
  obtain hi where r1: "reachable ?s (?s\<lparr>sy_tb := tb1, sy_phase := Idle, sy_hist := hi\<rparr>)"
    using drain_loop_runs [OF d] idle ords by auto
  have "tb_inv tb1" using reachable_tb_inv [OF reachable_trans [OF r1 r]] by simp
  moreover obtain rest tb2 where f: "flush env now True tb1 = (rest, tb2)" by fastforce
  ultimately have "tb_traces tb2 = []" "ct_m (tb_carry tb2) = []" "tb_rescuedAtCap tb2 = []" "dt_late (tb_decided tb2) = []"
    using flush_all_empties [of tb1 env now rest tb2] ords by auto
  then show ?thesis using d opened f by (simp add: Drain_def Let_def finish_def stopGC_def)
qed

theorem Drain_returns_empty_witness:
  "\<exists>res tb'. Drain 30 [(demo_env, 20), (demo_env, 40)] demo_env 41 (sy_tb demo_run) = Some (res, tb')
     \<and> tb_traces tb' = [] \<and> cr_Spans res = tb_spanCount (sy_tb demo_run)"
proof -
  have c: "\<not> tb_closed (sy_tb demo_run)" by code_simp
  have idle: "sy_phase demo_run = Idle" by (simp add: demo_run_def add_step_def start_def)
  from Drain_returns_empty [OF demo_reachable [unfolded demo_buffer_def] idle c,
      of "[(demo_env, 20), (demo_env, 40)]" 30 demo_env 41]
  show ?thesis by (auto simp: demo_env_def)
qed

section \<open>Warnings at the cap\<close>

text \<open>The warnings of a sequence of flush windows: when each was due and for how long the cap was reached.\<close>

fun cap_warnings :: "capPressure \<Rightarrow> (lossWindow \<times> gotime) list \<Rightarrow> (gotime \<times> duration) list" where
  "cap_warnings p [] = []"
| "cap_warnings p ((w, now) # ws) =
     (let (d, p') = observe p w now in (if d > 0 then [(now, d)] else []) @ cap_warnings p' ws)"

lemma time_sub_ge: "min_duration < d \<Longrightarrow> d \<le> time_sub t u \<Longrightarrow> d \<le> t - u"
  by (auto simp: time_sub_def)

lemma observe_warning:
  assumes "observe p w now = (d, p')" and "d > 0"
  shows "capPressureWarnAfter \<le> d" and "atCap w" and "cp_warned p' = now"
    and "cp_warned p \<noteq> 0 \<Longrightarrow> cp_warned p + capPressureRepeat \<le> now"
proof -
  define q where "q = (if IsZero (cp_since p) then p\<lparr>cp_since := now\<rparr> else p)"
  have w: "cp_warned q = cp_warned p" by (simp add: q_def)
  have at: "atCap w" using assms by (auto simp: observe_def split: if_splits)
  have ob: "\<not> (time_sub now (cp_since q) < capPressureWarnAfter
      \<or> (\<not> IsZero (cp_warned q) \<and> time_sub now (cp_warned q) < capPressureRepeat))"
    "d = time_sub now (cp_since q)" "p' = q\<lparr>cp_warned := now\<rparr>"
    using assms at by (auto simp: observe_def Let_def q_def [symmetric] split: if_splits)
  show "capPressureWarnAfter \<le> d" "atCap w" "cp_warned p' = now" using ob at by auto
  show "cp_warned p + capPressureRepeat \<le> now" if "cp_warned p \<noteq> 0"
    using ob(1) that w time_sub_ge [of capPressureRepeat now "cp_warned p"]
    by (auto simp: IsZero_def zero_time_def capPressureRepeat_def time_units min_duration_def)
qed

lemma observe_quiet: "observe p w now = (d, p') \<Longrightarrow> \<not> d > 0 \<Longrightarrow> cp_warned p' = cp_warned p \<or> now = cp_warned p'"
  by (auto simp: observe_def Let_def split: if_splits)

lemma observe_quiet_warned:
  assumes "observe p w now = (d, p')" and "\<not> d > 0"
  shows "cp_warned p' = cp_warned p"
proof -
  have "capPressureWarnAfter > 0" by (simp add: capPressureWarnAfter_def time_units)
  with assms show ?thesis by (auto simp: observe_def Let_def split: if_splits)
qed

lemma cap_warnings_spaced:
  "\<forall>(w, now) \<in> set ws. now \<noteq> 0 \<Longrightarrow>
   sorted_wrt (\<lambda>a b. fst a + capPressureRepeat \<le> fst b) (cap_warnings p ws)
   \<and> (\<forall>(t, d) \<in> set (cap_warnings p ws). capPressureWarnAfter \<le> d \<and> (cp_warned p \<noteq> 0 \<longrightarrow> cp_warned p + capPressureRepeat \<le> t))"
proof (induction ws arbitrary: p)
  case (Cons wn ws)
  obtain w now where wn: "wn = (w, now)" by fastforce
  obtain d p' where ob: "observe p w now = (d, p')" by fastforce
  have pos: "0 < capPressureRepeat" by (simp add: capPressureRepeat_def time_units)
  have ih: "sorted_wrt (\<lambda>a b. fst a + capPressureRepeat \<le> fst b) (cap_warnings p' ws)"
    "\<And>t d. (t, d) \<in> set (cap_warnings p' ws) \<Longrightarrow>
       capPressureWarnAfter \<le> d \<and> (cp_warned p' \<noteq> 0 \<longrightarrow> cp_warned p' + capPressureRepeat \<le> t)"
    using Cons.IH [of p'] Cons.prems wn by auto
  show ?case
  proof (cases "d > 0")
    case True
    note o = observe_warning [OF ob True]
    have "now \<noteq> 0" using Cons.prems wn by simp
    with o(3) ih(2) have later: "\<And>t e. (t, e) \<in> set (cap_warnings p' ws) \<Longrightarrow> capPressureWarnAfter \<le> e \<and> now + capPressureRepeat \<le> t"
      by simp
    have "cp_warned p \<noteq> 0 \<Longrightarrow> (t, e) \<in> set (cap_warnings p' ws) \<Longrightarrow> cp_warned p + capPressureRepeat \<le> t" for t e
      using later [of t e] o(4) pos by linarith
    then show ?thesis using True ob o(1,4) ih(1) later by (auto simp: wn)
  next
    case False
    then show ?thesis using ob observe_quiet_warned [OF ob False] ih by (auto simp: wn)
  qed
qed simp

text \<open>
  The warnings about a buffer at its cap are rate-limited. Whatever flush windows are observed
  at whatever (set) clock readings, every warning reports a stretch of at least ten minutes at
  the cap, and any two warnings are at least an hour apart.
\<close>

theorem cap_warnings_limited:
  assumes "\<forall>(w, now) \<in> set ws. now \<noteq> 0"
  shows "sorted_wrt (\<lambda>a b. fst a + capPressureRepeat \<le> fst b)
      (cap_warnings \<lparr>cp_since = zero_time, cp_warned = zero_time\<rparr> ws)
    \<and> (\<forall>(t, d) \<in> set (cap_warnings \<lparr>cp_since = zero_time, cp_warned = zero_time\<rparr> ws). capPressureWarnAfter \<le> d)"
  using cap_warnings_spaced [OF assms, of "\<lparr>cp_since = zero_time, cp_warned = zero_time\<rparr>"] by auto

definition full_window :: lossWindow where
  "full_window = \<lparr>lw_refused = 0, lw_evictedSacrif = 4, lw_evictedKept = 0, lw_rescued = 0, lw_maxSpans = 10,
     lw_buffered = 10, lw_traces = 1, lw_atCapFor = 0\<rparr>"

theorem cap_warnings_limited_witness:
  "sorted_wrt (\<lambda>a b. fst a + capPressureRepeat \<le> fst b)
     (cap_warnings \<lparr>cp_since = zero_time, cp_warned = zero_time\<rparr>
       [(full_window, 1 * second), (full_window, 700 * second), (full_window, 800 * second), (full_window, 5000 * second)])
   \<and> map fst (cap_warnings \<lparr>cp_since = zero_time, cp_warned = zero_time\<rparr>
       [(full_window, 1 * second), (full_window, 700 * second), (full_window, 800 * second), (full_window, 5000 * second)])
     = [700 * second, 5000 * second]"
proof
  show "map fst (cap_warnings \<lparr>cp_since = zero_time, cp_warned = zero_time\<rparr>
       [(full_window, 1 * second), (full_window, 700 * second), (full_window, 800 * second), (full_window, 5000 * second)])
     = [700 * second, 5000 * second]" by code_simp
qed (rule cap_warnings_limited [THEN conjunct1], simp add: second_def)

section \<open>A refusal without error traces\<close>

definition refusal_run :: TraceBuffer where
  "refusal_run = fold (\<lambda>tid tb. Add None 5 (demo_span tid ''p'' ''ok'') tb) [''a'', ''a'', ''a'', ''b'']
     (fresh_buffer 0 2 \<lparr>rr_SlowThresholdUs = 0, rr_MinTracesPerHour = 0\<rparr> 0)"

text \<open>
  A span can be refused although the buffer holds no error trace. With a cap of two spans and a
  clean trace that fills it, the trace's third span consumes the trace's own entries of both
  eviction queues and is refused; from then on nothing can evict that trace, and the first span
  of another trace is refused too.
\<close>

theorem Add_refuses_without_error_trace:
  "tb_refusedTotal refusal_run = 2 \<and> list_all (\<lambda>(tid, tr). \<not> bt_hasError tr) (tb_traces refusal_run)
   \<and> map fst (tb_traces refusal_run) = [''a''] \<and> tb_anyQ refusal_run = [''a''] \<and> tb_anyHead refusal_run = 1"
  by code_simp

end
