(* ===== verification/Float64.thy ===== *)
theory Float64
  imports Complex_Main "HOL-Library.Log_Nat" Prelude
begin

text \<open>
  The double precision arithmetic the sources use. A finite \<^verbatim>\<open>float64\<close> is the rational number it
  stands for, and every operation rounds its exact result with \<open>fl64\<close>: to 53 significant bits,
  ties to the even significand. \<open>trunc\<close> is the conversion to an integer and \<open>go_round\<close> is \<^verbatim>\<open>math.Round\<close>.

  Infinities, NaN, overflow and subnormal numbers are left out. In the histograms they cannot occur: these
  compute with counts, durations and their ratios. The values of metrics come from producers, and nothing
  between the decoder and the arithmetic refuses a NaN or an infinity, so what is proved of metric values
  is proved of finite values whose sums, differences and quotients stay in the normal range.
\<close>

definition fl_exp :: "rat \<Rightarrow> int" where
  "fl_exp x = (case quotient_of x of (a, b) \<Rightarrow>
     let e = bitlen a - bitlen b in if 2 powi e \<le> x then e else e - 1)"

definition round_even :: "rat \<Rightarrow> int" where
  "round_even q = (let f = \<lfloor>q\<rfloor>; r = q - of_int f in
     if r < 1 / 2 then f else if r > 1 / 2 then f + 1 else if even f then f else f + 1)"

definition fl64 :: "rat \<Rightarrow> rat" where
  "fl64 x = (if x = 0 then 0 else let s = fl_exp \<bar>x\<bar> - 52 in of_int (round_even (x / 2 powi s)) * 2 powi s)"

definition trunc :: "rat \<Rightarrow> int" where
  "trunc x = (if x \<ge> 0 then \<lfloor>x\<rfloor> else \<lceil>x\<rceil>)"

definition go_round :: "rat \<Rightarrow> int" where
  "go_round x = (if x \<ge> 0 then \<lfloor>x + 1 / 2\<rfloor> else \<lceil>x - 1 / 2\<rceil>)"

section \<open>Rounding to an integer\<close>

lemma round_even_of_int [simp]: "round_even (of_int n) = n"
  by (simp add: round_even_def)

lemma round_even_cases: "round_even q = \<lfloor>q\<rfloor> \<and> q - of_int \<lfloor>q\<rfloor> \<le> 1 / 2 \<or> round_even q = \<lfloor>q\<rfloor> + 1 \<and> 1 / 2 \<le> q - of_int \<lfloor>q\<rfloor>"
  by (auto simp: round_even_def Let_def)

lemma round_even_mono: "q \<le> q' \<Longrightarrow> round_even q \<le> round_even q'"
proof -
  assume le: "q \<le> q'"
  then have fl: "\<lfloor>q\<rfloor> \<le> \<lfloor>q'\<rfloor>" by (rule floor_mono)
  show ?thesis
  proof (cases "\<lfloor>q\<rfloor> = \<lfloor>q'\<rfloor>")
    case True
    with le show ?thesis by (simp add: round_even_def Let_def)
  next
    case False
    then have "\<lfloor>q\<rfloor> + 1 \<le> \<lfloor>q'\<rfloor>" using fl by simp
    then show ?thesis using round_even_cases [of q] round_even_cases [of q'] by linarith
  qed
qed

lemma round_even_minus: "round_even (- q) = - round_even q"
proof (cases "q = of_int \<lfloor>q\<rfloor>")
  case True
  have "round_even (- of_int \<lfloor>q\<rfloor> :: rat) = - \<lfloor>q\<rfloor>"
    by (metis of_int_minus round_even_of_int)
  with True show ?thesis by (metis round_even_of_int)
next
  case False
  then have c: "\<lceil>q\<rceil> = \<lfloor>q\<rfloor> + 1" by (simp add: ceiling_altdef)
  then have f: "\<lfloor>- q\<rfloor> = - \<lfloor>q\<rfloor> - 1" by (simp add: floor_minus)
  show ?thesis by (simp add: round_even_def Let_def f)
qed

section \<open>The exponent\<close>

lemma powi_split: "2 powi (a + b) = (2 powi a * 2 powi b :: rat)"
  by (simp add: power_int_add)

lemma powi_le: "2 powi a \<le> (2 powi b :: rat) \<longleftrightarrow> a \<le> b"
  by (metis one_less_numeral_iff power_int_mono_iff power_int_increasing power_int_strict_increasing linorder_not_le order.asym order_less_imp_le semiring_norm(76))

lemma of_int_powi: "0 \<le> e \<Longrightarrow> (2 powi e :: rat) = of_int (2 ^ nat e)"
  by (simp add: power_int_def)

lemma bitlen_powi:
  assumes "0 < a"
  shows "2 powi (bitlen a - 1) \<le> (of_int a :: rat)" and "(of_int a :: rat) < 2 powi bitlen a"
proof -
  have b: "2 ^ nat (bitlen a - 1) \<le> a" "a < 2 ^ nat (bitlen a)" and p: "1 \<le> bitlen a"
    using assms bitlen_bounds [of a] bitlen_ge_iff_power [of 1 a] by auto
  show "2 powi (bitlen a - 1) \<le> (of_int a :: rat)"
    using b(1) p by (simp add: of_int_powi del: of_int_power)
  show "(of_int a :: rat) < 2 powi bitlen a"
    using b(2) p by (simp add: of_int_powi del: of_int_power)
qed

lemma fl_exp_bounds:
  assumes "0 < x"
  shows "2 powi fl_exp x \<le> x" and "x < 2 powi (fl_exp x + 1)"
proof -
  obtain a b where q: "quotient_of x = (a, b)" by fastforce
  have b0: "0 < b" by (rule quotient_of_denom_pos [OF q])
  have x: "x = of_int a / of_int b" by (rule quotient_of_div [OF q])
  then have a0: "0 < a" using assms b0 by (simp add: zero_less_divide_iff)
  define e where "e = bitlen a - bitlen b"
  note A = bitlen_powi [OF a0] and B = bitlen_powi [OF b0]
  have "(2 powi (e - 1) :: rat) * 2 powi bitlen b = 2 powi (bitlen a - 1)"
    by (simp add: e_def flip: powi_split)
  moreover have "2 powi (e - 1) * of_int b \<le> 2 powi (e - 1) * (2 powi bitlen b :: rat)"
    using B(2) by (intro mult_left_mono) simp_all
  ultimately have "2 powi (e - 1) * of_int b \<le> (of_int a :: rat)" using A(1) by linarith
  then have lo: "2 powi (e - 1) \<le> x" using b0 by (simp add: x pos_le_divide_eq)
  have "(2 powi (e + 1) :: rat) * 2 powi (bitlen b - 1) = 2 powi bitlen a"
    by (simp add: e_def flip: powi_split)
  moreover have "2 powi (e + 1) * (2 powi (bitlen b - 1) :: rat) \<le> 2 powi (e + 1) * of_int b"
    using B(1) by (intro mult_left_mono) simp_all
  ultimately have "(of_int a :: rat) < 2 powi (e + 1) * of_int b" using A(2) by linarith
  then have hi: "x < 2 powi (e + 1)" using b0 by (simp add: x pos_divide_less_eq)
  have eq: "fl_exp x = (if 2 powi e \<le> x then e else e - 1)" by (simp add: fl_exp_def q e_def)
  show "2 powi fl_exp x \<le> x" using lo by (simp add: eq)
  show "x < 2 powi (fl_exp x + 1)" using hi by (simp add: eq)
qed

lemma fl_exp_unique:
  assumes "2 powi e \<le> x" and "x < 2 powi (e + 1)"
  shows "fl_exp x = e"
proof -
  have "0 < x" using assms(1) by (metis less_le_trans zero_less_power_int zero_less_numeral)
  note b = fl_exp_bounds [OF this]
  have "\<not> fl_exp x + 1 \<le> e" using b(2) assms(1) powi_le [of "fl_exp x + 1" e] by linarith
  moreover have "\<not> e + 1 \<le> fl_exp x" using b(1) assms(2) powi_le [of "e + 1" "fl_exp x"] by linarith
  ultimately show ?thesis by linarith
qed

section \<open>Rounding to a double\<close>

lemma fl64_zero [simp]: "fl64 0 = 0"
  by (simp add: fl64_def)

lemma fl64_minus: "fl64 (- x) = - fl64 x"
  by (simp add: fl64_def Let_def round_even_minus)

lemma fl64_bounds:
  assumes "0 < x"
  shows "2 powi fl_exp x \<le> fl64 x" and "fl64 x \<le> 2 powi (fl_exp x + 1)"
proof -
  define s where "s = fl_exp x - 52"
  have eq: "fl64 x = of_int (round_even (x / 2 powi s)) * 2 powi s"
    using assms by (simp add: fl64_def s_def Let_def)
  note b = fl_exp_bounds [OF assms]
  have p: "0 < (2 powi s :: rat)" by simp
  have e1: "(2 powi fl_exp x :: rat) = of_int (2 ^ 52) * 2 powi s"
    using powi_split [of 52 s] by (simp add: s_def)
  have e2: "(2 powi (fl_exp x + 1) :: rat) = of_int (2 ^ 53) * 2 powi s"
    using powi_split [of 53 s] by (simp add: s_def add.commute)
  have "of_int (2 ^ 52) \<le> x / 2 powi s" using b(1) e1 p by (simp add: pos_le_divide_eq)
  from round_even_mono [OF this] have "2 ^ 52 \<le> round_even (x / 2 powi s)" by (simp only: round_even_of_int)
  then show "2 powi fl_exp x \<le> fl64 x"
    unfolding e1 eq using p by (intro mult_right_mono) (simp_all only: of_int_le_iff order_less_imp_le)
  have "x / 2 powi s \<le> of_int (2 ^ 53)" using b(2) e2 p by (simp add: pos_divide_le_eq)
  from round_even_mono [OF this] have "round_even (x / 2 powi s) \<le> 2 ^ 53" by (simp only: round_even_of_int)
  then show "fl64 x \<le> 2 powi (fl_exp x + 1)"
    unfolding e2 eq using p by (intro mult_right_mono) (simp_all only: of_int_le_iff order_less_imp_le)
qed

lemma fl64_pos: "0 < x \<Longrightarrow> 0 < fl64 x"
  using fl64_bounds(1) [of x] by (metis less_le_trans zero_less_power_int zero_less_numeral)

lemma fl64_mono_pos:
  assumes "0 < x" and "x \<le> y"
  shows "fl64 x \<le> fl64 y"
proof (cases "fl_exp x = fl_exp y")
  case True
  have "x / 2 powi (fl_exp y - 52) \<le> y / 2 powi (fl_exp y - 52)"
    using assms(2) by (intro divide_right_mono) simp_all
  then have "round_even (x / 2 powi (fl_exp y - 52)) \<le> round_even (y / 2 powi (fl_exp y - 52))"
    by (rule round_even_mono)
  then show ?thesis using assms True by (simp add: fl64_def Let_def)
next
  case False
  have y: "0 < y" using assms by simp
  have "fl_exp x + 1 \<le> fl_exp y"
  proof (rule ccontr)
    assume "\<not> ?thesis"
    then have "fl_exp y + 1 \<le> fl_exp x" using False by simp
    then have "2 powi (fl_exp y + 1) \<le> (2 powi fl_exp x :: rat)" by (simp add: powi_le)
    then show False using fl_exp_bounds(1) [OF assms(1)] fl_exp_bounds(2) [OF y] assms(2) by linarith
  qed
  then have "2 powi (fl_exp x + 1) \<le> (2 powi fl_exp y :: rat)" by (simp add: powi_le)
  then show ?thesis using fl64_bounds(2) [OF assms(1)] fl64_bounds(1) [OF y] by linarith
qed

lemma fl64_mono: "x \<le> y \<Longrightarrow> fl64 x \<le> fl64 y"
proof -
  assume le: "x \<le> y"
  consider "0 < x" | "y < 0" | "x \<le> 0" "0 \<le> y" by linarith
  then show ?thesis
  proof cases
    case 1
    then show ?thesis using le by (rule fl64_mono_pos)
  next
    case 2
    then show ?thesis using fl64_mono_pos [of "- y" "- x"] le by (simp add: fl64_minus)
  next
    case 3
    have "fl64 x \<le> 0" using 3(1) fl64_pos [of "- x"] by (cases "x = 0") (auto simp: fl64_minus)
    moreover have "0 \<le> fl64 y" using 3(2) fl64_pos [of y] by (cases "y = 0") auto
    ultimately show ?thesis by linarith
  qed
qed

lemma fl64_nonneg: "0 \<le> x \<Longrightarrow> 0 \<le> fl64 x"
  using fl64_mono [of 0 x] by simp

text \<open>One rounding changes a number by at most one part in 2 ^ 53.\<close>

lemma round_even_error: "\<bar>of_int (round_even q) - q\<bar> \<le> 1 / 2"
  using round_even_cases [of q] by (auto simp: abs_if) linarith+

lemma fl64_error_pos:
  assumes "0 < x"
  shows "\<bar>fl64 x - x\<bar> \<le> x / 2 ^ 53"
proof -
  define s where "s = fl_exp x - 52"
  have eq: "fl64 x = of_int (round_even (x / 2 powi s)) * 2 powi s" using assms by (simp add: fl64_def s_def Let_def)
  have p: "0 < (2 powi s :: rat)" by simp
  have "fl64 x - x = (of_int (round_even (x / 2 powi s)) - x / 2 powi s) * 2 powi s" using p by (simp add: eq algebra_simps)
  then have "\<bar>fl64 x - x\<bar> = \<bar>of_int (round_even (x / 2 powi s)) - x / 2 powi s\<bar> * 2 powi s" using p by (simp add: abs_mult)
  also have "\<dots> \<le> 1 / 2 * 2 powi s" using p round_even_error by (intro mult_right_mono) simp_all
  also have "\<dots> = 2 powi fl_exp x / 2 ^ 53"
  proof -
    have "(2 powi fl_exp x :: rat) = 2 powi 52 * 2 powi s" using powi_split [of 52 s] by (simp add: s_def)
    then show ?thesis by simp
  qed
  also have "\<dots> \<le> x / 2 ^ 53" using fl_exp_bounds(1) [OF assms] by (intro divide_right_mono) simp_all
  finally show ?thesis .
qed

lemma fl64_error: "\<bar>fl64 x - x\<bar> \<le> \<bar>x\<bar> / 2 ^ 53"
proof (cases "x = 0")
  case False
  then show ?thesis
    using fl64_error_pos [of x] fl64_error_pos [of "- x"] by (cases "0 < x") (simp_all add: fl64_minus abs_minus_commute)
qed simp

text \<open>Integers of up to 53 bits are exact.\<close>

lemma fl64_int_pos:
  assumes "0 < n" and "n \<le> 2 ^ 53"
  shows "fl64 (of_int n) = of_int n"
proof -
  define s where "s = fl_exp (of_int n) - 52"
  have pos: "0 < (of_int n :: rat)" using assms by simp
  have "\<exists>k. (of_int n :: rat) / 2 powi s = of_int k"
  proof (cases "n = 2 ^ 53")
    case True
    have "fl_exp (of_int n) = 53" by (rule fl_exp_unique) (simp_all add: True)
    then show ?thesis by (intro exI [of _ "2 ^ 52"]) (simp add: s_def True)
  next
    case False
    then have "(of_int n :: rat) < of_int (2 ^ 53)" using assms(2) by (simp only: of_int_less_iff)
    then have "(of_int n :: rat) < 2 powi 53" by simp
    then have "\<not> 53 \<le> fl_exp (of_int n)"
      using fl_exp_bounds(1) [OF pos] powi_le [of 53 "fl_exp (of_int n)"] by linarith
    then have "0 \<le> - s" by (simp add: s_def)
    then have "(of_int n :: rat) / 2 powi s = of_int (n * 2 ^ nat (- s))"
      by (simp add: divide_inverse of_int_powi flip: power_int_minus)
    then show ?thesis by blast
  qed
  then obtain k where k: "(of_int n :: rat) / 2 powi s = of_int k" by blast
  then have "fl64 (of_int n) = of_int k * 2 powi s" using assms by (simp add: fl64_def s_def Let_def)
  also have "\<dots> = of_int n" using k by (simp add: field_simps)
  finally show ?thesis .
qed

lemma fl64_int: "\<bar>n\<bar> \<le> 2 ^ 53 \<Longrightarrow> fl64 (of_int n) = of_int n"
  using fl64_int_pos [of n] fl64_int_pos [of "- n"] fl64_minus [of "of_int n"]
  by (cases "n = 0"; cases "n > 0") auto

lemma fl64_one [simp]: "fl64 1 = 1"
  using fl64_int [of 1] by simp

section \<open>Conversions\<close>

lemma trunc_of_int [simp]: "trunc (of_int n) = n"
  by (simp add: trunc_def)

lemma trunc_mono: "x \<le> y \<Longrightarrow> trunc x \<le> trunc y"
  unfolding trunc_def by (auto intro: floor_mono ceiling_mono) (metis ceiling_le_zero dual_order.trans linorder_le_cases zero_le_floor)

lemma go_round_of_int [simp]: "go_round (of_int n) = n"
proof -
  have "\<lfloor>of_int n + 1 / 2 :: rat\<rfloor> = n" "\<lceil>of_int n - 1 / 2 :: rat\<rceil> = n" by linarith+
  then show ?thesis by (simp add: go_round_def)
qed

lemma go_round_mono:
  assumes "x \<le> y"
  shows "go_round x \<le> go_round y"
proof (cases "0 \<le> x \<or> y < 0")
  case True
  then show ?thesis using assms by (auto simp: go_round_def intro: floor_mono ceiling_mono)
next
  case False
  then have "\<lceil>x - 1 / 2\<rceil> \<le> 0" "0 \<le> \<lfloor>y + 1 / 2\<rfloor>" by linarith+
  then have "\<lceil>x - 1 / 2\<rceil> \<le> \<lfloor>y + 1 / 2\<rfloor>" by (rule order_trans)
  moreover have "go_round x = \<lceil>x - 1 / 2\<rceil>" "go_round y = \<lfloor>y + 1 / 2\<rfloor>" using False by (simp_all only: go_round_def if_False if_True not_less de_Morgan_disj)
  ultimately show ?thesis by (simp only:)
qed

end
