(* ===== verification/SpanHist.thy ===== *)
theory SpanHist
  imports Float64 "HOL-Library.Word"
begin

text \<open>
  Quarter-octave histograms of span durations: \<^verbatim>\<open>internal/spanhist/spanhist.go\<close> and
  \<^verbatim>\<open>encode.go\<close>. Bins are kept in ascending index order, found by binary search, merged, read
  back as percentiles and stored as bytes. The bin of a duration is the integer part of
  \<open>4 * log2 (d + 1)\<close>; at every bin boundary below the last bin the double precision result is on
  the same side as the exact one, so \<open>Index\<close> is defined with exact integers: \<open>i \<le> 4 * log2 n\<close>
  holds exactly when \<open>2 ^ i \<le> n ^ 4\<close>. The varint codec is that of Go's \<^verbatim>\<open>encoding/binary\<close>.
\<close>

section \<open>Bins\<close>

definition Bins :: int where
  "Bins = 160"

definition IndexSQL :: "string \<Rightarrow> string" where
  "IndexSQL col = ''CAST(log2(MAX('' @ col @ '', 0) + 1) * 4 AS INTEGER)''"

definition Clamp :: "int \<Rightarrow> int" where
  "Clamp i = min (max i 0) (Bins - 1)"

definition Index :: "int \<Rightarrow> int" where
  "Index us = (if us \<le> 0 then 0 else Clamp (bitlen ((us + 1) ^ 4) - 1))"

record Bin =
  b_Index :: int
  b_Count :: int
  b_Min :: int
  b_Max :: int

record Hist =
  h_bins :: "Bin list"
  h_total :: int

definition empty_hist :: Hist where
  "empty_hist = \<lparr>h_bins = [], h_total = 0\<rparr>"

text \<open>\<^verbatim>\<open>slices.BinarySearchFunc\<close>: the leftmost position whose element does not compare below the target.\<close>

function bsearch :: "('a \<Rightarrow> int) \<Rightarrow> 'a list \<Rightarrow> nat \<Rightarrow> nat \<Rightarrow> nat" where
  "bsearch cmp xs i j =
     (if i < j then let h = (i + j) div 2
        in if cmp (xs ! h) < 0 then bsearch cmp xs (h + 1) j else bsearch cmp xs i h
      else i)"
  by auto
termination by (relation "measure (\<lambda>(cmp, xs, i, j). j - i)") auto

declare bsearch.simps [simp del]

definition BinarySearchFunc :: "('a \<Rightarrow> int) \<Rightarrow> 'a list \<Rightarrow> nat \<times> bool" where
  "BinarySearchFunc cmp xs =
     (let i = bsearch cmp xs 0 (length xs) in (i, i < length xs \<and> cmp (xs ! i) = 0))"

definition merge_bin :: "Bin \<Rightarrow> Bin \<Rightarrow> Bin" where
  "merge_bin cur b = cur\<lparr>b_Count := s64 (b_Count cur + b_Count b),
     b_Min := min (b_Min cur) (b_Min b), b_Max := max (b_Max cur) (b_Max b)\<rparr>"

definition hist_Add :: "Bin \<Rightarrow> Hist \<Rightarrow> Hist" where
  "hist_Add b h =
     (if b_Count b \<le> 0 then h
      else let b = b\<lparr>b_Index := Clamp (b_Index b)\<rparr>;
               h = h\<lparr>h_total := s64 (h_total h + b_Count b)\<rparr>;
               (i, found) = BinarySearchFunc (\<lambda>x. b_Index x - b_Index b) (h_bins h)
           in if \<not> found then h\<lparr>h_bins := take i (h_bins h) @ b # drop i (h_bins h)\<rparr>
              else h\<lparr>h_bins := (h_bins h)[i := merge_bin (h_bins h ! i) b]\<rparr>)"

definition hist_Merge :: "Hist \<Rightarrow> Hist \<Rightarrow> Hist" where
  "hist_Merge h o' = fold hist_Add (h_bins o') h"

definition hist_Count :: "Hist \<Rightarrow> int" where
  "hist_Count h = h_total h"

definition Between :: "int \<Rightarrow> int \<Rightarrow> Hist \<Rightarrow> Hist" where
  "Between lo hi h = fold (\<lambda>b out. if b_Index b \<ge> lo \<and> b_Index b < hi
     then \<lparr>h_bins = h_bins out @ [b], h_total = s64 (h_total out + b_Count b)\<rparr> else out) (h_bins h) empty_hist"

definition Observe :: "int \<Rightarrow> Hist \<Rightarrow> Hist" where
  "Observe us h = hist_Add \<lparr>b_Index = Index us, b_Count = 1, b_Min = us, b_Max = us\<rparr> h"

section \<open>Percentiles\<close>

text \<open>\<open>None\<close> is the index-out-of-range panic of a histogram without bins that claims a total.\<close>

definition percentile_rank :: "rat \<Rightarrow> int \<Rightarrow> int" where
  "percentile_rank p n =
     min (max (trunc (fl64 (fl64 (fl64 (p / 100) * fl64 (of_int n)) + 1 / 2))) 1) n"

definition interpolate :: "int \<Rightarrow> Bin \<Rightarrow> int" where
  "interpolate r b =
     (if b_Count b = 1 then b_Min b
      else let pos = fl64 (fl64 (of_int r) / fl64 (of_int (b_Count b - 1)))
           in s64 (b_Min b + go_round (fl64 (pos * fl64 (of_int (s64 (b_Max b - b_Min b)))))))"

fun percentile_scan :: "int \<Rightarrow> int \<Rightarrow> Bin list \<Rightarrow> int option" where
  "percentile_scan rank before [] = None"
| "percentile_scan rank before (b # bs) =
     (if s64 (before + b_Count b) < rank then percentile_scan rank (s64 (before + b_Count b)) bs
      else Some (interpolate (s64 (rank - before - 1)) b))"

definition Percentile :: "rat \<Rightarrow> Hist \<Rightarrow> int option" where
  "Percentile p h =
     (if h_total h = 0 then Some 0
      else case percentile_scan (percentile_rank p (h_total h)) 0 (h_bins h) of
          Some v \<Rightarrow> Some v
        | None \<Rightarrow> (if h_bins h = [] then None else Some (b_Max (last (h_bins h)))))"

section \<open>Bytes\<close>

type_synonym byte = "8 word"

datatype hist_error = ErrCorrupt

fun AppendUvarint :: "nat \<Rightarrow> byte list" where
  "AppendUvarint v =
     (if v \<ge> 128 then of_nat (v mod 128 + 128) # AppendUvarint (v div 128) else [of_nat v])"

declare AppendUvarint.simps [simp del]

definition AppendVarint :: "int \<Rightarrow> byte list" where
  "AppendVarint x =
     (let ux = u64 (2 * u64 x) in AppendUvarint (nat (if x < 0 then 2 ^ 64 - 1 - ux else ux)))"

text \<open>The value and the number of bytes read: 0 for a truncated buffer, negative on overflow.\<close>

fun uvarint_loop :: "nat \<Rightarrow> nat \<Rightarrow> nat \<Rightarrow> byte list \<Rightarrow> nat \<times> int" where
  "uvarint_loop i s x [] = (0, 0)"
| "uvarint_loop i s x (b # bs) =
     (if i = 10 then (0, - (int i + 1))
      else if unat b < 128 then
        if i = 9 \<and> unat b > 1 then (0, - (int i + 1)) else (x + unat b * 2 ^ s, int i + 1)
      else uvarint_loop (i + 1) (s + 7) (x + (unat b - 128) * 2 ^ s) bs)"

definition Uvarint :: "byte list \<Rightarrow> nat \<times> int" where
  "Uvarint buf = uvarint_loop 0 0 0 buf"

definition Varint :: "byte list \<Rightarrow> int \<times> int" where
  "Varint buf = (case Uvarint buf of (ux, n) \<Rightarrow>
     (let x = int (ux div 2) in if odd ux then - x - 1 else x, n))"

definition encodingV1 :: byte where
  "encodingV1 = 1"

definition encode_bin :: "Bin \<Rightarrow> byte list" where
  "encode_bin b = of_int (b_Index b) # AppendUvarint (nat (u64 (b_Count b))) @ AppendVarint (b_Min b)
     @ AppendUvarint (nat (u64 (b_Max b - b_Min b)))"

definition Encode :: "Hist \<Rightarrow> byte list" where
  "Encode h = encodingV1 # concat (map encode_bin (h_bins h))"

function decode_loop :: "int \<Rightarrow> byte list \<Rightarrow> Hist \<Rightarrow> hist_error + Hist" where
  "decode_loop prev [] h = Inr h"
| "decode_loop prev (b # buf) h =
     (let idx = int (unat b)
      in if idx \<ge> Bins \<or> idx \<le> prev then Inl ErrCorrupt
         else case Uvarint buf of (cnt, n) \<Rightarrow>
           if n \<le> 0 \<or> cnt = 0 then Inl ErrCorrupt
           else case Varint (drop (nat n) buf) of (lo, n') \<Rightarrow>
             if n' \<le> 0 then Inl ErrCorrupt
             else case Uvarint (drop (nat n') (drop (nat n) buf)) of (width, n'') \<Rightarrow>
               if n'' \<le> 0 then Inl ErrCorrupt
               else decode_loop idx (drop (nat n'') (drop (nat n') (drop (nat n) buf)))
                 \<lparr>h_bins = h_bins h @ [\<lparr>b_Index = idx, b_Count = s64 (int cnt), b_Min = lo,
                    b_Max = s64 (lo + s64 (int width))\<rparr>],
                  h_total = s64 (h_total h + s64 (int cnt))\<rparr>)"
  by pat_completeness auto
termination by (relation "measure (\<lambda>(prev, buf, h). length buf)") auto

definition Decode :: "byte list \<Rightarrow> hist_error + Hist" where
  "Decode buf = (case buf of [] \<Rightarrow> Inl ErrCorrupt
     | v # rest \<Rightarrow> if v \<noteq> encodingV1 then Inl ErrCorrupt else decode_loop (- 1) rest empty_hist)"

definition MergeEncoded :: "byte list \<Rightarrow> byte list \<Rightarrow> hist_error + byte list" where
  "MergeEncoded a b = (case Decode a of Inl e \<Rightarrow> Inl e | Inr ha \<Rightarrow>
     (case Decode b of Inl e \<Rightarrow> Inl e | Inr hb \<Rightarrow> Inr (Encode (hist_Merge ha hb))))"

section \<open>Bin indices\<close>

lemma Clamp_range: "0 \<le> Clamp i \<and> Clamp i < Bins"
  by (simp add: Clamp_def Bins_def)

lemma Clamp_id: "0 \<le> i \<Longrightarrow> i < Bins \<Longrightarrow> Clamp i = i"
  by (simp add: Clamp_def)

lemma Clamp_mono: "i \<le> j \<Longrightarrow> Clamp i \<le> Clamp j"
  by (auto simp: Clamp_def)

lemma Index_range: "0 \<le> Index us" "Index us < Bins"
  using Clamp_range by (auto simp: Index_def Bins_def)

lemma bitlen_mono: "0 \<le> a \<Longrightarrow> a \<le> b \<Longrightarrow> bitlen a \<le> bitlen b"
  by (simp add: bitlen_def floorlog_mono)

lemma Index_mono: "d \<le> e \<Longrightarrow> Index d \<le> Index e"
proof (cases "d \<le> 0")
  case False
  assume "d \<le> e"
  then have "(d + 1) ^ 4 \<le> (e + 1) ^ 4" using False by (intro power_mono) auto
  then have "bitlen ((d + 1) ^ 4) \<le> bitlen ((e + 1) ^ 4)" using False by (intro bitlen_mono) auto
  then show ?thesis using \<open>d \<le> e\<close> False by (auto simp: Index_def intro: Clamp_mono)
qed (use Index_range(1) [of e] in \<open>simp add: Index_def\<close>)

section \<open>Binary search\<close>

lemma bsearch_spec:
  assumes "\<And>m n. m \<le> n \<Longrightarrow> n < length xs \<Longrightarrow> cmp (xs ! n) < 0 \<Longrightarrow> cmp (xs ! m) < 0"
  shows "i \<le> j \<Longrightarrow> j \<le> length xs \<Longrightarrow> \<forall>m < i. cmp (xs ! m) < 0 \<Longrightarrow> \<forall>m. j \<le> m \<and> m < length xs \<longrightarrow> \<not> cmp (xs ! m) < 0 \<Longrightarrow>
    (\<forall>m < bsearch cmp xs i j. cmp (xs ! m) < 0) \<and> bsearch cmp xs i j \<le> length xs
    \<and> (\<forall>m. bsearch cmp xs i j \<le> m \<and> m < length xs \<longrightarrow> \<not> cmp (xs ! m) < 0)"
proof (induction "j - i" arbitrary: i j rule: less_induct)
  case less
  show ?case
  proof (cases "i < j")
    case True
    define h where "h = (i + j) div 2"
    have h: "i \<le> h" "h < j" using True by (auto simp: h_def)
    show ?thesis
    proof (cases "cmp (xs ! h) < 0")
      case neg: True
      have eq: "bsearch cmp xs i j = bsearch cmp xs (h + 1) j"
        using True neg by (subst bsearch.simps) (simp add: h_def Let_def)
      have "\<forall>m < h + 1. cmp (xs ! m) < 0"
        using assms [of _ h] neg h less.prems(2) by auto
      then show ?thesis
        unfolding eq using h True less.prems(2,4) by (intro less.hyps) auto
    next
      case nonneg: False
      have eq: "bsearch cmp xs i j = bsearch cmp xs i h"
        using True nonneg by (subst bsearch.simps) (simp add: h_def Let_def)
      have "\<forall>m. h \<le> m \<and> m < length xs \<longrightarrow> \<not> cmp (xs ! m) < 0"
        using assms [of h] nonneg by blast
      then show ?thesis
        unfolding eq using h True less.prems(2,3) by (intro less.hyps) auto
    qed
  next
    case False
    have eq: "bsearch cmp xs i j = i" by (subst bsearch.simps) (simp add: False)
    have ij: "j = i" using False less.prems(1) by simp
    show ?thesis unfolding eq using less.prems(2-4) unfolding ij by (intro conjI)
  qed
qed

text \<open>On a list in strictly ascending key order it finds the one element with the key, or its place.\<close>

lemma BinarySearchFunc_sorted:
  assumes "sorted_wrt (<) (map key xs)"
  shows "\<exists>i found. BinarySearchFunc (\<lambda>x. key x - k) xs = (i, found) \<and> i \<le> length xs
    \<and> (\<forall>x \<in> set (take i xs). key x < k) \<and> (found \<longrightarrow> i < length xs \<and> key (xs ! i) = k)
    \<and> (\<not> found \<longrightarrow> (\<forall>x \<in> set (drop i xs). k < key x))"
proof -
  let ?c = "\<lambda>x. key x - k" and ?i = "bsearch (\<lambda>x. key x - k) xs 0 (length xs)"
  have asc: "key (xs ! m) < key (xs ! n)" if "m < n" "n < length xs" for m n
    using sorted_wrt_nth_less [OF assms, of m n] that by simp
  have down: "?c (xs ! m) < 0" if "m \<le> n" "n < length xs" "?c (xs ! n) < 0" for m n
    using asc [of m n] that by (cases "m = n") auto
  have "(\<forall>m < ?i. ?c (xs ! m) < 0) \<and> ?i \<le> length xs \<and> (\<forall>m. ?i \<le> m \<and> m < length xs \<longrightarrow> \<not> ?c (xs ! m) < 0)"
    by (rule bsearch_spec) (use down in auto)
  then have s: "\<forall>m < ?i. key (xs ! m) < k" "?i \<le> length xs" "\<forall>m. ?i \<le> m \<and> m < length xs \<longrightarrow> k \<le> key (xs ! m)"
    by auto
  have lo: "\<forall>x \<in> set (take ?i xs). key x < k" using s(1,2) by (auto simp: in_set_conv_nth)
  have hi: "\<forall>x \<in> set (drop ?i xs). k < key x" if nf: "\<not> (?i < length xs \<and> key (xs ! ?i) = k)"
  proof
    fix x assume "x \<in> set (drop ?i xs)"
    then obtain m where "m < length (drop ?i xs)" "x = drop ?i xs ! m" by (auto simp: in_set_conv_nth)
    then have m: "?i + m < length xs" "x = xs ! (?i + m)" using s(2) by simp_all
    have "k \<le> key (xs ! ?i)" "key (xs ! ?i) \<noteq> k" using s(3) nf m(1) by auto
    then show "k < key x" using m asc [of ?i "?i + m"] by (cases m) auto
  qed
  show ?thesis
    by (rule exI [of _ ?i], rule exI [of _ "?i < length xs \<and> key (xs ! ?i) = k"])
      (use s(2) lo hi in \<open>auto simp: BinarySearchFunc_def Let_def\<close>)
qed

section \<open>The map of bins\<close>

text \<open>
  A histogram is well formed when its bins have ascending indices in range, positive counts that
  fit 64 bits, and their sum as its total.
\<close>

definition bin_ok :: "Bin \<Rightarrow> bool" where
  "bin_ok b \<longleftrightarrow> 0 \<le> b_Index b \<and> b_Index b < Bins \<and> 0 < b_Count b \<and> in_s64 (b_Count b)
     \<and> in_s64 (b_Min b) \<and> in_s64 (b_Max b)"

definition hist_wf :: "Hist \<Rightarrow> bool" where
  "hist_wf h \<longleftrightarrow> sorted_wrt (<) (map b_Index (h_bins h)) \<and> (\<forall>b \<in> set (h_bins h). bin_ok b)
     \<and> h_total h = s64 (\<Sum>b\<leftarrow>h_bins h. b_Count b)"

definition bin_at :: "Bin list \<Rightarrow> int \<Rightarrow> Bin option" where
  "bin_at bs = map_of (map (\<lambda>b. (b_Index b, b)) bs)"

definition join_bin :: "Bin option \<Rightarrow> Bin option \<Rightarrow> Bin option" where
  "join_bin x y = (case x of None \<Rightarrow> y | Some a \<Rightarrow> (case y of None \<Rightarrow> x | Some b \<Rightarrow> Some (merge_bin a b)))"

lemma join_bin_simps [simp]:
  "join_bin None y = y" "join_bin x None = x" "join_bin (Some a) (Some b) = Some (merge_bin a b)"
  by (simp_all add: join_bin_def split: option.splits)

lemma bin_at_simps [simp]:
  "bin_at [] i = None" "bin_at (b # bs) i = (if b_Index b = i then Some b else bin_at bs i)"
  by (simp_all add: bin_at_def)

lemma bin_at_append: "bin_at (xs @ ys) i = (case bin_at xs i of None \<Rightarrow> bin_at ys i | Some b \<Rightarrow> Some b)"
  by (induction xs) simp_all

lemma bin_at_Some: "bin_at bs i = Some b \<Longrightarrow> b \<in> set bs \<and> b_Index b = i"
  by (induction bs) (auto split: if_splits)

lemma bin_at_None: "bin_at bs i = None \<longleftrightarrow> (\<forall>b \<in> set bs. b_Index b \<noteq> i)"
  by (induction bs) auto

lemma bin_at_sorted:
  "sorted_wrt (<) (map b_Index bs) \<Longrightarrow> b \<in> set bs \<Longrightarrow> bin_at bs (b_Index b) = Some b"
  by (induction bs) auto

lemma sorted_bins_eq:
  assumes "sorted_wrt (<) (map b_Index xs)" "sorted_wrt (<) (map b_Index ys)" and "\<And>i. bin_at xs i = bin_at ys i"
  shows "xs = ys"
proof -
  have s: "set xs = set ys"
    using bin_at_sorted [OF assms(1)] bin_at_sorted [OF assms(2)] bin_at_Some assms(3) by (metis subsetI subset_antisym)
  have "map b_Index xs = map b_Index ys"
    using assms(1,2) s by (intro sorted_distinct_set_unique) (auto simp: strict_sorted_iff)
  moreover have "inj_on b_Index (set xs)" using assms(1) by (simp add: strict_sorted_iff distinct_map)
  ultimately show ?thesis using s by (metis map_inj_on sup.idem)
qed

lemma merge_bin_simps [simp]:
  "b_Index (merge_bin a b) = b_Index a" "b_Count (merge_bin a b) = s64 (b_Count a + b_Count b)"
  "b_Min (merge_bin a b) = min (b_Min a) (b_Min b)" "b_Max (merge_bin a b) = max (b_Max a) (b_Max b)"
  by (simp_all add: merge_bin_def)

text \<open>Adding a bin joins it into the map, keeps the order and adds its count to the total.\<close>

lemma hist_Add_cases:
  assumes "sorted_wrt (<) (map b_Index (h_bins h))" and "bin_ok b"
  obtains xs ys where "h_bins h = xs @ ys" "\<forall>x \<in> set xs. b_Index x < b_Index b" "\<forall>y \<in> set ys. b_Index b < b_Index y"
      "hist_Add b h = \<lparr>h_bins = xs @ b # ys, h_total = s64 (h_total h + b_Count b)\<rparr>"
    | xs x ys where "h_bins h = xs @ x # ys" "\<forall>x \<in> set xs. b_Index x < b_Index b" "b_Index x = b_Index b"
      "hist_Add b h = \<lparr>h_bins = xs @ merge_bin x b # ys, h_total = s64 (h_total h + b_Count b)\<rparr>"
proof -
  let ?bs = "h_bins h"
  have id: "b\<lparr>b_Index := Clamp (b_Index b)\<rparr> = b" and cnt: "\<not> b_Count b \<le> 0"
    using assms(2) by (auto simp: bin_ok_def Clamp_id)
  obtain n found where s: "BinarySearchFunc (\<lambda>x. b_Index x - b_Index b) ?bs = (n, found)" "n \<le> length ?bs"
    "\<forall>x \<in> set (take n ?bs). b_Index x < b_Index b" "found \<longrightarrow> n < length ?bs \<and> b_Index (?bs ! n) = b_Index b"
    "\<not> found \<longrightarrow> (\<forall>x \<in> set (drop n ?bs). b_Index b < b_Index x)"
    using BinarySearchFunc_sorted [OF assms(1), of "b_Index b"] by metis
  have eq: "hist_Add b h = (if found then h\<lparr>h_total := s64 (h_total h + b_Count b), h_bins := ?bs[n := merge_bin (?bs ! n) b]\<rparr>
      else h\<lparr>h_total := s64 (h_total h + b_Count b), h_bins := take n ?bs @ b # drop n ?bs\<rparr>)"
    using cnt s(1) by (simp add: hist_Add_def id Let_def)
  show thesis
  proof (cases found)
    case True
    then have n: "n < length ?bs" "b_Index (?bs ! n) = b_Index b" using s(4) by auto
    show ?thesis
      by (rule that(2) [of "take n ?bs" "?bs ! n" "drop (Suc n) ?bs"])
        (use True n s(3) in \<open>simp_all add: id_take_nth_drop [symmetric] eq upd_conv_take_nth_drop\<close>)
  next
    case False
    show ?thesis
      by (rule that(1) [of "take n ?bs" "drop n ?bs"]) (use False s(3,5) in \<open>simp_all add: eq\<close>)
  qed
qed

lemma hist_Add_bins:
  assumes "sorted_wrt (<) (map b_Index (h_bins h))" and "bin_ok b"
  shows "sorted_wrt (<) (map b_Index (h_bins (hist_Add b h)))"
    and "bin_at (h_bins (hist_Add b h)) i =
      (if i = b_Index b then join_bin (bin_at (h_bins h) i) (Some b) else bin_at (h_bins h) i)"
    and "h_total (hist_Add b h) = s64 (h_total h + b_Count b)"
proof -
  have "sorted_wrt (<) (map b_Index (h_bins (hist_Add b h)))
    \<and> bin_at (h_bins (hist_Add b h)) i =
      (if i = b_Index b then join_bin (bin_at (h_bins h) i) (Some b) else bin_at (h_bins h) i)
    \<and> h_total (hist_Add b h) = s64 (h_total h + b_Count b)"
    using assms
  proof (cases rule: hist_Add_cases)
    case (1 xs ys)
    have "bin_at xs (b_Index b) = None" "bin_at ys (b_Index b) = None" using 1 by (auto simp: bin_at_None)
    then show ?thesis using 1 assms(1) by (auto simp: sorted_wrt_append bin_at_append split: option.splits)
  next
    case (2 xs x ys)
    have "bin_at xs (b_Index b) = None" using 2 by (auto simp: bin_at_None)
    then show ?thesis using 2 assms(1) by (auto simp: sorted_wrt_append bin_at_append split: option.splits)
  qed
  then show "sorted_wrt (<) (map b_Index (h_bins (hist_Add b h)))"
    and "bin_at (h_bins (hist_Add b h)) i =
      (if i = b_Index b then join_bin (bin_at (h_bins h) i) (Some b) else bin_at (h_bins h) i)"
    and "h_total (hist_Add b h) = s64 (h_total h + b_Count b)" by blast+
qed

text \<open>Merging joins the maps pointwise.\<close>

lemma fold_Add_bins:
  "sorted_wrt (<) (map b_Index (h_bins h)) \<Longrightarrow> in_s64 (h_total h) \<Longrightarrow>
   sorted_wrt (<) (map b_Index bs) \<Longrightarrow> \<forall>b \<in> set bs. bin_ok b \<Longrightarrow>
   sorted_wrt (<) (map b_Index (h_bins (fold hist_Add bs h)))
   \<and> bin_at (h_bins (fold hist_Add bs h)) i = join_bin (bin_at (h_bins h) i) (bin_at bs i)
   \<and> h_total (fold hist_Add bs h) = s64 (h_total h + (\<Sum>b\<leftarrow>bs. b_Count b))"
proof (induction bs arbitrary: h)
  case Nil
  then show ?case by (simp add: s64_id)
next
  case (Cons b bs)
  have ok: "bin_ok b" using Cons.prems(4) by simp
  note add = hist_Add_bins [OF Cons.prems(1) ok]
  have "bin_at bs (b_Index b) = None" using Cons.prems(3) by (auto simp: bin_at_None)
  moreover have "s64 (s64 (h_total h + b_Count b) + c) = s64 (h_total h + (b_Count b + c))" for c
    by (metis add.assoc add.commute s64_add_s64)
  ultimately show ?case
    using Cons.IH [of "hist_Add b h"] Cons.prems(3,4) add s64_range by auto
qed

lemma hist_Merge_bins:
  assumes "sorted_wrt (<) (map b_Index (h_bins h))" "in_s64 (h_total h)" "sorted_wrt (<) (map b_Index (h_bins k))"
    "\<forall>b \<in> set (h_bins k). bin_ok b"
  shows "sorted_wrt (<) (map b_Index (h_bins (hist_Merge h k)))
    \<and> bin_at (h_bins (hist_Merge h k)) i = join_bin (bin_at (h_bins h) i) (bin_at (h_bins k) i)
    \<and> h_total (hist_Merge h k) = s64 (h_total h + (\<Sum>b\<leftarrow>h_bins k. b_Count b))"
  unfolding hist_Merge_def by (rule fold_Add_bins [OF assms])

section \<open>Histograms of observations\<close>

definition observe_all :: "int list \<Rightarrow> Hist" where
  "observe_all ds = fold Observe ds empty_hist"

definition group :: "int \<Rightarrow> int list \<Rightarrow> int list" where
  "group i ds = filter (\<lambda>d. Index d = i) ds"

definition group_bin :: "int \<Rightarrow> int list \<Rightarrow> Bin" where
  "group_bin i xs = \<lparr>b_Index = i, b_Count = int (length xs), b_Min = Min (set xs), b_Max = Max (set xs)\<rparr>"

text \<open>The histogram as one pass over the bin indices: per non-empty bin its size and extremes.\<close>

definition reference_hist :: "int list \<Rightarrow> Hist" where
  "reference_hist ds =
     \<lparr>h_bins = map (\<lambda>i. group_bin i (group i ds)) (filter (\<lambda>i. group i ds \<noteq> []) [0..Bins - 1]), h_total = int (length ds)\<rparr>"

abbreviation durations :: "int list \<Rightarrow> bool" where
  "durations ds \<equiv> (\<forall>d \<in> set ds. in_s64 d) \<and> length ds < 2 ^ 63"

lemma group_bin_simps [simp]:
  "b_Index (group_bin i xs) = i" "b_Count (group_bin i xs) = int (length xs)"
  "b_Min (group_bin i xs) = Min (set xs)" "b_Max (group_bin i xs) = Max (set xs)"
  by (simp_all add: group_bin_def)

lemma group_simps [simp]:
  "group i [] = []" "group i (ds @ es) = group i ds @ group i es"
  "group i [d] = (if Index d = i then [d] else [])" "set (group i ds) = {d \<in> set ds. Index d = i}"
  by (auto simp: group_def)

lemma group_length_le: "length (group i ds) \<le> length ds"
  by (simp add: group_def)

lemma merge_group_bins:
  assumes "xs \<noteq> []" "ys \<noteq> []" and "length xs + length ys < 2 ^ 63"
  shows "merge_bin (group_bin i xs) (group_bin i ys) = group_bin i (xs @ ys)"
proof -
  have "in_s64 (int (length xs) + int (length ys))" using assms(3) by (simp add: in_s64_def)
  then show ?thesis using assms(1,2) by (simp add: merge_bin_def group_bin_def s64_id Min_Un Max_Un)
qed

lemma join_group_bins:
  assumes "length ds + length es < 2 ^ 63"
  shows "join_bin (if group i ds = [] then None else Some (group_bin i (group i ds)))
      (if group i es = [] then None else Some (group_bin i (group i es))) =
    (if group i (ds @ es) = [] then None else Some (group_bin i (group i (ds @ es))))"
  using assms group_length_le [of i ds] group_length_le [of i es] merge_group_bins [of "group i ds" "group i es" i]
  by simp

lemma observation_bin: "in_s64 d \<Longrightarrow> bin_ok (group_bin (Index d) [d])"
  using Index_range [of d] by (simp add: bin_ok_def in_s64_def)

lemma Observe_eq: "Observe d h = hist_Add (group_bin (Index d) [d]) h"
  by (simp add: Observe_def group_bin_def)

lemma observe_all_snoc: "observe_all (ds @ [d]) = Observe d (observe_all ds)"
  by (simp add: observe_all_def)

lemma observe_all_bins:
  "durations ds \<Longrightarrow> sorted_wrt (<) (map b_Index (h_bins (observe_all ds)))
   \<and> (\<forall>i. bin_at (h_bins (observe_all ds)) i = (if group i ds = [] then None else Some (group_bin i (group i ds))))
   \<and> h_total (observe_all ds) = int (length ds)"
proof (induction ds rule: rev_induct)
  case Nil
  then show ?case by (simp add: observe_all_def empty_hist_def)
next
  case (snoc d ds)
  then have ih: "sorted_wrt (<) (map b_Index (h_bins (observe_all ds)))"
    "\<And>i. bin_at (h_bins (observe_all ds)) i = (if group i ds = [] then None else Some (group_bin i (group i ds)))"
    "h_total (observe_all ds) = int (length ds)" and d: "in_s64 d" and len: "length ds + 1 < 2 ^ 63" by auto
  note add = hist_Add_bins [OF ih(1) observation_bin [OF d]]
  have "in_s64 (int (length ds) + 1)" using len by (simp add: in_s64_def)
  then have total: "h_total (observe_all (ds @ [d])) = int (length (ds @ [d]))"
    by (simp add: observe_all_snoc Observe_eq add(3) ih(3) s64_id)
  have "bin_at (h_bins (observe_all (ds @ [d]))) i =
      (if group i (ds @ [d]) = [] then None else Some (group_bin i (group i (ds @ [d]))))" for i
  proof (cases "i = Index d")
    case True
    have "bin_at (h_bins (observe_all (ds @ [d]))) i = join_bin (bin_at (h_bins (observe_all ds)) i)
        (if group i [d] = [] then None else Some (group_bin i (group i [d])))"
      by (simp add: observe_all_snoc Observe_eq add(2) True)
    then show ?thesis using join_group_bins [of ds "[d]" i] len by (simp only: ih(2)) simp
  next
    case False
    then show ?thesis by (simp add: observe_all_snoc Observe_eq add(2) ih(2))
  qed
  then show ?case using total add(1) by (simp add: observe_all_snoc Observe_eq)
qed

lemma reference_hist_bins:
  "sorted_wrt (<) (map b_Index (h_bins (reference_hist ds)))"
  "bin_at (h_bins (reference_hist ds)) i = (if group i ds = [] then None else Some (group_bin i (group i ds)))"
proof -
  have idx: "map b_Index (h_bins (reference_hist ds)) = filter (\<lambda>i. group i ds \<noteq> []) [0..Bins - 1]"
    by (simp add: reference_hist_def comp_def)
  show s: "sorted_wrt (<) (map b_Index (h_bins (reference_hist ds)))"
    unfolding idx by (intro sorted_wrt_filter) simp
  have "i \<in> set [0..Bins - 1]" if g: "group i ds \<noteq> []"
  proof -
    obtain d where "Index d = i" using g by (auto simp: group_def filter_empty_conv)
    then show ?thesis using Index_range [of d] by auto
  qed
  then have "group i ds \<noteq> [] \<Longrightarrow> group_bin i (group i ds) \<in> set (h_bins (reference_hist ds))"
    by (force simp: reference_hist_def)
  then show "bin_at (h_bins (reference_hist ds)) i = (if group i ds = [] then None else Some (group_bin i (group i ds)))"
    using bin_at_sorted [OF s, of "group_bin i (group i ds)"]
    by (auto simp: bin_at_None reference_hist_def)
qed

text \<open>
  C14: observing durations one at a time, with a binary search and an insertion for each, builds
  exactly the reference histogram: per non-empty bin, in index order, how many of the durations
  fall in it and the smallest and largest of them.
\<close>

theorem observe_all_reference:
  assumes "\<forall>d \<in> set ds. in_s64 d" and "length ds < 2 ^ 63"
  shows "observe_all ds = reference_hist ds"
proof -
  have "durations ds" using assms by simp
  note o = observe_all_bins [OF this]
  have "h_bins (observe_all ds) = h_bins (reference_hist ds)"
    by (rule sorted_bins_eq) (use o reference_hist_bins [of ds] in simp_all)
  then show ?thesis using o by (simp add: reference_hist_def)
qed

theorem observe_all_reference_witness:
  "observe_all [900, 3, -7, 3] = reference_hist [900, 3, -7, 3]
   \<and> map b_Index (h_bins (observe_all [900, 3, -7, 3])) = [0, 8, 39]"
proof
  show "map b_Index (h_bins (observe_all [900, 3, -7, 3])) = [0, 8, 39]" by code_simp
qed (rule observe_all_reference, simp_all add: in_s64_def)

lemma hist_Add_sum:
  assumes "sorted_wrt (<) (map b_Index (h_bins h))" and "bin_ok b"
  shows "s64 (\<Sum>x\<leftarrow>h_bins (hist_Add b h). b_Count x) = s64 ((\<Sum>x\<leftarrow>h_bins h. b_Count x) + b_Count b)"
  using assms
proof (cases rule: hist_Add_cases)
  case (2 xs x ys)
  have "s64 (a + (s64 (c + d) + e)) = s64 (a + (c + e) + d)" for a c d e
    using s64_add_s64 [of "a + e" "c + d"] by (simp add: ac_simps)
  with 2 show ?thesis by simp
qed (simp add: ac_simps)

lemma observe_all_sum:
  "durations ds \<Longrightarrow> s64 (\<Sum>x\<leftarrow>h_bins (observe_all ds). b_Count x) = int (length ds)"
proof (induction ds rule: rev_induct)
  case Nil
  then show ?case by (simp add: observe_all_def empty_hist_def s64_def)
next
  case (snoc d ds)
  then have s: "sorted_wrt (<) (map b_Index (h_bins (observe_all ds)))" using observe_all_bins [of ds] by simp
  have "s64 (\<Sum>x\<leftarrow>h_bins (observe_all (ds @ [d])). b_Count x) = s64 (1 + (\<Sum>x\<leftarrow>h_bins (observe_all ds). b_Count x))"
    using hist_Add_sum [OF s observation_bin [of d]] snoc.prems by (simp add: observe_all_snoc Observe_eq add.commute)
  also have "\<dots> = s64 (1 + int (length ds))"
    using s64_add_s64 [of 1 "\<Sum>x\<leftarrow>h_bins (observe_all ds). b_Count x"] snoc by simp
  also have "\<dots> = int (length (ds @ [d]))" using snoc.prems by (simp add: s64_id in_s64_def)
  finally show ?case .
qed

lemma observe_all_wf:
  assumes "durations ds"
  shows "hist_wf (observe_all ds)"
proof -
  note o = observe_all_bins [OF assms]
  have "bin_ok b" if b: "b \<in> set (h_bins (observe_all ds))" for b
  proof -
    define xs where "xs = group (b_Index b) ds"
    have xs: "xs \<noteq> []" "b = group_bin (b_Index b) xs"
      using bin_at_sorted [of "h_bins (observe_all ds)" b] o b by (auto simp: xs_def split: if_splits)
    then have mem: "Min (set xs) \<in> set xs" "Max (set xs) \<in> set xs" by simp_all
    then have "in_s64 (Min (set xs))" "in_s64 (Max (set xs))" "Index (Min (set xs)) = b_Index b" using assms by (auto simp: xs_def)
    moreover have "length xs < 2 ^ 63" using assms group_length_le [of "b_Index b" ds] by (simp add: xs_def)
    moreover have "b_Count b = int (length xs)" "b_Min b = Min (set xs)" "b_Max b = Max (set xs)"
      using arg_cong [OF xs(2), of b_Count] arg_cong [OF xs(2), of b_Min] arg_cong [OF xs(2), of b_Max] by simp_all
    ultimately show ?thesis
      using xs(1) Index_range [of "Min (set xs)"] by (simp add: bin_ok_def) (simp add: in_s64_def)
  qed
  then show ?thesis using o observe_all_sum [OF assms] by (simp add: hist_wf_def)
qed

end
