(* ===== verification/SpanHistCodec.thy ===== *)
theory SpanHistCodec
  imports SpanHist
begin

text \<open>
  The byte encoding of histograms: varints and whole histograms read back as written, decoded
  histograms have their bins in order, and merging encoded histograms is observing all
  their durations.
\<close>

section \<open>Varints\<close>

lemma unat_of_nat_byte: "v < 256 \<Longrightarrow> unat (of_nat v :: byte) = v"
  by (simp add: unat_of_nat)

lemma AppendUvarint_nonempty [simp]: "AppendUvarint v \<noteq> []"
  by (subst AppendUvarint.simps) simp

lemma uvarint_loop_Append:
  "v < 2 ^ (64 - s) \<Longrightarrow> s = 7 * i \<Longrightarrow> i \<le> 9 \<Longrightarrow>
   uvarint_loop i s x (AppendUvarint v @ rest) = (x + v * 2 ^ s, int i + int (length (AppendUvarint v)))"
proof (induction v arbitrary: i s x rule: AppendUvarint.induct)
  case (1 v)
  show ?case
  proof (cases "v \<ge> 128")
    case True
    have i: "i \<noteq> 9"
    proof
      assume "i = 9"
      then have "v < 2" using "1.prems" by simp
      then show False using True by simp
    qed
    have "v < 2 ^ (64 - (s + 7)) * 128"
    proof -
      have "64 - s = (64 - (s + 7)) + 7" using "1.prems"(2,3) i by simp
      then have "(2::nat) ^ (64 - s) = 2 ^ (64 - (s + 7)) * 2 ^ 7" by (metis power_add)
      then show ?thesis using "1.prems"(1) by simp
    qed
    then have lt: "v div 128 < 2 ^ (64 - (s + 7))" by (simp add: less_mult_imp_div_less)
    have ih: "uvarint_loop (i + 1) (s + 7) (x + v mod 128 * 2 ^ s) (AppendUvarint (v div 128) @ rest) =
        (x + v mod 128 * 2 ^ s + v div 128 * 2 ^ (s + 7), int (i + 1) + int (length (AppendUvarint (v div 128))))"
      by (rule "1.IH" [OF True lt]) (use "1.prems" i in auto)
    have b: "unat (of_nat (v mod 128 + 128) :: byte) = v mod 128 + 128" by (rule unat_of_nat_byte) simp
    have "v * 2 ^ s = (v mod 128 + v div 128 * 128) * 2 ^ s" by (simp only: mod_div_mult_eq)
    also have "\<dots> = v mod 128 * 2 ^ s + v div 128 * 2 ^ (s + 7)"
      by (simp only: add_mult_distrib power_add mult.assoc) simp
    finally have "v mod 128 * 2 ^ s + v div 128 * 2 ^ (s + 7) = v * 2 ^ s" by (rule sym)
    moreover have "AppendUvarint v = of_nat (v mod 128 + 128) # AppendUvarint (v div 128)"
      using True by (subst AppendUvarint.simps) simp
    ultimately show ?thesis
      using ih i b "1.prems"(3) by (simp add: add.assoc del: of_nat_add)
  next
    case False
    then have v: "AppendUvarint v = [of_nat v]" by (subst AppendUvarint.simps) simp
    have b: "unat (of_nat v :: byte) = v" using False by (intro unat_of_nat_byte) simp
    have "\<not> (i = 9 \<and> v > 1)" using "1.prems"(1,2) by auto
    then show ?thesis using False b v "1.prems"(3) by simp
  qed
qed

lemma Uvarint_Append: "v < 2 ^ 64 \<Longrightarrow> Uvarint (AppendUvarint v @ rest) = (v, int (length (AppendUvarint v)))"
  using uvarint_loop_Append [of v 0 0 0 rest] by (simp add: Uvarint_def)

lemma Varint_Append:
  assumes "in_s64 x"
  shows "Varint (AppendVarint x @ rest) = (x, int (length (AppendVarint x)))"
proof -
  define ux where "ux = nat (if x < 0 then - 1 - 2 * x else 2 * x)"
  have dbl: "u64 (2 * u64 x) = u64 (2 * x)" by (simp add: u64_def mod_mult_right_eq)
  have "u64 (2 * x) = 2 * x + 2 ^ 64" if "x < 0"
  proof -
    have "u64 (2 * x) = u64 (2 * x + 2 ^ 64)" by (simp add: u64_def)
    also have "\<dots> = 2 * x + 2 ^ 64"
      unfolding u64_def using assms that by (intro mod_pos_pos_trivial) (simp_all add: in_s64_def)
    finally show ?thesis .
  qed
  moreover have "u64 (2 * x) = 2 * x" if "\<not> x < 0" using assms that by (simp add: u64_def in_s64_def)
  ultimately have a: "AppendVarint x = AppendUvarint ux"
    by (auto simp: AppendVarint_def ux_def Let_def dbl)
  have "ux < 2 ^ 64" using assms by (auto simp: ux_def in_s64_def nat_less_iff)
  from Uvarint_Append [OF this, of rest]
  have r: "Uvarint (AppendVarint x @ rest) = (ux, int (length (AppendVarint x)))" by (simp add: a)
  have "(if odd ux then - int (ux div 2) - 1 else int (ux div 2)) = x"
  proof (cases "x < 0")
    case True
    then have "int ux = 2 * (- x - 1) + 1" by (simp add: ux_def)
    then have "odd ux" "int ux div 2 = - x - 1" by presburger+
    then show ?thesis by (simp add: zdiv_int)
  next
    case False
    then have "int ux = 2 * x" by (simp add: ux_def)
    then have "even ux" "int ux div 2 = x" by presburger+
    then show ?thesis by (simp add: zdiv_int)
  qed
  then show ?thesis by (simp add: Varint_def r Let_def)
qed

section \<open>Histograms\<close>

lemma decode_encode_bin:
  assumes "bin_ok b" and "prev < b_Index b"
  shows "decode_loop prev (encode_bin b @ rest) h =
    decode_loop (b_Index b) rest \<lparr>h_bins = h_bins h @ [b], h_total = s64 (h_total h + b_Count b)\<rparr>"
proof -
  have idx: "int (unat (of_int (b_Index b) :: byte)) = b_Index b"
    using assms(1) by (simp add: bin_ok_def Bins_def unsigned_of_int take_bit_eq_mod)
  have c: "nat (u64 (b_Count b)) < 2 ^ 64" "nat (u64 (b_Max b - b_Min b)) < 2 ^ 64"
    using u64_range by (simp_all add: nat_less_iff)
  have c0: "u64 (b_Count b) = b_Count b" "0 < b_Count b"
    using assms(1) by (simp_all add: bin_ok_def u64_def in_s64_def)
  have i: "in_s64 (b_Min b)" "in_s64 (b_Count b)" "in_s64 (b_Max b)" using assms(1) by (simp_all add: bin_ok_def)
  have mx: "s64 (b_Min b + s64 (u64 (b_Max b - b_Min b))) = b_Max b"
    using i by (simp add: s64_u64 s64_add_s64 s64_id)
  have u: "int (nat (u64 (b_Max b - b_Min b))) = u64 (b_Max b - b_Min b)" using u64_range by simp
  have vpos: "AppendVarint v \<noteq> []" for v by (simp add: AppendVarint_def Let_def)
  show ?thesis
    using assms Uvarint_Append [OF c(1)] Uvarint_Append [OF c(2)] Varint_Append [OF i(1)] vpos c0 i mx u idx
    by (cases b) (simp add: encode_bin_def Let_def bin_ok_def s64_id)
qed

lemma decode_encode_bins:
  "sorted_wrt (<) (map b_Index bs) \<Longrightarrow> \<forall>b \<in> set bs. bin_ok b \<and> prev < b_Index b \<Longrightarrow> in_s64 (h_total h) \<Longrightarrow>
   decode_loop prev (concat (map encode_bin bs)) h =
     Inr \<lparr>h_bins = h_bins h @ bs, h_total = s64 (h_total h + (\<Sum>b\<leftarrow>bs. b_Count b))\<rparr>"
proof (induction bs arbitrary: prev h)
  case (Cons b bs)
  let ?h = "\<lparr>h_bins = h_bins h @ [b], h_total = s64 (h_total h + b_Count b)\<rparr>"
  have "decode_loop prev (concat (map encode_bin (b # bs))) h = decode_loop (b_Index b) (concat (map encode_bin bs)) ?h"
    using Cons.prems(2) by (simp add: decode_encode_bin)
  also have "\<dots> = Inr \<lparr>h_bins = h_bins ?h @ bs, h_total = s64 (h_total ?h + (\<Sum>b\<leftarrow>bs. b_Count b))\<rparr>"
    by (rule Cons.IH) (use Cons.prems s64_range in auto)
  also have "s64 (h_total ?h + (\<Sum>b\<leftarrow>bs. b_Count b)) = s64 (h_total h + (\<Sum>b\<leftarrow>b # bs. b_Count b))"
    using s64_add_s64 [of "\<Sum>b\<leftarrow>bs. b_Count b" "h_total h + b_Count b"] by (simp add: ac_simps)
  finally show ?case by simp
qed (simp add: s64_id)

lemma Decode_Encode:
  assumes "hist_wf h"
  shows "Decode (Encode h) = Inr h"
proof -
  have "decode_loop (- 1) (concat (map encode_bin (h_bins h))) empty_hist =
      Inr \<lparr>h_bins = h_bins empty_hist @ h_bins h, h_total = s64 (h_total empty_hist + (\<Sum>b\<leftarrow>h_bins h. b_Count b))\<rparr>"
    by (rule decode_encode_bins) (use assms in \<open>auto simp: hist_wf_def bin_ok_def empty_hist_def in_s64_def\<close>)
  then show ?thesis using assms by (simp add: Encode_def Decode_def hist_wf_def empty_hist_def)
qed

text \<open>
  C15: a stored histogram reads back exactly as written: decoding the encoding of any well-formed
  histogram gives that histogram, whatever 64-bit minima and maxima its bins have.
\<close>

theorem Decode_Encode_roundtrip:
  assumes "sorted_wrt (<) (map b_Index (h_bins h))" and "\<forall>b \<in> set (h_bins h). bin_ok b"
    and "h_total h = s64 (\<Sum>b\<leftarrow>h_bins h. b_Count b)"
  shows "Decode (Encode h) = Inr h"
  by (rule Decode_Encode) (use assms in \<open>simp add: hist_wf_def\<close>)

theorem Decode_Encode_roundtrip_witness:
  "Decode (Encode \<lparr>h_bins = [\<lparr>b_Index = 3, b_Count = 200, b_Min = -5, b_Max = 70\<rparr>], h_total = 200\<rparr>) =
     Inr \<lparr>h_bins = [\<lparr>b_Index = 3, b_Count = 200, b_Min = -5, b_Max = 70\<rparr>], h_total = 200\<rparr>
   \<and> length (Encode \<lparr>h_bins = [\<lparr>b_Index = 3, b_Count = 200, b_Min = -5, b_Max = 70\<rparr>], h_total = 200\<rparr>) = 6"
proof
  show "length (Encode \<lparr>h_bins = [\<lparr>b_Index = 3, b_Count = 200, b_Min = -5, b_Max = 70\<rparr>], h_total = 200\<rparr>) = 6"
    by code_simp
qed (rule Decode_Encode_roundtrip, simp_all add: bin_ok_def Bins_def in_s64_def s64_def)

text \<open>
  C16: merging two stored histograms is observing all their durations: the bytes that
  \<^verbatim>\<open>MergeEncoded\<close> returns are those of the histogram of both lists together, so it does not matter
  how durations were split over rows, or in which order rows are merged.
\<close>

theorem MergeEncoded_observes_all:
  assumes "\<forall>d \<in> set ds \<union> set es. in_s64 d" and "length ds + length es < 2 ^ 63"
  shows "MergeEncoded (Encode (observe_all ds)) (Encode (observe_all es)) = Inr (Encode (observe_all (ds @ es)))
    \<and> MergeEncoded (Encode (observe_all es)) (Encode (observe_all ds)) = Inr (Encode (observe_all (ds @ es)))"
proof -
  have merge: "hist_Merge (observe_all xs) (observe_all ys) = observe_all zs"
    if d: "durations xs" "durations ys" "durations (xs @ ys)" "durations zs" and z: "mset zs = mset (xs @ ys)" for xs ys zs
  proof -
    note x = observe_all_bins [OF d(1)] and y = observe_all_bins [OF d(2)] and w = observe_all_bins [OF d(4)]
    have ok: "\<forall>b \<in> set (h_bins (observe_all ys)). bin_ok b" using observe_all_wf [OF d(2)] by (simp add: hist_wf_def)
    have len: "length zs = length xs + length ys" using z by (metis length_append size_mset)
    have grp: "(if group i zs = [] then None else Some (group_bin i (group i zs))) =
        (if group i (xs @ ys) = [] then None else Some (group_bin i (group i (xs @ ys))))" for i
    proof -
      have "mset (group i zs) = mset (group i (xs @ ys))" using z by (metis group_def mset_filter)
      then have "length (group i zs) = length (group i (xs @ ys))" "set (group i zs) = set (group i (xs @ ys))"
        by (metis size_mset, metis set_mset_mset)
      then show ?thesis by (simp only: group_bin_def length_0_conv [symmetric])
    qed
    have t: "in_s64 (h_total (observe_all xs))" using x d(1) by (simp add: in_s64_def)
    note m = hist_Merge_bins [OF conjunct1 [OF x] t conjunct1 [OF y] ok]
    have at: "bin_at (h_bins (hist_Merge (observe_all xs) (observe_all ys))) i = bin_at (h_bins (observe_all zs)) i" for i
    proof -
      have "bin_at (h_bins (hist_Merge (observe_all xs) (observe_all ys))) i =
          join_bin (bin_at (h_bins (observe_all xs)) i) (bin_at (h_bins (observe_all ys)) i)" using m by blast
      also have "\<dots> = (if group i (xs @ ys) = [] then None else Some (group_bin i (group i (xs @ ys))))"
        using join_group_bins [of xs ys i] d(3) x y by (simp only: length_append)
      also have "\<dots> = bin_at (h_bins (observe_all zs)) i" using w grp [of i] by (simp only:)
      finally show ?thesis .
    qed
    have "h_bins (hist_Merge (observe_all xs) (observe_all ys)) = h_bins (observe_all zs)"
      by (rule sorted_bins_eq) (use m w at in blast)+
    moreover have "s64 (h_total (observe_all xs) + (\<Sum>b\<leftarrow>h_bins (observe_all ys). b_Count b)) =
        s64 (int (length xs) + int (length ys))"
      using s64_add_s64 [of "h_total (observe_all xs)" "\<Sum>b\<leftarrow>h_bins (observe_all ys). b_Count b"]
        observe_all_sum [OF d(2)] x by simp
    moreover have "in_s64 (int (length xs) + int (length ys))" using d(3) by (simp add: in_s64_def)
    ultimately show ?thesis using m w len by (intro Hist.equality) (simp_all add: s64_id)
  qed
  have "durations ds" "durations es" "durations (ds @ es)" "durations (es @ ds)" using assms by auto
  then show ?thesis
    using merge [of ds es "ds @ es"] merge [of es ds "ds @ es"]
    by (simp add: MergeEncoded_def Decode_Encode observe_all_wf)
qed

theorem MergeEncoded_observes_all_witness:
  "MergeEncoded (Encode (observe_all [1, 2, 300])) (Encode (observe_all [2, 299])) =
     Inr (Encode (observe_all [1, 2, 300, 2, 299]))"
  using MergeEncoded_observes_all [of "[1, 2, 300]" "[2, 299]"] by (simp add: in_s64_def)

lemma uvarint_loop_lt:
  "x < 2 ^ s \<Longrightarrow> s = 7 * i \<Longrightarrow> i \<le> 10 \<Longrightarrow> fst (uvarint_loop i s x buf) < 2 ^ 64"
proof (induction buf arbitrary: i s x)
  case (Cons b buf)
  have p: "(2::nat) ^ (s + 7) = 128 * 2 ^ s" by (simp add: power_add)
  have small: "x + d * 2 ^ s < 2 ^ (s + 7)" if "d < 128" for d
  proof -
    have "d * 2 ^ s \<le> 127 * 2 ^ s" using that by (intro mult_right_mono) auto
    then show ?thesis using Cons.prems(1) p by linarith
  qed
  consider "i = 10" | "i < 10" "unat b \<ge> 128" | "i = 9" "unat b < 128" | "i < 9" "unat b < 128"
    using Cons.prems(3) by linarith
  then show ?case
  proof cases
    case 2
    have "unat b < 256" using unsigned_less [of b] by simp
    then have "x + (unat b - 128) * 2 ^ s < 2 ^ (s + 7)" by (intro small) simp
    with Cons.IH [of "x + (unat b - 128) * 2 ^ s" "s + 7" "i + 1"] Cons.prems 2 show ?thesis by simp
  next
    case 3
    then have "s = 63" using Cons.prems(2) by simp
    then have "x + unat b * 2 ^ s < 2 ^ 64" if "unat b \<le> 1"
      using Cons.prems(1) that by (cases "unat b") auto
    then show ?thesis using 3 by auto
  next
    case 4
    have "(2::nat) ^ (s + 7) \<le> 2 ^ 64" using 4(1) Cons.prems(2) by (intro power_increasing) auto
    then show ?thesis using small [OF 4(2)] 4 by simp
  qed simp
qed simp

lemma Uvarint_lt: "Uvarint buf = (v, n) \<Longrightarrow> v < 2 ^ 64"
  using uvarint_loop_lt [of 0 0 0 buf] by (simp add: Uvarint_def)

lemma Varint_range: "Varint buf = (x, n) \<Longrightarrow> in_s64 x"
proof -
  assume v: "Varint buf = (x, n)"
  obtain ux m where u: "Uvarint buf = (ux, m)" by fastforce
  have "ux div 2 < 2 ^ 63" using Uvarint_lt [OF u] by simp
  then have "int (ux div 2) < 2 ^ 63" by (metis of_nat_less_iff of_nat_numeral of_nat_power)
  then show ?thesis using v u by (auto simp: Varint_def in_s64_def Let_def split: if_splits)
qed

definition decoded_bin :: "Bin \<Rightarrow> bool" where
  "decoded_bin b \<longleftrightarrow> 0 \<le> b_Index b \<and> b_Index b < Bins \<and> b_Count b \<noteq> 0 \<and> in_s64 (b_Count b)
     \<and> in_s64 (b_Min b) \<and> in_s64 (b_Max b)"

definition decoded :: "Hist \<Rightarrow> bool" where
  "decoded h \<longleftrightarrow> sorted_wrt (<) (map b_Index (h_bins h)) \<and> h_total h = s64 (\<Sum>b\<leftarrow>h_bins h. b_Count b)
     \<and> list_all decoded_bin (h_bins h)"

lemma s64_nonzero: "0 < c \<Longrightarrow> c < 2 ^ 64 \<Longrightarrow> s64 c \<noteq> 0"
  using s64_mod_eq [of c] by auto

lemma decode_loop_decoded:
  "decoded h \<Longrightarrow> \<forall>b \<in> set (h_bins h). b_Index b \<le> prev \<Longrightarrow> -1 \<le> prev \<Longrightarrow>
   case decode_loop prev buf h of Inl e \<Rightarrow> e = ErrCorrupt | Inr h' \<Rightarrow> decoded h'"
proof (induction prev buf h rule: decode_loop.induct)
  case (2 prev b buf h)
  obtain cnt n where u1: "Uvarint buf = (cnt, n)" by fastforce
  obtain lo n' where u2: "Varint (drop (nat n) buf) = (lo, n')" by fastforce
  obtain wd n'' where u3: "Uvarint (drop (nat n') (drop (nat n) buf)) = (wd, n'')" by fastforce
  define idx where "idx = int (unat b)"
  define h' where "h' = \<lparr>h_bins = h_bins h @ [\<lparr>b_Index = idx, b_Count = s64 (int cnt), b_Min = lo, b_Max = s64 (lo + s64 (int wd))\<rparr>],
    h_total = s64 (h_total h + s64 (int cnt))\<rparr>"
  define rest where "rest = drop (nat n'') (drop (nat n') (drop (nat n) buf))"
  have step: "decode_loop prev (b # buf) h = (if Bins \<le> idx \<or> idx \<le> prev \<or> n \<le> 0 \<or> cnt = 0 \<or> n' \<le> 0 \<or> n'' \<le> 0
      then Inl ErrCorrupt else decode_loop idx rest h')"
    by (auto simp: Let_def u1 u2 u3 idx_def h'_def rest_def simp del: drop_drop)
  show ?case
  proof (cases "Bins \<le> idx \<or> idx \<le> prev \<or> n \<le> 0 \<or> cnt = 0 \<or> n' \<le> 0 \<or> n'' \<le> 0")
    case True
    then show ?thesis unfolding step by simp
  next
    case False
    then have go: "idx < Bins" "prev < idx" "0 < n" "cnt \<noteq> 0" "0 < n'" "0 < n''"
      and eq: "decode_loop prev (b # buf) h = decode_loop idx rest h'" unfolding step by simp_all
    have "s64 (int cnt) \<noteq> 0" by (rule s64_nonzero) (use go(4) Uvarint_lt [OF u1] in simp_all)
    then have "decoded h'"
      using "2.prems" go Varint_range [OF u2] s64_range s64_add_s64 [of "s64 (int cnt)" "\<Sum>b\<leftarrow>h_bins h. b_Count b"]
      by (auto simp: decoded_def decoded_bin_def h'_def sorted_wrt_append idx_def ac_simps)
    moreover have "\<forall>b \<in> set (h_bins h'). b_Index b \<le> idx" using "2.prems"(2) go(2) by (auto simp: h'_def)
    ultimately have "case decode_loop idx rest h' of Inl e \<Rightarrow> e = ErrCorrupt | Inr h' \<Rightarrow> decoded h'"
      unfolding h'_def rest_def
      by (intro "2.IH" [OF idx_def _ u1 [symmetric] _ u2 [symmetric] _ u3 [symmetric]]) (use go idx_def "2.prems"(3) in auto)
    then show ?thesis by (simp only: eq)
  qed
qed simp

text \<open>
  C17: whatever bytes are decoded, an accepted buffer gives bins in strictly ascending index order,
  all inside the histogram, each with a non-zero count and 64-bit bounds, and a total that is their
  sum; every other buffer is reported as corrupt.
\<close>

theorem Decode_well_typed:
  "case Decode buf of Inl e \<Rightarrow> e = ErrCorrupt
   | Inr h \<Rightarrow> sorted_wrt (<) (map b_Index (h_bins h)) \<and> h_total h = s64 (\<Sum>b\<leftarrow>h_bins h. b_Count b)
       \<and> list_all (\<lambda>b. 0 \<le> b_Index b \<and> b_Index b < Bins \<and> b_Count b \<noteq> 0 \<and> in_s64 (b_Count b)
            \<and> in_s64 (b_Min b) \<and> in_s64 (b_Max b)) (h_bins h)"
proof -
  have "case Decode buf of Inl e \<Rightarrow> e = ErrCorrupt | Inr h \<Rightarrow> decoded h"
    using decode_loop_decoded [of empty_hist "- 1"]
    by (auto simp: Decode_def decoded_def empty_hist_def s64_def split: list.splits)
  then show ?thesis by (simp add: decoded_def decoded_bin_def [abs_def] split: sum.splits)
qed

text \<open>
  A count of 2 ^ 63 or more in a stored row is not reported as corrupt: it wraps around, and
  the decoded histogram has a bin with a negative count.
\<close>

theorem Decode_accepts_negative_count:
  "Decode [encodingV1, 5, 128, 128, 128, 128, 128, 128, 128, 128, 128, 1, 0, 0] =
     Inr \<lparr>h_bins = [\<lparr>b_Index = 5, b_Count = - (2 ^ 63), b_Min = 0, b_Max = 0\<rparr>], h_total = - (2 ^ 63)\<rparr>"
  by (simp add: Decode_def encodingV1_def Uvarint_def Varint_def Bins_def empty_hist_def s64_def Let_def)

end
