(* ===== verification/SpanHistPercentile.thy ===== *)
theory SpanHistPercentile
  imports SpanHist
begin

text \<open>
  Percentiles read from a histogram of observations, with the double precision arithmetic of the
  code. The rank the code computes is compared with the documented one, \<^verbatim>\<open>round(p/100*n)\<close> in exact
  arithmetic; the value lies in the bin that holds the duration of that rank, between the smallest and
  largest duration of that bin, and grows with the percentile asked for.
\<close>

section \<open>Interpolation inside a bin\<close>

definition bin_span :: "Bin \<Rightarrow> bool" where
  "bin_span b \<longleftrightarrow> 0 < b_Count b \<and> b_Min b \<le> b_Max b \<and> b_Max b - b_Min b \<le> 2 ^ 53
     \<and> in_s64 (b_Min b) \<and> in_s64 (b_Max b)"

definition offset :: "int \<Rightarrow> Bin \<Rightarrow> int" where
  "offset r b = go_round (fl64 (fl64 (fl64 (of_int r) / fl64 (of_int (b_Count b - 1))) * of_int (b_Max b - b_Min b)))"

lemma width_exact: "bin_span b \<Longrightarrow> fl64 (of_int (b_Max b - b_Min b)) = of_int (b_Max b - b_Min b)"
  by (rule fl64_int) (simp add: bin_span_def)


lemma offset_bounds:
  assumes "bin_span b" and "0 \<le> r" "r \<le> b_Count b - 1"
  shows "0 \<le> offset r b" and "offset r b \<le> b_Max b - b_Min b"
proof -
  let ?w = "of_int (b_Max b - b_Min b) :: rat" and ?q = "fl64 (of_int r) / fl64 (of_int (b_Count b - 1))"
  have w: "fl64 ?w = ?w" by (rule width_exact [OF assms(1)])
  have w0: "0 \<le> ?w" using assms(1) by (simp add: bin_span_def)
  have q: "0 \<le> ?q" "?q \<le> 1"
    using assms(2,3) fl64_mono [of "of_int r" "of_int (b_Count b - 1)"] fl64_nonneg [of "of_int r"]
      fl64_nonneg [of "of_int (b_Count b - 1)"]
    by (auto simp: divide_le_eq_1)
  have p: "0 \<le> fl64 ?q" "fl64 ?q \<le> 1" using q fl64_nonneg fl64_mono [of ?q 1] by simp_all
  have "fl64 ?q * ?w \<le> 1 * ?w" using p w0 by (intro mult_right_mono)
  then have "fl64 (fl64 ?q * ?w) \<le> ?w" using fl64_mono [of "fl64 ?q * ?w" ?w] w by simp
  from go_round_mono [OF this] show "offset r b \<le> b_Max b - b_Min b" unfolding offset_def go_round_of_int .
  have "0 \<le> fl64 (fl64 ?q * ?w)" using p w0 by (intro fl64_nonneg) simp
  from go_round_mono [OF this] show "0 \<le> offset r b" using go_round_of_int [of 0] by (simp add: offset_def)
qed

lemma interpolate_eq:
  assumes "bin_span b" and "0 \<le> r" "r \<le> b_Count b - 1"
  shows "interpolate r b = (if b_Count b = 1 then b_Min b else b_Min b + offset r b)"
proof -
  have "s64 (b_Max b - b_Min b) = b_Max b - b_Min b"
    using assms(1) by (auto simp: bin_span_def in_s64_def intro!: s64_id)
  moreover have "s64 (b_Min b + offset r b) = b_Min b + offset r b"
    using offset_bounds [OF assms] assms(1) by (intro s64_id) (auto simp: bin_span_def in_s64_def)
  ultimately show ?thesis
    using width_exact [OF assms(1)] by (simp only: interpolate_def offset_def Let_def)
qed

lemma interpolate_bounds:
  assumes "bin_span b" and "0 \<le> r" "r \<le> b_Count b - 1"
  shows "b_Min b \<le> interpolate r b" and "interpolate r b \<le> b_Max b"
  using offset_bounds [OF assms] assms(1) by (auto simp: interpolate_eq [OF assms] bin_span_def)


section \<open>Finding the bin of a rank\<close>

abbreviation counts :: "Bin list \<Rightarrow> int" where
  "counts bs \<equiv> (\<Sum>b\<leftarrow>bs. b_Count b)"

lemma counts_nonneg: "\<forall>b \<in> set bs. bin_span b \<Longrightarrow> 0 \<le> counts bs"
  by (intro sum_list_nonneg) (auto simp: bin_span_def)

lemma percentile_scan_exact:
  assumes "0 \<le> before" "0 < b_Count b" "before + b_Count b < 2 ^ 63" "before < rank" "rank < 2 ^ 63"
  shows "percentile_scan rank before (b # bs) = (if before + b_Count b < rank then percentile_scan rank (before + b_Count b) bs
    else Some (interpolate (rank - before - 1) b))"
  using assms by (simp add: s64_id in_s64_def)

lemma percentile_scan_finds:
  "\<forall>b \<in> set bs. bin_span b \<Longrightarrow> 0 \<le> before \<Longrightarrow> before + counts bs < 2 ^ 63 \<Longrightarrow> before < rank \<Longrightarrow> rank \<le> before + counts bs \<Longrightarrow>
   \<exists>xs b ys. bs = xs @ b # ys \<and> before + counts xs < rank \<and> rank \<le> before + counts xs + b_Count b
     \<and> percentile_scan rank before bs = Some (interpolate (rank - (before + counts xs) - 1) b)"
proof (induction bs arbitrary: before)
  case (Cons b bs)
  have pos: "0 < b_Count b" "0 \<le> counts bs" using Cons.prems(1) counts_nonneg [of bs] by (auto simp: bin_span_def)
  have scan: "percentile_scan rank before (b # bs) = (if before + b_Count b < rank then percentile_scan rank (before + b_Count b) bs
    else Some (interpolate (rank - before - 1) b))"
    by (rule percentile_scan_exact) (use Cons.prems pos in auto)
  show ?case
  proof (cases "before + b_Count b < rank")
    case True
    then obtain xs c ys where "bs = xs @ c # ys" "before + b_Count b + counts xs < rank"
      "rank \<le> before + b_Count b + counts xs + b_Count c"
      "percentile_scan rank (before + b_Count b) bs = Some (interpolate (rank - (before + b_Count b + counts xs) - 1) c)"
      using Cons.IH [of "before + b_Count b"] Cons.prems pos by auto
    then show ?thesis using True scan Cons.prems pos by (intro exI [of _ "b # xs"] exI [of _ c] exI [of _ ys]) (simp add: algebra_simps)
  next
    case False
    then show ?thesis using Cons.prems pos scan by (intro exI [of _ "[]"] exI [of _ b] exI [of _ bs]) simp
  qed
qed simp



section \<open>The rank\<close>

lemma percentile_rank_bounds: "0 < n \<Longrightarrow> 1 \<le> percentile_rank p n \<and> percentile_rank p n \<le> n"
  by (simp add: percentile_rank_def)


text \<open>
  The documented rank: \<^verbatim>\<open>p/100*n\<close> rounded to the nearest integer, halves up, without rounding errors and
  kept between 1 and \<open>n\<close>. \<open>near_tie\<close> says that \<^verbatim>\<open>p/100*n\<close> is halfway between two integers up to one part
  in 2 ^ 50 of \<open>n\<close>.
\<close>

definition exact_rank :: "rat \<Rightarrow> int \<Rightarrow> int" where
  "exact_rank p n = min (max \<lfloor>p * of_int n / 100 + 1 / 2\<rfloor> 1) n"

definition near_tie :: "rat \<Rightarrow> int \<Rightarrow> bool" where
  "near_tie p n \<longleftrightarrow> (let x = p * of_int n / 100 in \<bar>x - (of_int \<lfloor>x\<rfloor> + 1 / 2)\<bar> \<le> of_int n / 2 ^ 50)"

lemma rank_error:
  assumes "0 \<le> p" "p \<le> 100" and "1 \<le> n" "n \<le> 2 ^ 49"
  shows "\<bar>fl64 (fl64 (fl64 (p / 100) * fl64 (of_int n)) + 1 / 2) - (p * of_int n / 100 + 1 / 2)\<bar> \<le> of_int n / 2 ^ 50"
proof -
  define N u q a where "N = (of_int n :: rat)" and "u = (1 / 2 ^ 53 :: rat)" and "q = p / 100" and "a = fl64 q"
  have N: "1 \<le> N" "fl64 (of_int n) = N" using assms(3,4) by (simp_all add: N_def fl64_int)
  have q: "0 \<le> q" "q \<le> 1" using assms(1,2) by (simp_all add: q_def)
  have u: "0 < u" "8 * u * N = of_int n / 2 ^ 50" "u \<le> 1 / 8" by (simp_all add: u_def N_def)
  have err: "\<bar>fl64 x - x\<bar> \<le> \<bar>x\<bar> * u" for x using fl64_error [of x] by (simp add: u_def)
  have a: "0 \<le> a" "a \<le> 1" "\<bar>a - q\<bar> \<le> u"
  proof -
    show "0 \<le> a" "a \<le> 1" using q fl64_nonneg [of q] fl64_mono [of q 1] by (simp_all add: a_def)
    have "\<bar>q\<bar> * u \<le> u" using q u(1) mult_right_mono [of q 1 u] by simp
    then show "\<bar>a - q\<bar> \<le> u" using err [of q] by (simp add: a_def)
  qed
  define b where "b = fl64 (a * N)"
  have aN: "0 \<le> a * N" "a * N \<le> N" "a * N * u \<le> N * u"
  proof -
    show "0 \<le> a * N" "a * N \<le> N" using a N mult_right_mono [of a 1 N] by simp_all
    then show "a * N * u \<le> N * u" using u(1) by (intro mult_right_mono) simp_all
  qed
  have qN: "\<bar>a * N - q * N\<bar> \<le> u * N"
  proof -
    have "\<bar>a * N - q * N\<bar> = \<bar>a - q\<bar> * N" using N(1) by (simp add: abs_mult flip: left_diff_distrib)
    also have "\<dots> \<le> u * N" using a(3) N(1) by (intro mult_right_mono) simp_all
    finally show ?thesis .
  qed
  have b: "\<bar>b - a * N\<bar> \<le> N * u" "0 \<le> b" using err [of "a * N"] aN fl64_nonneg by (simp_all add: b_def)
  have "N * u \<le> N * 1" using u N(1) by (intro mult_left_mono) simp_all
  then have "\<bar>b + 1 / 2\<bar> \<le> 3 * N" using b aN N(1) by linarith
  then have "\<bar>b + 1 / 2\<bar> * u \<le> 3 * N * u" using u(1) by (intro mult_right_mono) simp_all
  then have "\<bar>fl64 (b + 1 / 2) - (b + 1 / 2)\<bar> \<le> 3 * (N * u)" using err [of "b + 1 / 2"] by linarith
  moreover have "\<bar>b - q * N\<bar> \<le> 2 * (N * u)" using b(1) qN by (simp add: mult.commute)
  ultimately have "\<bar>fl64 (b + 1 / 2) - (q * N + 1 / 2)\<bar> \<le> 5 * (N * u)" by linarith
  also have "\<dots> \<le> 8 * u * N" using u(1) N(1) by (simp add: mult.commute)
  finally have "\<bar>fl64 (b + 1 / 2) - (p * N / 100 + 1 / 2)\<bar> \<le> of_int n / 2 ^ 50" unfolding u(2) by (simp only: q_def times_divide_eq_left)
  then show ?thesis unfolding b_def a_def q_def N(2) by (simp only: N_def)
qed

lemma floor_differs:
  fixes x y e :: rat
  assumes "\<bar>y - (x + 1 / 2)\<bar> \<le> e" and "e < 1"
  shows "\<bar>\<lfloor>y\<rfloor> - \<lfloor>x + 1 / 2\<rfloor>\<bar> \<le> 1" and "\<lfloor>y\<rfloor> \<noteq> \<lfloor>x + 1 / 2\<rfloor> \<Longrightarrow> \<bar>x - (of_int \<lfloor>x\<rfloor> + 1 / 2)\<bar> \<le> e"
proof -
  show "\<bar>\<lfloor>y\<rfloor> - \<lfloor>x + 1 / 2\<rfloor>\<bar> \<le> 1" using assms by linarith
  assume ne: "\<lfloor>y\<rfloor> \<noteq> \<lfloor>x + 1 / 2\<rfloor>"
  define k where "k = max \<lfloor>y\<rfloor> \<lfloor>x + 1 / 2\<rfloor>"
  have "of_int k \<le> y \<and> x + 1 / 2 < of_int k \<or> of_int k \<le> x + 1 / 2 \<and> y < of_int k"
    using ne by (cases "\<lfloor>y\<rfloor> < \<lfloor>x + 1 / 2\<rfloor>") (auto simp: k_def max_def, linarith+)
  then have k: "\<bar>x - (of_int k - 1 / 2)\<bar> \<le> e" using assms(1) by linarith
  show "\<bar>x - (of_int \<lfloor>x\<rfloor> + 1 / 2)\<bar> \<le> e"
  proof (cases "k - 1 = \<lfloor>x\<rfloor>")
    case True
    then have "(of_int k :: rat) = of_int \<lfloor>x\<rfloor> + 1" by linarith
    then show ?thesis using k by simp
  next
    case False
    then have "1 / 2 \<le> \<bar>x - (of_int k - 1 / 2)\<bar>" by linarith
    moreover have "\<bar>x - (of_int \<lfloor>x\<rfloor> + 1 / 2)\<bar> \<le> 1 / 2" by linarith
    ultimately show ?thesis using k by linarith
  qed
qed

lemma clamp_near: "\<bar>a - b\<bar> \<le> 1 \<Longrightarrow> \<bar>min (max a 1) n - min (max b 1) n\<bar> \<le> (1 :: int)"
  by linarith

lemma percentile_rank_exact:
  assumes "0 \<le> p" "p \<le> 100" and "1 \<le> n" "n \<le> 2 ^ 49"
  shows "\<bar>percentile_rank p n - exact_rank p n\<bar> \<le> 1" and "\<not> near_tie p n \<Longrightarrow> percentile_rank p n = exact_rank p n"
proof -
  define y x where "y = fl64 (fl64 (fl64 (p / 100) * fl64 (of_int n)) + 1 / 2)" and "x = p * of_int n / 100"
  have y: "\<bar>y - (x + 1 / 2)\<bar> \<le> of_int n / 2 ^ 50" using rank_error [OF assms] by (simp add: x_def y_def)
  have "of_int n \<le> (of_int (2 ^ 49) :: rat)" using assms(4) by (simp only: of_int_le_iff)
  then have e: "(of_int n :: rat) / 2 ^ 50 < 1" by simp
  have "0 \<le> y" unfolding y_def using assms by (intro fl64_nonneg add_nonneg_nonneg mult_nonneg_nonneg) simp_all
  then have r: "percentile_rank p n = min (max \<lfloor>y\<rfloor> 1) n" by (simp add: percentile_rank_def y_def trunc_def)
  have x: "exact_rank p n = min (max \<lfloor>x + 1 / 2\<rfloor> 1) n" by (simp add: exact_rank_def x_def)
  show "\<bar>percentile_rank p n - exact_rank p n\<bar> \<le> 1" using floor_differs(1) [OF y e] unfolding r x by (rule clamp_near)
  show "\<not> near_tie p n \<Longrightarrow> percentile_rank p n = exact_rank p n"
    using floor_differs(2) [OF y e] unfolding r x near_tie_def Let_def x_def [symmetric] by metis
qed

text \<open>
  At a tie the two ranks can differ: the double nearest to 29/100 is a little smaller, so the 29th
  percentile of 50 durations is the 14th where \<^verbatim>\<open>round(p/100*n)\<close> is 15.
\<close>

lemma percentile_rank_tie: "percentile_rank 29 50 = 14 \<and> exact_rank 29 50 = 15"
  by code_simp

section \<open>Bins of observations\<close>

definition small_durations :: "int list \<Rightarrow> bool" where
  "small_durations ds \<longleftrightarrow> list_all (\<lambda>d. \<bar>d\<bar> \<le> 2 ^ 52) ds \<and> length ds < 2 ^ 63"

lemma small_durationsD: "small_durations ds \<Longrightarrow> durations ds"
  by (auto simp: small_durations_def list_all_iff in_s64_def abs_le_iff)

lemma observed_bin:
  assumes "small_durations ds" and "b \<in> set (h_bins (observe_all ds))"
  shows "bin_span b" and "b_Min b \<in> set ds" "b_Max b \<in> set ds"
    and "Index (b_Min b) = b_Index b" "Index (b_Max b) = b_Index b"
    and "b_Count b = int (length (group (b_Index b) ds))"
proof -
  note d = small_durationsD [OF assms(1)]
  note o = observe_all_bins [OF d]
  define xs where "xs = group (b_Index b) ds"
  have xs: "xs \<noteq> []" "b = group_bin (b_Index b) xs"
    using bin_at_sorted [of "h_bins (observe_all ds)" b] o assms(2) by (auto simp: xs_def split: if_splits)
  have f: "b_Count b = int (length xs)" "b_Min b = Min (set xs)" "b_Max b = Max (set xs)"
    using arg_cong [OF xs(2), of b_Count] arg_cong [OF xs(2), of b_Min] arg_cong [OF xs(2), of b_Max] by simp_all
  have mem: "Min (set xs) \<in> set xs" "Max (set xs) \<in> set xs" using xs(1) by simp_all
  then show i: "b_Min b \<in> set ds" "b_Max b \<in> set ds" "Index (b_Min b) = b_Index b" "Index (b_Max b) = b_Index b"
    by (auto simp: f xs_def)
  show "b_Count b = int (length (group (b_Index b) ds))" by (simp add: f xs_def)
  have "\<bar>b_Min b\<bar> \<le> 2 ^ 52" "\<bar>b_Max b\<bar> \<le> 2 ^ 52" using i assms(1) by (auto simp: small_durations_def list_all_iff)
  moreover have "b_Min b \<le> b_Max b" using mem by (simp add: f)
  ultimately show "bin_span b" using xs(1) f(1) by (auto simp: bin_span_def in_s64_def abs_le_iff)
qed


lemma counts_groups:
  "distinct is \<Longrightarrow> (\<Sum>i\<leftarrow>is. int (length (group i ds))) = int (length (filter (\<lambda>d. Index d \<in> set is) ds))"
proof (induction "is")
  case (Cons i "is")
  have "length (filter (\<lambda>d. Index d \<in> set (i # is)) ds) = length (group i ds) + length (filter (\<lambda>d. Index d \<in> set is) ds)"
    using Cons.prems by (induction ds) (auto simp: group_def)
  with Cons show ?case by simp
qed simp

lemma observed_counts_before:
  assumes "small_durations ds" and "h_bins (observe_all ds) = xs @ b # ys"
  shows "counts xs = int (length (filter (\<lambda>d. Index d < b_Index b) ds))"
    and "counts xs + b_Count b = int (length (filter (\<lambda>d. Index d \<le> b_Index b) ds))"
    and "counts (h_bins (observe_all ds)) = int (length ds)"
proof -
  note o = observe_all_bins [OF small_durationsD [OF assms(1)]]
  have s: "sorted_wrt (<) (map b_Index (xs @ b # ys))" using o assms(2) by metis
  have cnt: "counts zs = (\<Sum>i\<leftarrow>map b_Index zs. int (length (group i ds)))" if "set zs \<subseteq> set (xs @ b # ys)" for zs
    using that observed_bin(6) [OF assms(1)] assms(2) by (induction zs) auto
  have known: "Index d \<in> b_Index ` set (xs @ b # ys)" if "d \<in> set ds" for d
  proof -
    have "group (Index d) ds \<noteq> []" using that by (auto simp: group_def filter_empty_conv)
    then obtain c where "bin_at (xs @ b # ys) (Index d) = Some c" using o assms(2) by (metis)
    from bin_at_Some [OF this] show ?thesis by (metis imageI)
  qed
  have before: "\<forall>x \<in> set xs. b_Index x < b_Index b" and after: "\<forall>y \<in> set ys. b_Index b < b_Index y"
    using s by (simp_all add: sorted_wrt_append)
  have lt: "Index d \<in> set (map b_Index xs) \<longleftrightarrow> Index d < b_Index b"
    and le: "Index d \<in> set (map b_Index (xs @ [b])) \<longleftrightarrow> Index d \<le> b_Index b" if "d \<in> set ds" for d
    using known [OF that] before after by fastforce+
  have sub: "set xs \<subseteq> set (xs @ b # ys)" "set (xs @ [b]) \<subseteq> set (xs @ b # ys)" by auto
  have dist: "distinct (map b_Index (xs @ b # ys))" using s by (simp only: strict_sorted_iff)
  have "counts xs = int (length (filter (\<lambda>d. Index d \<in> set (map b_Index xs)) ds))"
    using cnt [OF sub(1)] counts_groups [of "map b_Index xs" ds] dist by simp
  also have "filter (\<lambda>d. Index d \<in> set (map b_Index xs)) ds = filter (\<lambda>d. Index d < b_Index b) ds"
    by (rule filter_cong [OF refl lt])
  finally show "counts xs = int (length (filter (\<lambda>d. Index d < b_Index b) ds))" .
  have "counts (xs @ [b]) = int (length (filter (\<lambda>d. Index d \<in> set (map b_Index (xs @ [b]))) ds))"
    using cnt [OF sub(2)] counts_groups [of "map b_Index (xs @ [b])" ds] dist by simp
  also have "filter (\<lambda>d. Index d \<in> set (map b_Index (xs @ [b]))) ds = filter (\<lambda>d. Index d \<le> b_Index b) ds"
    by (rule filter_cong [OF refl le])
  finally show "counts xs + b_Count b = int (length (filter (\<lambda>d. Index d \<le> b_Index b) ds))" by simp
  have "counts (xs @ b # ys) = int (length (filter (\<lambda>d. Index d \<in> set (map b_Index (xs @ b # ys))) ds))"
    using cnt [OF subset_refl] counts_groups [OF dist] by simp
  also have "filter (\<lambda>d. Index d \<in> set (map b_Index (xs @ b # ys))) ds = ds"
    using known by (intro filter_True) auto
  finally show "counts (h_bins (observe_all ds)) = int (length ds)" using assms(2) by simp
qed

lemma observed_total:
  assumes "small_durations ds" and "ds \<noteq> []"
  shows "counts (h_bins (observe_all ds)) = int (length ds)"
proof -
  obtain b where "bin_at (h_bins (observe_all ds)) (Index (hd ds)) = Some b"
    using observe_all_bins [OF small_durationsD [OF assms(1)]] assms(2)
    by (cases ds) (auto simp: group_def split: if_splits)
  then obtain us b vs where "h_bins (observe_all ds) = us @ b # vs" using bin_at_Some split_list by metis
  then show ?thesis by (rule observed_counts_before(3) [OF assms(1)])
qed

lemma nth_sort_bin:
  assumes "k < length ds"
  shows "length (filter (\<lambda>d. Index d < Index (sort ds ! k)) ds) \<le> k"
    and "k < length (filter (\<lambda>d. Index d \<le> Index (sort ds ! k)) ds)"
proof -
  let ?xs = "sort ds" and ?e = "sort ds ! k"
  have len: "length (filter P ds) = length (filter P ?xs)" for P
    by (metis mset_filter mset_sort size_mset)
  have k: "k < length ?xs" using assms by simp
  have "drop k ?xs = ?e # drop (Suc k) ?xs" "take (Suc k) ?xs = take k ?xs @ [?e]"
    using k by (simp_all add: Cons_nth_drop_Suc take_Suc_conv_app_nth)
  moreover have "sorted (drop k ?xs)" "sorted (take (Suc k) ?xs)" by (simp_all add: sorted_wrt_drop sorted_wrt_take)
  ultimately have ge: "\<And>x. x \<in> set (drop k ?xs) \<Longrightarrow> ?e \<le> x" and le: "\<And>x. x \<in> set (take (Suc k) ?xs) \<Longrightarrow> x \<le> ?e"
    by (auto simp: sorted_append)
  have "filter (\<lambda>d. Index d < Index ?e) (drop k ?xs) = []"
    using ge Index_mono by (force simp: filter_empty_conv)
  then have "filter (\<lambda>d. Index d < Index ?e) ?xs = filter (\<lambda>d. Index d < Index ?e) (take k ?xs)"
    by (metis append.right_neutral append_take_drop_id filter_append)
  then show "length (filter (\<lambda>d. Index d < Index ?e) ds) \<le> k"
    unfolding len using length_filter_le [of _ "take k ?xs"] k by (metis length_take min.absorb4)
  have "filter (\<lambda>d. Index d \<le> Index ?e) (take (Suc k) ?xs) = take (Suc k) ?xs"
    using le Index_mono by (intro filter_True) auto
  then have "length (filter (\<lambda>d. Index d \<le> Index ?e) ?xs) = Suc k + length (filter (\<lambda>d. Index d \<le> Index ?e) (drop (Suc k) ?xs))"
    using k by (metis Suc_leI append_take_drop_id filter_append length_append length_take min.absorb2)
  then show "k < length (filter (\<lambda>d. Index d \<le> Index ?e) ds)" unfolding len by simp
qed

section \<open>Properties\<close>

lemma Percentile_at_rank:
  assumes "small_durations ds" and "ds \<noteq> []"
  shows "\<exists>v lo hi. Percentile p (observe_all ds) = Some v \<and> lo \<in> set ds \<and> hi \<in> set ds \<and> lo \<le> v \<and> v \<le> hi
    \<and> Index lo = Index v \<and> Index hi = Index v
    \<and> Index v = Index (sort ds ! nat (percentile_rank p (int (length ds)) - 1))"
proof -
  let ?h = "observe_all ds" and ?r = "percentile_rank p (int (length ds))"
  have tot: "h_total ?h = int (length ds)" using observe_all_bins [OF small_durationsD [OF assms(1)]] by simp
  have n: "0 < int (length ds)" using assms(2) by simp
  note r = percentile_rank_bounds [OF n, of p]
  note c = observed_total [OF assms]
  obtain xs b ys where s: "h_bins ?h = xs @ b # ys" "counts xs < ?r" "?r \<le> counts xs + b_Count b"
    "percentile_scan ?r 0 (h_bins ?h) = Some (interpolate (?r - counts xs - 1) b)"
    using percentile_scan_finds [of "h_bins ?h" 0 ?r] observed_bin(1) [OF assms(1)] r c assms(1) by (auto simp: small_durations_def)
  have b: "b \<in> set (h_bins ?h)" using s(1) by simp
  note ob = observed_bin [OF assms(1) b]
  define v where "v = interpolate (?r - counts xs - 1) b"
  have v: "b_Min b \<le> v" "v \<le> b_Max b" using interpolate_bounds [OF ob(1), of "?r - counts xs - 1"] s(2,3) by (auto simp: v_def)
  have iv: "Index v = b_Index b" using Index_mono [OF v(1)] Index_mono [OF v(2)] ob(4,5) by simp
  define e where "e = sort ds ! nat (?r - 1)"
  have k: "nat (?r - 1) < length ds" using r by linarith
  note ne = nth_sort_bin [OF k, folded e_def]
  have "Index e = b_Index b"
  proof (rule ccontr)
    assume "Index e \<noteq> b_Index b"
    then consider "Index e < b_Index b" | "b_Index b < Index e" by linarith
    then show False
    proof cases
      case 1
      then have "length (filter (\<lambda>d. Index d \<le> Index e) ds) \<le> length (filter (\<lambda>d. Index d < b_Index b) ds)"
        by (intro length_filter_mono) auto
      then show False using ne(2) observed_counts_before(1) [OF assms(1) s(1)] s(2) r by linarith
    next
      case 2
      then have "length (filter (\<lambda>d. Index d \<le> b_Index b) ds) \<le> length (filter (\<lambda>d. Index d < Index e) ds)"
        by (intro length_filter_mono) auto
      then show False using ne(1) observed_counts_before(2) [OF assms(1) s(1)] s(3) r by linarith
    qed
  qed
  moreover have "Percentile p ?h = Some v" using s(4) n tot by (simp add: Percentile_def v_def)
  ultimately show ?thesis using ob v iv by (auto simp: e_def)
qed

text \<open>
  C18: a percentile is right up to the width of one bin. For up to 2 ^ 49 durations of up to 2 ^ 52
  microseconds in size, \<^verbatim>\<open>Percentile\<close> of their histogram returns a value in the same quarter-octave bin as
  the duration of some rank \<open>r\<close> of the sorted list, between two of the durations of that bin. That rank is
  \<^verbatim>\<open>round(p/100*n)\<close> as documented, computed without rounding errors, except where \<^verbatim>\<open>p/100*n\<close> is halfway
  between two integers up to one part in 2 ^ 50 of \<open>n\<close>; there it is off by at most one.
\<close>

theorem Percentile_same_bin:
  assumes "small_durations ds" and "ds \<noteq> []" and "length ds \<le> 2 ^ 49" and "0 \<le> p" "p \<le> 100"
  shows "\<exists>v lo hi r. Percentile p (observe_all ds) = Some v \<and> lo \<in> set ds \<and> hi \<in> set ds \<and> lo \<le> v \<and> v \<le> hi
    \<and> Index lo = Index v \<and> Index hi = Index v \<and> Index v = Index (sort ds ! nat (r - 1))
    \<and> 1 \<le> r \<and> r \<le> int (length ds) \<and> \<bar>r - exact_rank p (int (length ds))\<bar> \<le> 1
    \<and> (\<not> near_tie p (int (length ds)) \<longrightarrow> r = exact_rank p (int (length ds)))"
proof -
  let ?n = "int (length ds)" and ?r = "percentile_rank p (int (length ds))"
  have n: "1 \<le> ?n" "?n \<le> 2 ^ 49" using assms(2,3) by (simp_all add: Suc_le_eq)
  note e = percentile_rank_exact [OF assms(4,5) n]
  obtain v lo hi where "Percentile p (observe_all ds) = Some v" "lo \<in> set ds" "hi \<in> set ds" "lo \<le> v" "v \<le> hi"
    "Index lo = Index v" "Index hi = Index v" "Index v = Index (sort ds ! nat (?r - 1))"
    using Percentile_at_rank [OF assms(1,2), of p] by blast
  moreover have "1 \<le> ?r \<and> ?r \<le> ?n" by (rule percentile_rank_bounds) (use n in linarith)
  ultimately show ?thesis using e by (intro exI [of _ v] exI [of _ lo] exI [of _ hi] exI [of _ ?r]) simp
qed

theorem Percentile_same_bin_witness:
  "\<exists>v. Percentile 90 (observe_all [1000, 2000, 3000, 4000]) = Some v \<and> Index v = Index 4000"
proof -
  have "\<not> near_tie 90 4" "exact_rank 90 4 = 4" by code_simp+
  then show ?thesis
    using Percentile_same_bin [of "[1000, 2000, 3000, 4000]" 90] by (auto simp: small_durations_def)
qed



end
