(* ===== verification/CalcLex.thy ===== *)
theory CalcLex
  imports Float64
begin

text \<open>
  The lexer of calculated fields, \<^verbatim>\<open>internal/calcfield/lex.go\<close>. A string is a list of bytes. Errors
  are values of \<open>calc_error\<close>, one constructor per message; the wording of the messages is not
  modelled. Numbers are 64-bit integers, or doubles when the literal has a fraction or does not
  fit.
\<close>

section \<open>Values, errors, tokens\<close>

datatype sqlarg = Int64 int | Double rat | Text string

datatype tokType = tEOF | tNumber | tString | tWord | tQuoted | tOp | tLParen | tRParen | tComma

record token =
  t_typ :: tokType
  t_text :: string
  t_num :: "sqlarg option"

datatype calc_error =
    EmptyExpr
  | TooLong
  | IdentTooLong
  | NumberFollowedBy string
  | BadNumber string
  | NulInString
  | UnterminatedString
  | UnterminatedIdent
  | BadIdent
  | UnexpectedChar string
  | TooManyNodes
  | TooDeep
  | UnexpectedToken token
  | ReservedWord string
  | MissingParen
  | UnknownFunction string
  | TooManyArgs string
  | MissingParenIn string
  | WrongArgCount string nat
  | ExpansionTooBig
  | FieldCycle "string list" string
  | BadField string calc_error
  | OperandError string
  | NilExpr
  | OutOfFuel

definition MaxLength :: nat where "MaxLength = 500"
definition MaxDepth :: nat where "MaxDepth = 16"
definition MaxNodes :: nat where "MaxNodes = 200"
definition MaxCallArgs :: nat where "MaxCallArgs = 8"
definition maxIdentLen :: nat where "maxIdentLen = 200"
definition maxExpansion :: int where "maxExpansion = 2000"

definition reserved :: "string \<Rightarrow> bool" where
  "reserved w \<longleftrightarrow> w \<in> set [''and'', ''or'', ''not'']"

section \<open>Character classes\<close>

definition byte_of :: "char \<Rightarrow> nat" where
  "byte_of c = of_char c"

definition char_between :: "char \<Rightarrow> char \<Rightarrow> char \<Rightarrow> bool" where
  "char_between lo hi c \<longleftrightarrow> byte_of lo \<le> byte_of c \<and> byte_of c \<le> byte_of hi"

definition isWordStart :: "char \<Rightarrow> bool" where
  "isWordStart c \<longleftrightarrow> c = CHR ''_'' \<or> char_between CHR ''a'' CHR ''z'' c \<or> char_between CHR ''A'' CHR ''Z'' c"

definition isDigit :: "char \<Rightarrow> bool" where
  "isDigit c \<longleftrightarrow> char_between CHR ''0'' CHR ''9'' c"

definition isWordPart :: "char \<Rightarrow> bool" where
  "isWordPart c \<longleftrightarrow> isWordStart c \<or> isDigit c \<or> c = CHR ''.''"

text \<open>\<^verbatim>\<open>strings.ToLower\<close> on a text of ASCII letters, digits, dots and underscores.\<close>

definition lower_char :: "char \<Rightarrow> char" where
  "lower_char c = (if char_between CHR ''A'' CHR ''Z'' c then char_of (byte_of c + 32) else c)"

definition ToLower :: "string \<Rightarrow> string" where
  "ToLower s = map lower_char s"

section \<open>Numbers\<close>

text \<open>
  \<^verbatim>\<open>strconv.ParseInt\<close> and \<^verbatim>\<open>strconv.ParseFloat\<close> on the digits and the optional fraction the lexer
  passes them: the nearest double, subnormal numbers included, and an error above the largest.
\<close>

definition ParseInt :: "string \<Rightarrow> int option" where
  "ParseInt lit = (let v = int (read_digits lit) in if v < 2 ^ 63 then Some v else None)"

definition decimal_value :: "string \<Rightarrow> rat" where
  "decimal_value lit =
     (let w = takeWhile isDigit lit; f = drop (length w + 1) lit
      in of_nat (read_digits w) + of_nat (read_digits f) / 10 ^ length f)"

definition ParseFloat :: "string \<Rightarrow> rat option" where
  "ParseFloat lit =
     (let v = decimal_value lit;
          s = max (fl_exp v - 52) (- 1074);
          r = (if v = 0 then 0 else of_int (round_even (v / 2 powi s)) * 2 powi s)
      in if r < 2 powi 1024 then Some r else None)"

section \<open>Lexing one token\<close>

text \<open>The result of lexing one token: the token and the number of bytes it takes.\<close>

type_synonym lexed = "calc_error + token \<times> nat"

definition plain_token :: "tokType \<Rightarrow> string \<Rightarrow> token" where
  "plain_token typ text = \<lparr>t_typ = typ, t_text = text, t_num = None\<rparr>"

definition lexWord :: "string \<Rightarrow> lexed" where
  "lexWord s =
     (let n = 1 + length (takeWhile isWordPart (drop 1 s))
      in if n > maxIdentLen then Inl IdentTooLong
         else let text = take n s; low = ToLower text
              in Inr (plain_token tWord (if reserved low then low else text), n))"

definition lexNumber :: "string \<Rightarrow> lexed" where
  "lexNumber s =
     (let n0 = length (takeWhile isDigit s);
          isFloat = (n0 + 1 < length s \<and> s ! n0 = CHR ''.'' \<and> isDigit (s ! (n0 + 1)));
          n = (if isFloat then n0 + 1 + length (takeWhile isDigit (drop (n0 + 1) s)) else n0)
      in if n < length s \<and> (isWordStart (s ! n) \<or> s ! n = CHR ''.'') then Inl (NumberFollowedBy [s ! n])
         else let lit = take n s
              in case (if isFloat then None else ParseInt lit) of
                   Some v \<Rightarrow> Inr (\<lparr>t_typ = tNumber, t_text = lit, t_num = Some (Int64 v)\<rparr>, n)
                 | None \<Rightarrow> (case ParseFloat lit of
                     None \<Rightarrow> Inl (BadNumber lit)
                   | Some v \<Rightarrow> Inr (\<lparr>t_typ = tNumber, t_text = lit, t_num = Some (Double v)\<rparr>, n)))"

text \<open>The loop of \<^verbatim>\<open>lexString\<close>: the text so far, the bytes read, the bytes left.\<close>

fun lexString_loop :: "string \<Rightarrow> nat \<Rightarrow> string \<Rightarrow> lexed" where
  "lexString_loop b i [] = Inl UnterminatedString"
| "lexString_loop b i (c # s) =
     (if c \<noteq> CHR 0x27 then
        if c = NUL then Inl NulInString else lexString_loop (b @ [c]) (i + 1) s
      else case s of
          d # s' \<Rightarrow> if d = CHR 0x27 then lexString_loop (b @ [CHR 0x27]) (i + 2) s'
                    else Inr (plain_token tString b, i + 1)
        | [] \<Rightarrow> Inr (plain_token tString b, i + 1))"

definition lexString :: "string \<Rightarrow> lexed" where
  "lexString s = lexString_loop [] 1 (drop 1 s)"

definition IndexByte :: "string \<Rightarrow> char \<Rightarrow> nat option" where
  "IndexByte s c = (let n = length (takeWhile (\<lambda>x. x \<noteq> c) s) in if n < length s then Some n else None)"

definition refused_char :: "char \<Rightarrow> bool" where
  "refused_char c \<longleftrightarrow> c \<in> set [CHR 0x22, CHR 0x5C, NUL]"

definition lexQuoted :: "string \<Rightarrow> lexed" where
  "lexQuoted s =
     (case IndexByte (drop 1 s) CHR 0x60 of
        None \<Rightarrow> Inl UnterminatedIdent
      | Some e \<Rightarrow>
          let name = take e (drop 1 s)
          in if name = [] \<or> length name > maxIdentLen \<or> list_ex refused_char name
             then Inl BadIdent else Inr (plain_token tQuoted name, e + 2))"

definition lexSymbol :: "string \<Rightarrow> lexed" where
  "lexSymbol s =
     (if length s \<ge> 2 \<and> take 2 s \<in> set [''<='', ''>='', ''!='', ''<>'', ''==''] then Inr (plain_token tOp (take 2 s), 2)
      else let c = hd s
           in if c \<in> set [CHR ''+'', CHR ''-'', CHR ''*'', CHR ''/'', CHR ''%'', CHR ''='', CHR ''<'', CHR ''>'']
              then Inr (plain_token tOp [c], 1)
              else if c = CHR ''('' then Inr (plain_token tLParen ''('', 1)
              else if c = CHR '')'' then Inr (plain_token tRParen '')'', 1)
              else if c = CHR '','' then Inr (plain_token tComma '','', 1)
              else Inl (UnexpectedChar [c]))"

definition lexOne :: "string \<Rightarrow> lexed" where
  "lexOne s =
     (let c = hd s
      in if isDigit c then lexNumber s
         else if isWordStart c then lexWord s
         else if c = CHR 0x27 then lexString s
         else if c = CHR 0x60 then lexQuoted s
         else lexSymbol s)"

section \<open>The whole expression\<close>

definition eof_token :: token where
  "eof_token = plain_token tEOF []"

definition blank :: "char \<Rightarrow> bool" where
  "blank c \<longleftrightarrow> c \<in> set [CHR '' '', CHR 0x09, CHR 0x0A, CHR 0x0D]"

text \<open>Every token takes at least one byte, so the loop ends.\<close>

lemma lexString_loop_advances: "lexString_loop b i s = Inr (t, n) \<Longrightarrow> i < n"
  by (induction b i s rule: lexString_loop.induct) (fastforce split: if_splits list.splits)+

lemma lexOne_cases:
  "lexOne s = lexNumber s \<and> isDigit (hd s) \<or> lexOne s = lexWord s \<and> isWordStart (hd s)
    \<or> lexOne s = lexString s \<or> lexOne s = lexQuoted s \<or> lexOne s = lexSymbol s"
  by (simp add: lexOne_def Let_def)

lemma lexOne_advances:
  assumes "lexOne s = Inr (t, n)" and "s \<noteq> []"
  shows "0 < n"
proof -
  have w: "lexWord s = Inr (t, n) \<Longrightarrow> 0 < n" by (auto simp: lexWord_def Let_def split: if_splits)
  have q: "lexQuoted s = Inr (t, n) \<Longrightarrow> 0 < n" by (auto simp: lexQuoted_def Let_def split: if_splits option.splits)
  have y: "lexSymbol s = Inr (t, n) \<Longrightarrow> 0 < n" by (auto simp: lexSymbol_def Let_def split: if_splits)
  have m: "lexNumber s = Inr (t, n) \<Longrightarrow> isDigit (hd s) \<Longrightarrow> 0 < n"
    using assms(2) by (cases s) (auto simp: lexNumber_def Let_def split: if_splits option.splits)
  have t: "lexString s = Inr (t, n) \<Longrightarrow> 0 < n"
    unfolding lexString_def using lexString_loop_advances [of "[]" 1 "drop 1 s" t n] by linarith
  show ?thesis using lexOne_cases [of s] assms(1) w q y m t by (elim disjE conjE) simp_all
qed

function lex_loop :: "string \<Rightarrow> token list \<Rightarrow> calc_error + token list" where
  "lex_loop [] toks = Inr (toks @ [eof_token])"
| "lex_loop (c # s) toks =
     (if blank c then lex_loop s toks
      else case lexOne (c # s) of
          Inl e \<Rightarrow> Inl e
        | Inr tn \<Rightarrow> lex_loop (drop (snd tn) (c # s)) (toks @ [fst tn]))"
  by pat_completeness auto
termination
proof (relation "measure (length \<circ> fst)")
  fix c s toks tn
  assume "lexOne (c # s) = Inr tn"
  then have "0 < snd tn" using lexOne_advances [of "c # s" "fst tn" "snd tn"] by simp
  then show "((drop (snd tn) (c # s), toks @ [fst tn]), c # s, toks) \<in> measure (length \<circ> fst)" by simp
qed simp_all

definition lex :: "string \<Rightarrow> calc_error + token list" where
  "lex src = lex_loop src []"

section \<open>What the tokens hold\<close>

text \<open>
  A token the parser can rely on: words are made of word characters and quoted names hold none of
  the characters a key refuses, both of 1 to 200 bytes; strings hold no NUL; numbers carry a
  value; operators come from the fixed table.
\<close>

definition operators :: "string list" where
  "operators = [''<='', ''>='', ''!='', ''<>'', ''=='', ''+'', ''-'', ''*'', ''/'', ''%'', ''='', ''<'', ''>'']"

definition ident_ok :: "string \<Rightarrow> bool" where
  "ident_ok s \<longleftrightarrow> s \<noteq> [] \<and> length s \<le> maxIdentLen \<and> \<not> list_ex refused_char s"

definition token_ok :: "token \<Rightarrow> bool" where
  "token_ok t \<longleftrightarrow> (case t_typ t of
      tWord \<Rightarrow> ident_ok (t_text t) \<and> list_all isWordPart (t_text t)
    | tQuoted \<Rightarrow> ident_ok (t_text t)
    | tString \<Rightarrow> NUL \<notin> set (t_text t)
    | tNumber \<Rightarrow> t_num t \<noteq> None
    | tOp \<Rightarrow> t_text t \<in> set operators
    | tEOF \<Rightarrow> False
    | _ \<Rightarrow> True)"

lemma NUL_char: "NUL = CHR 0x00"
  by (simp add: NUL_def char_of_def)

lemma isWordPart_safe: "isWordPart c \<Longrightarrow> \<not> refused_char c"
  by (auto simp: refused_char_def isWordPart_def isWordStart_def isDigit_def char_between_def byte_of_def NUL_char)

lemma isWordStart_part: "isWordStart c \<Longrightarrow> isWordPart c"
  by (simp add: isWordPart_def)

lemma reserved_word: "reserved w \<Longrightarrow> ident_ok w \<and> list_all isWordPart w"
  by (auto simp: reserved_def ident_ok_def refused_char_def maxIdentLen_def isWordPart_def isWordStart_def char_between_def byte_of_def NUL_char)

lemma lexWord_ok:
  assumes "lexWord s = Inr (t, n)" and "s \<noteq> []" "isWordStart (hd s)"
  shows "token_ok t"
proof -
  obtain c r where s: "s = c # r" using assms(2) by (cases s) auto
  define w where "w = c # takeWhile isWordPart r"
  have parts: "list_all isWordPart w"
    using assms(3) s by (auto simp: w_def list_all_iff isWordStart_part dest: set_takeWhileD)
  have "take (1 + length (takeWhile isWordPart (drop 1 s))) s = w" by (simp add: s w_def takeWhile_eq_take [symmetric])
  then have t: "t = plain_token tWord (if reserved (ToLower w) then ToLower w else w)" and l: "length w \<le> maxIdentLen"
    using assms(1) by (auto simp: lexWord_def Let_def s w_def split: if_splits)
  have "ident_ok w" using parts l isWordPart_safe by (auto simp: ident_ok_def list_all_iff list_ex_iff w_def)
  then show ?thesis using t parts reserved_word [of "ToLower w"] by (auto simp: token_ok_def plain_token_def)
qed

lemma lexString_loop_ok: "lexString_loop b i s = Inr (t, n) \<Longrightarrow> NUL \<notin> set b \<Longrightarrow> t_typ t = tString \<and> NUL \<notin> set (t_text t)"
proof (induction b i s rule: lexString_loop.induct)
  case (2 b i c s)
  have q: "CHR 0x27 \<noteq> NUL" by (simp add: NUL_char)
  show ?case
    using "2.prems" "2.IH" q
    by (cases "c = CHR 0x27"; cases "c = NUL"; cases s) (auto simp: plain_token_def split: if_splits)
qed simp

lemma lexOne_ok:
  assumes "lexOne s = Inr (t, n)" and "s \<noteq> []"
  shows "token_ok t"
proof -
  have m: "lexNumber s = Inr (t, n) \<Longrightarrow> token_ok t"
    by (auto simp: lexNumber_def Let_def token_ok_def split: if_splits option.splits)
  have q: "lexQuoted s = Inr (t, n) \<Longrightarrow> token_ok t"
    by (auto simp: lexQuoted_def Let_def token_ok_def plain_token_def ident_ok_def split: if_splits option.splits)
  have y: "lexSymbol s = Inr (t, n) \<Longrightarrow> token_ok t"
    by (auto simp: lexSymbol_def Let_def token_ok_def plain_token_def operators_def split: if_splits)
  have t: "lexString s = Inr (t, n) \<Longrightarrow> token_ok t"
    using lexString_loop_ok [of "[]" 1 "drop 1 s" t n] by (simp add: lexString_def token_ok_def)
  have w: "lexWord s = Inr (t, n) \<Longrightarrow> isWordStart (hd s) \<Longrightarrow> token_ok t" using lexWord_ok assms(2) by blast
  show ?thesis using lexOne_cases [of s] assms(1) w q y m t by (elim disjE conjE) simp_all
qed

lemma lex_loop_ok:
  "lex_loop s toks = Inr ts \<Longrightarrow> list_all token_ok toks \<Longrightarrow>
   \<exists>us. ts = us @ [eof_token] \<and> list_all token_ok us"
proof (induction s toks rule: lex_loop.induct)
  case (2 c s toks)
  show ?case
  proof (cases "blank c")
    case True
    then show ?thesis using 2 by simp
  next
    case False
    then obtain t n where l: "lexOne (c # s) = Inr (t, n)" using "2.prems"(1) by (auto split: sum.splits)
    then have "token_ok t" by (rule lexOne_ok) simp
    then show ?thesis using "2.IH"(2) [OF False l] "2.prems" False l by simp
  qed
qed auto

lemma lex_tokens: "lex src = Inr ts \<Longrightarrow> \<exists>us. ts = us @ [eof_token] \<and> list_all token_ok us"
  using lex_loop_ok [of src "[]" ts] by (simp add: lex_def)

end
