(* ===== verification/CalcParse.thy ===== *)
theory CalcParse
  imports CalcLex
begin

text \<open>
  The recursive-descent parser of calculated fields, \<^verbatim>\<open>internal/calcfield/parse.go\<close>. The recursion is
  bounded by the depth the code counts. The loops over operators and arguments take fuel, one
  unit per token left: every round consumes a token, so \<open>OutOfFuel\<close> never results, which
  \<open>Parse_total\<close> proves.
\<close>

section \<open>Expressions\<close>

datatype node =
    KNumber sqlarg
  | KString string
  | KIdent string
  | KUnary string node
  | KBinary string node node
  | KCall string "node list"

definition function_sigs :: "(string \<times> nat \<times> nat) list" where
  "function_sigs = [(''coalesce'', 2, MaxCallArgs), (''if'', 3, 3), (''concat'', 2, MaxCallArgs), (''lower'', 1, 1)]"

text \<open>\<^verbatim>\<open>Idents\<close>: the identifiers in order of first use, each once.\<close>

fun walk :: "node \<Rightarrow> string list \<Rightarrow> string list" and walk_list :: "node list \<Rightarrow> string list \<Rightarrow> string list" where
  "walk (KIdent s) out = (if s \<in> set out then out else out @ [s])"
| "walk (KNumber v) out = out"
| "walk (KString s) out = out"
| "walk (KUnary op x) out = walk x out"
| "walk (KBinary op l r) out = walk r (walk l out)"
| "walk (KCall f xs) out = walk_list xs out"
| "walk_list [] out = out"
| "walk_list (x # xs) out = walk_list xs (walk x out)"

definition Idents :: "node \<Rightarrow> string list" where
  "Idents e = walk e []"

section \<open>The parser\<close>

record parser =
  ps_toks :: "token list"
  ps_pos :: nat
  ps_nodes :: nat

type_synonym presult = "calc_error + node \<times> parser"

definition peek :: "parser \<Rightarrow> token" where
  "peek p = ps_toks p ! ps_pos p"

definition advance :: "parser \<Rightarrow> parser" where
  "advance p = p\<lparr>ps_pos := ps_pos p + 1\<rparr>"

text \<open>\<^verbatim>\<open>next\<close> never moves past the end token.\<close>

definition next_token :: "parser \<Rightarrow> token \<times> parser" where
  "next_token p = (peek p, if t_typ (peek p) \<noteq> tEOF then advance p else p)"

definition accept :: "tokType \<Rightarrow> string \<Rightarrow> parser \<Rightarrow> bool \<times> parser" where
  "accept typ text p = (if t_typ (peek p) = typ \<and> t_text (peek p) = text then (True, advance p) else (False, p))"

definition mk :: "node \<Rightarrow> parser \<Rightarrow> presult" where
  "mk n p = (let p = p\<lparr>ps_nodes := ps_nodes p + 1\<rparr> in if ps_nodes p > MaxNodes then Inl TooManyNodes else Inr (n, p))"

definition mk_binary :: "string \<Rightarrow> node \<Rightarrow> node \<Rightarrow> parser \<Rightarrow> presult" where
  "mk_binary op l r p = mk (KBinary op l r) p"

definition fuel_for :: "parser \<Rightarrow> nat" where
  "fuel_for p = Suc (length (ps_toks p) - ps_pos p)"

definition is_word :: "string \<Rightarrow> token \<Rightarrow> bool" where
  "is_word w t \<longleftrightarrow> t_typ t = tWord \<and> t_text t = w"

definition is_op :: "string list \<Rightarrow> token \<Rightarrow> bool" where
  "is_op ops t \<longleftrightarrow> t_typ t = tOp \<and> t_text t \<in> set ops"

definition compareOps :: "string list" where
  "compareOps = [''='', ''=='', ''!='', ''<>'', ''<'', ''<='', ''>'', ''>='']"

text \<open>The loop that \<^verbatim>\<open>parseOr\<close>, \<^verbatim>\<open>parseAnd\<close>, \<^verbatim>\<open>parseSum\<close> and \<^verbatim>\<open>parseProduct\<close> share.\<close>

fun ops_loop :: "nat \<Rightarrow> (token \<Rightarrow> bool) \<Rightarrow> (parser \<Rightarrow> presult) \<Rightarrow> node \<Rightarrow> parser \<Rightarrow> presult" where
  "ops_loop 0 isOp sub l p = Inl OutOfFuel"
| "ops_loop (Suc n) isOp sub l p =
     (if isOp (peek p) then
        (case sub (advance p) of
           Inl e \<Rightarrow> Inl e
         | Inr (r, p') \<Rightarrow>
             (case mk_binary (t_text (peek p)) l r p' of
                Inl e \<Rightarrow> Inl e
              | Inr (l', p'') \<Rightarrow> ops_loop n isOp sub l' p''))
      else Inr (l, p))"

text \<open>The argument loop of \<^verbatim>\<open>parseCall\<close>.\<close>

fun args_loop :: "nat \<Rightarrow> string \<Rightarrow> (parser \<Rightarrow> presult) \<Rightarrow> node list \<Rightarrow> parser \<Rightarrow> calc_error + node list \<times> parser" where
  "args_loop 0 name sub args p = Inl OutOfFuel"
| "args_loop (Suc n) name sub args p =
     (if t_typ (peek p) = tRParen then Inr (args, p)
      else case sub p of
          Inl e \<Rightarrow> Inl e
        | Inr (a, p) \<Rightarrow>
            let args = args @ [a]
            in if length args > MaxCallArgs then Inl (TooManyArgs name)
               else if t_typ (peek p) \<noteq> tComma then Inr (args, p)
               else args_loop n name sub args (advance p))"

lemma ops_loop_cong [fundef_cong]:
  "n = n' \<Longrightarrow> isOp = isOp' \<Longrightarrow> l = l' \<Longrightarrow> p = p' \<Longrightarrow> (\<And>q. sub q = sub' q) \<Longrightarrow>
   ops_loop n isOp sub l p = ops_loop n' isOp' sub' l' p'"
  by presburger

lemma args_loop_cong [fundef_cong]:
  "n = n' \<Longrightarrow> name = name' \<Longrightarrow> args = args' \<Longrightarrow> p = p' \<Longrightarrow> (\<And>q. sub q = sub' q) \<Longrightarrow>
   args_loop n name sub args p = args_loop n' name' sub' args' p'"
  by presburger

function parseOr :: "nat \<Rightarrow> parser \<Rightarrow> presult"
  and parseAnd :: "nat \<Rightarrow> parser \<Rightarrow> presult"
  and parseNot :: "nat \<Rightarrow> parser \<Rightarrow> presult"
  and parseCompare :: "nat \<Rightarrow> parser \<Rightarrow> presult"
  and parseSum :: "nat \<Rightarrow> parser \<Rightarrow> presult"
  and parseProduct :: "nat \<Rightarrow> parser \<Rightarrow> presult"
  and parseUnary :: "nat \<Rightarrow> parser \<Rightarrow> presult"
  and parsePrimary :: "nat \<Rightarrow> parser \<Rightarrow> presult"
  and parseCall :: "string \<Rightarrow> nat \<Rightarrow> parser \<Rightarrow> presult" where
  "parseOr depth p =
     (if depth > MaxDepth then Inl TooDeep
      else case parseAnd depth p of
          Inl e \<Rightarrow> Inl e
        | Inr (l, p) \<Rightarrow> ops_loop (fuel_for p) (is_word ''or'') (\<lambda>q. parseAnd depth q) l p)"
| "parseAnd depth p =
     (case parseNot depth p of
        Inl e \<Rightarrow> Inl e
      | Inr (l, p) \<Rightarrow> ops_loop (fuel_for p) (is_word ''and'') (\<lambda>q. parseNot depth q) l p)"
| "parseNot depth p =
     (case accept tWord ''not'' p of (ok, p) \<Rightarrow>
        if \<not> ok then parseCompare depth p
        else if depth + 1 > MaxDepth then Inl TooDeep
        else case parseNot (depth + 1) p of
            Inl e \<Rightarrow> Inl e
          | Inr (x, p) \<Rightarrow> mk (KUnary ''not'' x) p)"
| "parseCompare depth p =
     (case parseSum depth p of
        Inl e \<Rightarrow> Inl e
      | Inr (l, p) \<Rightarrow>
          if is_op compareOps (peek p) then
            (case parseSum depth (advance p) of
               Inl e \<Rightarrow> Inl e
             | Inr (r, p') \<Rightarrow> mk_binary (t_text (peek p)) l r p')
          else Inr (l, p))"
| "parseSum depth p =
     (case parseProduct depth p of
        Inl e \<Rightarrow> Inl e
      | Inr (l, p) \<Rightarrow> ops_loop (fuel_for p) (is_op [''+'', ''-'']) (\<lambda>q. parseProduct depth q) l p)"
| "parseProduct depth p =
     (case parseUnary depth p of
        Inl e \<Rightarrow> Inl e
      | Inr (l, p) \<Rightarrow> ops_loop (fuel_for p) (is_op [''*'', ''/'', ''%'']) (\<lambda>q. parseUnary depth q) l p)"
| "parseUnary depth p =
     (if \<not> is_op [''-'', ''+''] (peek p) then parsePrimary depth p
      else if depth + 1 > MaxDepth then Inl TooDeep
      else case parseUnary (depth + 1) (advance p) of
          Inl e \<Rightarrow> Inl e
        | Inr (x, p') \<Rightarrow> if t_text (peek p) = ''+'' then Inr (x, p') else mk (KUnary ''-'' x) p')"
| "parsePrimary depth p =
     (case next_token p of (t, p) \<Rightarrow>
        (case t_typ t of
           tNumber \<Rightarrow> mk (KNumber (the (t_num t))) p
         | tString \<Rightarrow> mk (KString (t_text t)) p
         | tQuoted \<Rightarrow> mk (KIdent (t_text t)) p
         | tWord \<Rightarrow>
             if t_typ (peek p) = tLParen then parseCall (t_text t) depth p
             else if reserved (t_text t) then Inl (ReservedWord (t_text t))
             else mk (KIdent (t_text t)) p
         | tLParen \<Rightarrow>
             (case parseOr (depth + 1) p of
                Inl e \<Rightarrow> Inl e
              | Inr (x, p) \<Rightarrow>
                  (case next_token p of (t, p) \<Rightarrow> if t_typ t \<noteq> tRParen then Inl MissingParen else Inr (x, p)))
         | _ \<Rightarrow> Inl (UnexpectedToken t)))"
| "parseCall name depth p =
     (let fn = ToLower name
      in case map_of function_sigs fn of
           None \<Rightarrow> Inl (UnknownFunction name)
         | Some (mn, mx) \<Rightarrow>
             (case next_token p of (_, p) \<Rightarrow>
                (case args_loop (fuel_for p) name (\<lambda>q. parseOr (depth + 1) q) [] p of
                   Inl e \<Rightarrow> Inl e
                 | Inr (args, p) \<Rightarrow>
                     (case next_token p of (t, p) \<Rightarrow>
                        if t_typ t \<noteq> tRParen then Inl (MissingParenIn name)
                        else if length args < mn \<or> length args > mx then Inl (WrongArgCount name (length args))
                        else mk (KCall fn args) p))))"
  by pat_completeness auto

text \<open>Each rule calls the next one at the same depth, and the first again at the next depth.\<close>

termination
  by (relation "measure (\<lambda>x. case x of
        Inl (Inl (Inl (d, _))) \<Rightarrow> if d > MaxDepth then 0 else 16 * (MaxDepth + 1 - d) + 10
      | Inl (Inl (Inr (d, _))) \<Rightarrow> 16 * (MaxDepth + 1 - d) + 9
      | Inl (Inr (Inl (d, _))) \<Rightarrow> 16 * (MaxDepth + 1 - d) + 8
      | Inl (Inr (Inr (d, _))) \<Rightarrow> 16 * (MaxDepth + 1 - d) + 7
      | Inr (Inl (Inl (d, _))) \<Rightarrow> 16 * (MaxDepth + 1 - d) + 6
      | Inr (Inl (Inr (d, _))) \<Rightarrow> 16 * (MaxDepth + 1 - d) + 5
      | Inr (Inr (Inl (d, _))) \<Rightarrow> 16 * (MaxDepth + 1 - d) + 4
      | Inr (Inr (Inr (Inl (d, _)))) \<Rightarrow> 16 * (MaxDepth + 1 - d) + 3
      | Inr (Inr (Inr (Inr (_, d, _)))) \<Rightarrow> 16 * (MaxDepth + 1 - d) + 2)") auto

declare parseOr.simps [simp del] parseAnd.simps [simp del] parseNot.simps [simp del] parseCompare.simps [simp del]
  parseSum.simps [simp del] parseProduct.simps [simp del] parseUnary.simps [simp del] parsePrimary.simps [simp del]
  parseCall.simps [simp del]

text \<open>
  \<^verbatim>\<open>strings.TrimSpace(src) == ""\<close>: the text is a sequence of white space characters, in UTF-8.
\<close>

definition space_runes :: "string list" where
  "space_runes = [[CHR 0x09], [CHR 0x0A], [CHR 0x0B], [CHR 0x0C], [CHR 0x0D], [CHR 0x20],
     [CHR 0xC2, CHR 0x85], [CHR 0xC2, CHR 0xA0], [CHR 0xE1, CHR 0x9A, CHR 0x80],
     [CHR 0xE2, CHR 0x80, CHR 0x80], [CHR 0xE2, CHR 0x80, CHR 0x81], [CHR 0xE2, CHR 0x80, CHR 0x82],
     [CHR 0xE2, CHR 0x80, CHR 0x83], [CHR 0xE2, CHR 0x80, CHR 0x84], [CHR 0xE2, CHR 0x80, CHR 0x85],
     [CHR 0xE2, CHR 0x80, CHR 0x86], [CHR 0xE2, CHR 0x80, CHR 0x87], [CHR 0xE2, CHR 0x80, CHR 0x88],
     [CHR 0xE2, CHR 0x80, CHR 0x89], [CHR 0xE2, CHR 0x80, CHR 0x8A], [CHR 0xE2, CHR 0x80, CHR 0xA8],
     [CHR 0xE2, CHR 0x80, CHR 0xA9], [CHR 0xE2, CHR 0x80, CHR 0xAF], [CHR 0xE2, CHR 0x81, CHR 0x9F],
     [CHR 0xE3, CHR 0x80, CHR 0x80]]"

fun only_space :: "nat \<Rightarrow> string \<Rightarrow> bool" where
  "only_space n [] = True"
| "only_space 0 (c # s) = False"
| "only_space (Suc n) (c # s) =
     list_ex (\<lambda>w. take (length w) (c # s) = w \<and> only_space n (drop (length w) (c # s))) space_runes"

definition Parse :: "string \<Rightarrow> calc_error + node" where
  "Parse src =
     (if only_space (length src) src then Inl EmptyExpr
      else if length src > MaxLength then Inl TooLong
      else case lex src of
          Inl e \<Rightarrow> Inl e
        | Inr toks \<Rightarrow>
            (case parseOr 1 \<lparr>ps_toks = toks, ps_pos = 0, ps_nodes = 0\<rparr> of
               Inl e \<Rightarrow> Inl e
             | Inr (e, p) \<Rightarrow> if t_typ (peek p) \<noteq> tEOF then Inl (UnexpectedToken (peek p)) else Inr e))"

section \<open>Well-formed expressions\<close>

text \<open>
  What the compiler relies on: operators of the fixed tables, calls of the known functions with as
  many arguments as they take, identifiers that passed the lexer.
\<close>

definition binary_ops :: "string list" where
  "binary_ops = [''or'', ''and'', ''='', ''=='', ''!='', ''<>'', ''<'', ''<='', ''>'', ''>='', ''+'', ''-'', ''*'', ''/'', ''%'']"

fun node_ok :: "node \<Rightarrow> bool" where
  "node_ok (KNumber v) = True"
| "node_ok (KString s) = (NUL \<notin> set s)"
| "node_ok (KIdent s) = ident_ok s"
| "node_ok (KUnary op x) = (op \<in> set [''not'', ''-''] \<and> node_ok x)"
| "node_ok (KBinary op l r) = (op \<in> set binary_ops \<and> node_ok l \<and> node_ok r)"
| "node_ok (KCall f xs) = ((case map_of function_sigs f of None \<Rightarrow> False | Some (mn, mx) \<Rightarrow> mn \<le> length xs \<and> length xs \<le> mx)
     \<and> list_all node_ok xs)"

fun node_count :: "node \<Rightarrow> nat" where
  "node_count (KUnary op x) = Suc (node_count x)"
| "node_count (KBinary op l r) = Suc (node_count l + node_count r)"
| "node_count (KCall f xs) = Suc (sum_list (map node_count xs))"
| "node_count n = 1"

section \<open>The parser stays inside its tokens\<close>

definition parser_ok :: "parser \<Rightarrow> bool" where
  "parser_ok p \<longleftrightarrow> (\<exists>us. ps_toks p = us @ [eof_token] \<and> list_all token_ok us \<and> ps_pos p \<le> length us)
     \<and> ps_nodes p \<le> MaxNodes"

text \<open>A step from one parser state to a later one over the same tokens.\<close>

definition later :: "parser \<Rightarrow> parser \<Rightarrow> bool" where
  "later p q \<longleftrightarrow> parser_ok q \<and> ps_toks q = ps_toks p \<and> ps_pos p < ps_pos q"

definition parsed :: "parser \<Rightarrow> presult \<Rightarrow> bool" where
  "parsed p r \<longleftrightarrow> (case r of Inl e \<Rightarrow> e \<noteq> OutOfFuel
     | Inr (n, q) \<Rightarrow> later p q \<and> node_ok n \<and> ps_nodes q = ps_nodes p + node_count n)"

lemma peek_ok: "parser_ok p \<Longrightarrow> t_typ (peek p) \<noteq> tEOF \<Longrightarrow> token_ok (peek p)"
  by (auto simp: parser_ok_def peek_def nth_append eof_token_def plain_token_def list_all_length split: if_splits)

lemma advance_ok:
  assumes "parser_ok p" and "t_typ (peek p) \<noteq> tEOF"
  shows "later p (advance p)" and "ps_nodes (advance p) = ps_nodes p"
proof -
  obtain us where us: "ps_toks p = us @ [eof_token]" "list_all token_ok us" "ps_pos p \<le> length us" "ps_nodes p \<le> MaxNodes"
    using assms(1) by (auto simp: parser_ok_def)
  have "ps_pos p \<noteq> length us" using assms(2) us(1) by (auto simp: peek_def eof_token_def plain_token_def)
  then show "later p (advance p)" using us by (auto simp: later_def parser_ok_def advance_def)
  show "ps_nodes (advance p) = ps_nodes p" by (simp add: advance_def)
qed

lemma laterD: "later p q \<Longrightarrow> parser_ok q" "later p q \<Longrightarrow> ps_pos p < ps_pos q" "later p q \<Longrightarrow> ps_toks q = ps_toks p"
  by (simp_all add: later_def)

lemma later_trans: "later p q \<Longrightarrow> later q r \<Longrightarrow> later p r"
  by (auto simp: later_def)

lemma parsed_Inr [simp]:
  "parsed p (Inr (n, q)) \<longleftrightarrow> later p q \<and> node_ok n \<and> ps_nodes q = ps_nodes p + node_count n"
  by (simp add: parsed_def)

lemma parsed_Inl [simp]: "parsed p (Inl e) \<longleftrightarrow> e \<noteq> OutOfFuel"
  by (simp add: parsed_def)

lemma parsedE:
  assumes "parsed p r"
  obtains e where "r = Inl e" "e \<noteq> OutOfFuel"
    | n q where "r = Inr (n, q)" "later p q" "node_ok n" "ps_nodes q = ps_nodes p + node_count n"
  using assms by (cases r) (auto simp: parsed_def)

lemma mk_parsed:
  "later p q \<Longrightarrow> node_ok n \<Longrightarrow> Suc (ps_nodes q) = ps_nodes p + node_count n \<Longrightarrow> parsed p (mk n q)"
  by (auto simp: mk_def Let_def later_def parser_ok_def)

lemma mk_binary_parsed:
  assumes "later p q" "node_ok l" "node_ok r" "op \<in> set binary_ops"
    and "ps_nodes q = ps_nodes p + node_count l + node_count r"
  shows "parsed p (mk_binary op l r q)"
  unfolding mk_binary_def using assms by (intro mk_parsed) simp_all

lemma ops_loop_parsed:
  assumes sub: "\<And>q. parser_ok q \<Longrightarrow> parsed q (sub q)"
    and isOp: "\<And>t. isOp t \<Longrightarrow> t_typ t \<noteq> tEOF \<and> t_text t \<in> set binary_ops"
  shows "later p0 p \<Longrightarrow> node_ok l \<Longrightarrow> ps_nodes p = ps_nodes p0 + node_count l \<Longrightarrow> length (ps_toks p) - ps_pos p < n \<Longrightarrow>
    parsed p0 (ops_loop n isOp sub l p)"
proof (induction n arbitrary: l p)
  case (Suc n)
  show ?case
  proof (cases "isOp (peek p)")
    case True
    note op = isOp [OF True]
    note adv = advance_ok [OF laterD(1) [OF Suc.prems(1)] conjunct1 [OF op]]
    have len: "ps_pos p < length (ps_toks p)" using laterD(1) [OF Suc.prems(1)] by (auto simp: parser_ok_def)
    from sub [OF laterD(1) [OF adv(1)]] show ?thesis
    proof (cases rule: parsedE)
      case (2 r q)
      have pq: "later p q" using adv(1) 2(2) by (rule later_trans)
      have "parsed p0 (mk_binary (t_text (peek p)) l r q)"
        using later_trans [OF Suc.prems(1) pq] Suc.prems(2,3) 2 adv(2) op by (intro mk_binary_parsed) simp_all
      then show ?thesis
      proof (cases rule: parsedE)
        case (2 l' q')
        have "q' = q\<lparr>ps_nodes := ps_nodes q + 1\<rparr>" using 2(1) by (auto simp: mk_binary_def mk_def Let_def split: if_splits)
        then have "length (ps_toks q') - ps_pos q' < n"
          using laterD(2,3) [OF pq] Suc.prems(4) len by simp
        then have "parsed p0 (ops_loop n isOp sub l' q')" using Suc.IH 2 by blast
        then show ?thesis using True 2(1) \<open>sub (advance p) = Inr (r, q)\<close> by simp
      qed (use True 2 in simp)
    qed (use True in simp)
  next
    case False
    then show ?thesis using Suc.prems by simp
  qed
qed simp

definition args_parsed :: "node list \<Rightarrow> parser \<Rightarrow> calc_error + node list \<times> parser \<Rightarrow> bool" where
  "args_parsed args p r \<longleftrightarrow> (case r of Inl e \<Rightarrow> e \<noteq> OutOfFuel
     | Inr (args', q) \<Rightarrow> parser_ok q \<and> ps_toks q = ps_toks p \<and> ps_pos p \<le> ps_pos q \<and> list_all node_ok args'
         \<and> length args' \<le> MaxCallArgs
         \<and> ps_nodes q + sum_list (map node_count args) = ps_nodes p + sum_list (map node_count args'))"

lemma args_loop_parsed:
  assumes sub: "\<And>q. parser_ok q \<Longrightarrow> parsed q (sub q)"
  shows "parser_ok p \<Longrightarrow> list_all node_ok args \<Longrightarrow> length args \<le> MaxCallArgs \<Longrightarrow> length (ps_toks p) - ps_pos p < n \<Longrightarrow>
    args_parsed args p (args_loop n name sub args p)"
proof (induction n arbitrary: args p)
  case (Suc n)
  show ?case
  proof (cases "t_typ (peek p) = tRParen")
    case True
    then show ?thesis using Suc.prems by (simp add: args_parsed_def)
  next
    case False
    have len: "ps_pos p < length (ps_toks p)" using Suc.prems(1) by (auto simp: parser_ok_def)
    from sub [OF Suc.prems(1)] show ?thesis
    proof (cases rule: parsedE)
      case (2 a q)
      note q = laterD [OF 2(2)]
      show ?thesis
      proof (cases "length (args @ [a]) > MaxCallArgs \<or> t_typ (peek q) \<noteq> tComma")
        case True
        then show ?thesis using False 2 q Suc.prems by (auto simp: args_parsed_def Let_def)
      next
        case comma: False
        then have adv: "later q (advance q)" "ps_nodes (advance q) = ps_nodes q" using advance_ok [OF q(1)] by auto
        note aq = laterD [OF adv(1)]
        have "args_parsed (args @ [a]) (advance q) (args_loop n name sub (args @ [a]) (advance q))"
          using comma aq q len Suc.prems 2(3) by (intro Suc.IH) auto
        then show ?thesis
          using False comma 2 adv(2) aq(2,3) q(2,3) by (auto simp: args_parsed_def Let_def split: sum.splits)
      qed
    qed (use False in \<open>simp add: args_parsed_def\<close>)
  qed
qed simp

lemma fuel_for_enough: "length (ps_toks p) - ps_pos p < fuel_for p"
  by (simp add: fuel_for_def)

lemma ops_level_parsed:
  assumes "parsed p r" and sub: "\<And>b l q' q. r = Inr b \<Longrightarrow> (l, q') = b \<Longrightarrow> parser_ok q \<Longrightarrow> parsed q (sub q)"
    and isOp: "\<And>t. isOp t \<Longrightarrow> t_typ t \<noteq> tEOF \<and> t_text t \<in> set binary_ops"
  shows "parsed p (case r of Inl e \<Rightarrow> Inl e | Inr (l, p) \<Rightarrow> ops_loop (fuel_for p) isOp sub l p)"
  using assms(1)
proof (cases rule: parsedE)
  case (2 l q)
  have "parsed p (ops_loop (fuel_for q) isOp sub l q)"
    by (rule ops_loop_parsed) (use 2 sub isOp fuel_for_enough in blast)+
  then show ?thesis using 2(1) by simp
qed simp

lemma is_word_binary: "w \<in> set binary_ops \<Longrightarrow> is_word w t \<Longrightarrow> t_typ t \<noteq> tEOF \<and> t_text t \<in> set binary_ops"
  by (simp add: is_word_def)

lemma is_op_binary: "set ops \<subseteq> set binary_ops \<Longrightarrow> is_op ops t \<Longrightarrow> t_typ t \<noteq> tEOF \<and> t_text t \<in> set binary_ops"
  by (auto simp: is_op_def)

lemma binary_op_sets:
  "''or'' \<in> set binary_ops" "''and'' \<in> set binary_ops" "set compareOps \<subseteq> set binary_ops"
  "set [''+'', ''-''] \<subseteq> set binary_ops" "set [''*'', ''/'', ''%''] \<subseteq> set binary_ops"
  by (simp_all add: binary_ops_def compareOps_def)

lemma parseNot_step:
  assumes "parser_ok p"
    and "\<not> (t_typ (peek p) = tWord \<and> t_text (peek p) = ''not'') \<Longrightarrow> parsed p (parseCompare d p)"
    and rec: "d + 1 \<le> MaxDepth \<Longrightarrow> t_typ (peek p) = tWord \<Longrightarrow> t_text (peek p) = ''not'' \<Longrightarrow>
      parser_ok (advance p) \<Longrightarrow> parsed (advance p) (parseNot (d + 1) (advance p))"
  shows "parsed p (parseNot d p)"
proof (cases "t_typ (peek p) = tWord \<and> t_text (peek p) = ''not'' \<and> d + 1 \<le> MaxDepth")
  case True
  then have adv: "later p (advance p)" "ps_nodes (advance p) = ps_nodes p" using advance_ok [OF assms(1)] by auto
  have "parsed (advance p) (parseNot (d + 1) (advance p))" using rec True laterD(1) [OF adv(1)] by blast
  then show ?thesis
  proof (cases rule: parsedE)
    case (2 x q)
    have "parsed p (mk (KUnary ''not'' x) q)" using 2 adv later_trans [OF adv(1) 2(2)] by (intro mk_parsed) simp_all
    then show ?thesis using True 2(1) by (simp add: parseNot.simps [of d p] accept_def)
  qed (use True in \<open>simp add: parseNot.simps [of d p] accept_def\<close>)
qed (use assms(2) in \<open>auto simp: parseNot.simps [of d p] accept_def\<close>)

lemma parseCompare_step:
  assumes "parsed p (parseSum d p)"
    and rec: "\<And>l q. parseSum d p = Inr (l, q) \<Longrightarrow> is_op compareOps (peek q) \<Longrightarrow> parser_ok (advance q) \<Longrightarrow>
      parsed (advance q) (parseSum d (advance q))"
  shows "parsed p (parseCompare d p)"
  using assms(1)
proof (cases rule: parsedE)
  case (2 l q)
  show ?thesis
  proof (cases "is_op compareOps (peek q)")
    case True
    note op = is_op_binary [OF binary_op_sets(3) True]
    note adv = advance_ok [OF laterD(1) [OF 2(2)] conjunct1 [OF op]]
    from rec [OF 2(1) True laterD(1) [OF adv(1)]] show ?thesis
    proof (cases rule: parsedE)
      case (2 r q')
      have "later p q'" using later_trans [OF \<open>later p q\<close> later_trans [OF adv(1) 2(2)]] .
      then have "parsed p (mk_binary (t_text (peek q)) l r q')"
        using 2 adv(2) op \<open>node_ok l\<close> \<open>ps_nodes q = ps_nodes p + node_count l\<close> by (intro mk_binary_parsed) simp_all
      then show ?thesis using True 2(1) \<open>parseSum d p = Inr (l, q)\<close> by (simp add: parseCompare.simps [of d p])
    qed (use True 2(1) in \<open>simp add: parseCompare.simps [of d p]\<close>)
  qed (use 2 in \<open>simp add: parseCompare.simps [of d p]\<close>)
qed (simp add: parseCompare.simps [of d p])

lemma parseUnary_step:
  assumes "parser_ok p" and "\<not> is_op [''-'', ''+''] (peek p) \<Longrightarrow> parsed p (parsePrimary d p)"
    and rec: "is_op [''-'', ''+''] (peek p) \<Longrightarrow> d + 1 \<le> MaxDepth \<Longrightarrow> parser_ok (advance p) \<Longrightarrow>
      parsed (advance p) (parseUnary (d + 1) (advance p))"
  shows "parsed p (parseUnary d p)"
proof (cases "is_op [''-'', ''+''] (peek p) \<and> d + 1 \<le> MaxDepth")
  case True
  then have adv: "later p (advance p)" "ps_nodes (advance p) = ps_nodes p" using advance_ok [OF assms(1)] by (auto simp: is_op_def)
  have "parsed (advance p) (parseUnary (d + 1) (advance p))" using rec True laterD(1) [OF adv(1)] by blast
  then show ?thesis
  proof (cases rule: parsedE)
    case (2 x q)
    note q = later_trans [OF adv(1) 2(2)]
    have "parsed p (mk (KUnary ''-'' x) q)" using 2 adv q by (intro mk_parsed) simp_all
    then show ?thesis using True 2 q adv(2) by (simp add: parseUnary.simps [of d p])
  qed (use True in \<open>simp add: parseUnary.simps [of d p]\<close>)
qed (use assms(2) in \<open>auto simp: parseUnary.simps [of d p]\<close>)

lemma parsePrimary_step:
  assumes ok: "parser_ok p"
    and call: "t_typ (peek p) = tWord \<Longrightarrow> parser_ok (advance p) \<Longrightarrow> t_typ (peek (advance p)) = tLParen \<Longrightarrow>
      parsed (advance p) (parseCall (t_text (peek p)) d (advance p))"
    and paren: "t_typ (peek p) = tLParen \<Longrightarrow> parser_ok (advance p) \<Longrightarrow> parsed (advance p) (parseOr (d + 1) (advance p))"
  shows "parsed p (parsePrimary d p)"
proof (cases "t_typ (peek p) = tEOF")
  case True
  then show ?thesis by (simp add: parsePrimary.simps [of d p] next_token_def)
next
  case False
  note adv = advance_ok [OF ok False] and tok = peek_ok [OF ok False]
  have eq: "next_token p = (peek p, advance p)" using False by (simp add: next_token_def)
  have leaf: "parsed p (mk n (advance p))" if "node_ok n" "node_count n = 1" for n
    using that adv by (intro mk_parsed) simp_all
  have shift: "parsed p r" if "parsed (advance p) r" for r
    using that adv later_trans [OF adv(1)] by (cases rule: parsedE) auto
  have par: "parsed p (case parseOr (d + 1) (advance p) of Inl e \<Rightarrow> Inl e
      | Inr (x, p) \<Rightarrow> (case next_token p of (t, p) \<Rightarrow> if t_typ t \<noteq> tRParen then Inl MissingParen else Inr (x, p)))"
    if "t_typ (peek p) = tLParen"
    using paren [OF that laterD(1) [OF adv(1)]]
  proof (cases rule: parsedE)
    case (2 x q)
    have "t_typ (peek q) = tRParen \<Longrightarrow> later p (advance q) \<and> ps_nodes (advance q) = ps_nodes q"
      using advance_ok [OF laterD(1) [OF 2(2)]] later_trans [OF adv(1) 2(2)] later_trans by auto
    then show ?thesis using 2 adv(2) by (auto simp: next_token_def)
  qed simp
  show ?thesis
    using tok leaf shift [OF call] par laterD(1) [OF adv(1)]
    by (auto simp: parsePrimary.simps [of d p] eq token_ok_def split: tokType.splits)
qed

lemma parseCall_step:
  assumes ok: "parser_ok p" and lp: "t_typ (peek p) = tLParen"
    and rec: "\<And>q. parser_ok q \<Longrightarrow> parsed q (parseOr (d + 1) q)"
  shows "parsed p (parseCall name d p)"
proof (cases "map_of function_sigs (ToLower name)")
  case None
  then show ?thesis by (simp add: parseCall.simps [of name d p] Let_def)
next
  case (Some sig)
  obtain mn mx where sig: "sig = (mn, mx)" by fastforce
  have adv: "later p (advance p)" "ps_nodes (advance p) = ps_nodes p" using advance_ok [OF ok] lp by auto
  have eq: "next_token p = (peek p, advance p)" using lp by (simp add: next_token_def)
  let ?r = "args_loop (fuel_for (advance p)) name (\<lambda>q. parseOr (d + 1) q) [] (advance p)"
  have args: "args_parsed [] (advance p) ?r"
    by (rule args_loop_parsed [OF rec]) (use laterD(1) [OF adv(1)] fuel_for_enough in auto)
  show ?thesis
  proof (cases ?r)
    case (Inl e)
    then show ?thesis using args Some sig eq by (simp add: parseCall.simps [of name d p] Let_def args_parsed_def)
  next
    case (Inr aq)
    obtain as q where aq: "aq = (as, q)" by fastforce
    have q: "parser_ok q" "ps_toks q = ps_toks p" "ps_pos p < ps_pos q" "list_all node_ok as"
      "ps_nodes q = ps_nodes p + sum_list (map node_count as)"
      using args Inr aq adv laterD [OF adv(1)] by (auto simp: args_parsed_def)
    have "parsed p (mk (KCall (ToLower name) as) (advance q))"
      if "t_typ (peek q) = tRParen" "mn \<le> length as" "length as \<le> mx"
      using advance_ok [OF q(1)] that q Some sig
      by (intro mk_parsed) (auto simp: later_def)
    then show ?thesis
      using Inr aq Some sig eq by (auto simp: parseCall.simps [of name d p] Let_def next_token_def)
  qed
qed

lemma parser_parsed:
  "parser_ok p \<Longrightarrow> parsed p (parseOr d p)"
  "parser_ok p \<Longrightarrow> parsed p (parseAnd d p)"
  "parser_ok p \<Longrightarrow> parsed p (parseNot d p)"
  "parser_ok p \<Longrightarrow> parsed p (parseCompare d p)"
  "parser_ok p \<Longrightarrow> parsed p (parseSum d p)"
  "parser_ok p \<Longrightarrow> parsed p (parseProduct d p)"
  "parser_ok p \<Longrightarrow> parsed p (parseUnary d p)"
  "parser_ok p \<Longrightarrow> parsed p (parsePrimary d p)"
  "parser_ok p \<Longrightarrow> t_typ (peek p) = tLParen \<Longrightarrow> parsed p (parseCall name d p)"
proof (induction d p and d p and d p and d p and d p and d p and d p and d p and name d p
    rule: parseOr_parseAnd_parseNot_parseCompare_parseSum_parseProduct_parseUnary_parsePrimary_parseCall.induct)
  case (1 depth p)
  show ?case
  proof (cases "depth > MaxDepth")
    case False
    have "parsed p (case parseAnd depth p of Inl e \<Rightarrow> Inl e
        | Inr (l, p) \<Rightarrow> ops_loop (fuel_for p) (is_word ''or'') (\<lambda>q. parseAnd depth q) l p)"
      by (rule ops_level_parsed [OF "1.IH"(1) [OF False "1.prems"] "1.IH"(2) [OF False] is_word_binary [OF binary_op_sets(1)]])
    then show ?thesis using False by (simp add: parseOr.simps [of depth p])
  qed (simp add: parseOr.simps [of depth p])
next
  case (2 depth p)
  show ?case unfolding parseAnd.simps [of depth p]
    by (rule ops_level_parsed [OF "2.IH"(1) [OF "2.prems"] "2.IH"(2) is_word_binary [OF binary_op_sets(2)]])
next
  case (3 depth p)
  show ?case
  proof (rule parseNot_step [OF "3.prems"])
    assume "\<not> (t_typ (peek p) = tWord \<and> t_text (peek p) = ''not'')"
    then have "(False, p) = accept tWord ''not'' p" by (auto simp: accept_def)
    from "3.IH"(1) [OF this] show "parsed p (parseCompare depth p)" using "3.prems" by simp
  next
    assume a: "depth + 1 \<le> MaxDepth" "t_typ (peek p) = tWord" "t_text (peek p) = ''not''" "parser_ok (advance p)"
    then have "(True, advance p) = accept tWord ''not'' p" by (simp add: accept_def)
    from "3.IH"(2) [OF this] show "parsed (advance p) (parseNot (depth + 1) (advance p))" using a by simp
  qed
next
  case (4 depth p)
  show ?case
    by (rule parseCompare_step [OF "4.IH"(1) [OF "4.prems"]]) (use "4.IH"(2) in auto)
next
  case (5 depth p)
  show ?case unfolding parseSum.simps [of depth p]
    by (rule ops_level_parsed [OF "5.IH"(1) [OF "5.prems"] "5.IH"(2) is_op_binary [OF binary_op_sets(4)]])
next
  case (6 depth p)
  show ?case unfolding parseProduct.simps [of depth p]
    by (rule ops_level_parsed [OF "6.IH"(1) [OF "6.prems"] "6.IH"(2) is_op_binary [OF binary_op_sets(5)]])
next
  case (7 depth p)
  show ?case
    by (rule parseUnary_step) (use 7 in auto)
next
  case (8 depth p)
  show ?case
    by (rule parsePrimary_step) (use 8 in \<open>auto simp: next_token_def\<close>)
next
  case (9 name depth p)
  show ?case
  proof (cases "map_of function_sigs (ToLower name)")
    case None
    then show ?thesis by (simp add: parseCall.simps [of name depth p] Let_def)
  next
    case (Some sig)
    obtain mn mx where sig: "(mn, mx) = sig" by (cases sig) auto
    obtain t y where nt: "(t, y) = next_token p" by (cases "next_token p") auto
    show ?thesis by (rule parseCall_step [OF "9.prems"]) (rule "9.IH" [OF refl Some sig nt])
  qed
qed

section \<open>Properties\<close>

text \<open>
  The lexer never reports \<open>OutOfFuel\<close> either, and the identifiers of a well-formed expression are
  well formed.
\<close>

lemma lexString_loop_error: "lexString_loop b i s = Inl e \<Longrightarrow> e \<noteq> OutOfFuel"
  by (induction b i s rule: lexString_loop.induct) (auto split: if_splits list.splits)

lemma lexOne_error:
  assumes "lexOne s = Inl e"
  shows "e \<noteq> OutOfFuel"
proof -
  have "lexWord s = Inl e \<Longrightarrow> e \<noteq> OutOfFuel" by (auto simp: lexWord_def Let_def split: if_splits)
  moreover have "lexQuoted s = Inl e \<Longrightarrow> e \<noteq> OutOfFuel" by (auto simp: lexQuoted_def Let_def split: if_splits option.splits)
  moreover have "lexSymbol s = Inl e \<Longrightarrow> e \<noteq> OutOfFuel" by (auto simp: lexSymbol_def Let_def split: if_splits)
  moreover have "lexNumber s = Inl e \<Longrightarrow> e \<noteq> OutOfFuel" by (auto simp: lexNumber_def Let_def split: if_splits option.splits)
  moreover have "lexString s = Inl e \<Longrightarrow> e \<noteq> OutOfFuel" using lexString_loop_error by (simp add: lexString_def)
  ultimately show ?thesis using lexOne_cases [of s] assms by (elim disjE conjE) simp_all
qed

lemma lex_loop_error: "lex_loop s toks = Inl e \<Longrightarrow> e \<noteq> OutOfFuel"
  by (induction s toks rule: lex_loop.induct) (auto dest: lexOne_error split: if_splits sum.splits)

lemma walk_ok:
  "node_ok n \<Longrightarrow> list_all ident_ok out \<Longrightarrow> list_all ident_ok (walk n out)"
  "list_all node_ok xs \<Longrightarrow> list_all ident_ok out \<Longrightarrow> list_all ident_ok (walk_list xs out)"
  by (induction n out and xs out rule: walk_walk_list.induct) auto

lemma lex_parser_ok:
  "lex src = Inr toks \<Longrightarrow> parser_ok \<lparr>ps_toks = toks, ps_pos = 0, ps_nodes = 0\<rparr>"
  using lex_tokens [of src toks] by (auto simp: parser_ok_def)

lemma Parse_cases:
  assumes "Parse src = r" and "\<not> only_space (length src) src" "length src \<le> MaxLength" "lex src = Inr toks"
  obtains e where "r = Inl e" "e \<noteq> OutOfFuel" | e where "r = Inr e" "node_ok e" "node_count e \<le> MaxNodes"
proof -
  let ?p = "\<lparr>ps_toks = toks, ps_pos = 0, ps_nodes = 0\<rparr>"
  have eq: "Parse src = (case parseOr 1 ?p of Inl e \<Rightarrow> Inl e
      | Inr (e, p) \<Rightarrow> if t_typ (peek p) \<noteq> tEOF then Inl (UnexpectedToken (peek p)) else Inr e)"
    using assms by (simp add: Parse_def)
  from parser_parsed(1) [OF lex_parser_ok [OF assms(4)], of 1] show ?thesis
  proof (cases rule: parsedE)
    case (1 e)
    then show ?thesis using eq assms(1) that(1) by simp
  next
    case (2 e q)
    then have "node_count e \<le> MaxNodes" by (simp add: later_def parser_ok_def)
    then show ?thesis using 2 eq assms(1) that by (cases "t_typ (peek q) = tEOF") simp_all
  qed
qed

lemma Parse_parsed:
  assumes "Parse src = Inr e"
  shows "node_ok e \<and> node_count e \<le> MaxNodes \<and> length src \<le> MaxLength"
proof -
  have c: "\<not> only_space (length src) src" "length src \<le> MaxLength" using assms by (auto simp: Parse_def split: if_splits)
  then obtain toks where "lex src = Inr toks" using assms by (cases "lex src") (auto simp: Parse_def)
  from assms c this show ?thesis by (cases rule: Parse_cases) (use c in auto)
qed

text \<open>
  C28: parsing always returns. Whatever the bytes of the source, the operator and argument loops
  end within the tokens left and the recursion ends at the depth cap, so the parser gives an
  expression or one of its own errors.
\<close>

theorem Parse_total: "Parse src \<noteq> Inl OutOfFuel"
proof
  assume p: "Parse src = Inl OutOfFuel"
  then have c: "\<not> only_space (length src) src" "length src \<le> MaxLength" by (auto simp: Parse_def split: if_splits)
  have "lex src \<noteq> Inl OutOfFuel" using lex_loop_error by (auto simp: lex_def)
  then obtain toks where "lex src = Inr toks" using p c by (cases "lex src") (auto simp: Parse_def)
  from p c this show False by (cases rule: Parse_cases) auto
qed

text \<open>
  C29: the caps and the grammar hold for every accepted source: at most 500 bytes, at most 200
  terms, only the operators and functions of the tables with as many arguments as they take, and
  no identifier that is empty, longer than 200 bytes or holds a double quote, a backslash or a NUL.
\<close>

theorem Parse_within_caps:
  assumes "Parse src = Inr e"
  shows "length src \<le> MaxLength \<and> node_count e \<le> MaxNodes \<and> node_ok e \<and> list_all ident_ok (Idents e)"
  using Parse_parsed [OF assms] walk_ok(1) [of e "[]"] by (simp add: Idents_def)

theorem Parse_within_caps_witness:
  "node_count (KBinary ''+'' (KIdent ''a.b'') (KBinary ''*'' (KNumber (Int64 2)) (KIdent ''c''))) \<le> MaxNodes
   \<and> list_all ident_ok (Idents (KBinary ''+'' (KIdent ''a.b'') (KBinary ''*'' (KNumber (Int64 2)) (KIdent ''c''))))"
proof -
  have "Parse ''a.b + 2*c'' = Inr (KBinary ''+'' (KIdent ''a.b'') (KBinary ''*'' (KNumber (Int64 2)) (KIdent ''c'')))"
    by code_simp
  from Parse_within_caps [OF this] show ?thesis by blast
qed

end
