(* ===== verification/CalcCompile.thy ===== *)
theory CalcCompile
  imports CalcParse
begin

text \<open>
  The compiler of calculated fields to SQL, \<^verbatim>\<open>internal/calcfield/compile.go\<close>, and the set of fields of
  a project that may use each other, \<^verbatim>\<open>set.go\<close>. The budget of terms is shared by all compilers of
  one lookup, so it is threaded through the calls: a resolver takes what is left and returns what
  remains. The resolver of columns and attributes is a parameter. Argument slices are lists: \<^verbatim>\<open>append\<close> onto
  the arguments of a subexpression is concatenation, which is right because every compiled node owns its
  slice, a literal's being made for it, a calculated field's by compiling the field again, and a
  resolver being taken to return a slice it does not hand out twice.
\<close>

type_synonym resolver = "string \<Rightarrow> calc_error + string \<times> sqlarg list"
type_synonym compiled = "calc_error + string \<times> sqlarg list \<times> int"
type_synonym budget_resolver = "string \<Rightarrow> int \<Rightarrow> compiled"

definition spend :: "int \<Rightarrow> int \<Rightarrow> calc_error + int" where
  "spend n budget = (let budget = budget - n in if budget < 0 then Inl ExpansionTooBig else Inr budget)"

definition binarySQL :: "(string \<times> string) list" where
  "binarySQL = [(''+'', ''+''), (''-'', ''-''), (''*'', ''*''), (''%'', ''%''),
     (''='', ''=''), (''=='', ''=''), (''!='', ''<>''), (''<>'', ''<>''), (''<'', ''<''), (''<='', ''<=''),
     (''>'', ''>''), (''>='', ''>=''), (''and'', ''AND''), (''or'', ''OR'')]"

text \<open>A missing key of a Go map reads as the empty string.\<close>

definition sql_op :: "string \<Rightarrow> string" where
  "sql_op op = (case map_of binarySQL op of Some s \<Rightarrow> s | None \<Rightarrow> [])"

fun Join :: "string list \<Rightarrow> string \<Rightarrow> string" where
  "Join [] sep = []"
| "Join [p] sep = p"
| "Join (p # ps) sep = p @ sep @ Join ps sep"

definition unary_sql :: "string \<Rightarrow> string \<Rightarrow> string" where
  "unary_sql op x = (if op = ''not'' then ''(NOT '' @ x @ '')'' else ''(0 - '' @ x @ '')'')"

definition binary_sql :: "string \<Rightarrow> string \<Rightarrow> string \<Rightarrow> string" where
  "binary_sql op l r =
     (if op = ''/'' then ''(CAST('' @ l @ '' AS REAL) / '' @ r @ '')''
      else ''('' @ l @ '' '' @ sql_op op @ '' '' @ r @ '')'')"

definition concatSQL :: "string list \<Rightarrow> string" where
  "concatSQL parts = ''('' @ Join (map (\<lambda>p. ''COALESCE(CAST('' @ p @ '' AS TEXT), '' @ [CHR 0x27, CHR 0x27] @ '')'') parts) '' || '' @ '')''"

definition call_sql :: "string \<Rightarrow> string list \<Rightarrow> string" where
  "call_sql f parts =
     (if f = ''coalesce'' then ''COALESCE('' @ Join parts '', '' @ '')''
      else if f = ''lower'' then ''lower('' @ parts ! 0 @ '')''
      else if f = ''if'' then ''(CASE WHEN '' @ parts ! 0 @ '' THEN '' @ parts ! 1 @ '' ELSE '' @ parts ! 2 @ '' END)''
      else concatSQL parts)"

fun compile_node :: "budget_resolver \<Rightarrow> node \<Rightarrow> int \<Rightarrow> compiled"
  and compile_args :: "budget_resolver \<Rightarrow> node list \<Rightarrow> int \<Rightarrow> calc_error + string list \<times> sqlarg list \<times> int" where
  "compile_node res n b =
     (case spend 1 b of
        Inl e \<Rightarrow> Inl e
      | Inr b \<Rightarrow>
          (case n of
             KNumber v \<Rightarrow> Inr (''?'', [v], b)
           | KString s \<Rightarrow> Inr (''?'', [Text s], b)
           | KIdent key \<Rightarrow> res key b
           | KUnary op x \<Rightarrow>
               (case compile_node res x b of
                  Inl e \<Rightarrow> Inl e
                | Inr (sql, args, b) \<Rightarrow> Inr (unary_sql op sql, args, b))
           | KBinary op l r \<Rightarrow>
               (case compile_node res l b of
                  Inl e \<Rightarrow> Inl e
                | Inr (ls, la, b) \<Rightarrow>
                    (case compile_node res r b of
                       Inl e \<Rightarrow> Inl e
                     | Inr (rs, ra, b) \<Rightarrow> Inr (binary_sql op ls rs, la @ ra, b)))
           | KCall f xs \<Rightarrow>
               (case compile_args res xs b of
                  Inl e \<Rightarrow> Inl e
                | Inr (parts, args, b) \<Rightarrow> Inr (call_sql f parts, args, b))))"
| "compile_args res [] b = Inr ([], [], b)"
| "compile_args res (x # xs) b =
     (case compile_node res x b of
        Inl e \<Rightarrow> Inl e
      | Inr (s, as, b) \<Rightarrow>
          (case compile_args res xs b of
             Inl e \<Rightarrow> Inl e
           | Inr (ss, args, b) \<Rightarrow> Inr (s # ss, as @ args, b)))"

declare compile_node.simps [simp del]

lemma compile_node_simps:
  "compile_node res (KNumber v) b = (if b < 1 then Inl ExpansionTooBig else Inr (''?'', [v], b - 1))"
  "compile_node res (KString s) b = (if b < 1 then Inl ExpansionTooBig else Inr (''?'', [Text s], b - 1))"
  "compile_node res (KIdent k) b = (if b < 1 then Inl ExpansionTooBig else res k (b - 1))"
  "compile_node res (KUnary op x) b = (if b < 1 then Inl ExpansionTooBig else
     case compile_node res x (b - 1) of Inl e \<Rightarrow> Inl e | Inr (sql, args, b) \<Rightarrow> Inr (unary_sql op sql, args, b))"
  "compile_node res (KBinary op l r) b = (if b < 1 then Inl ExpansionTooBig else
     case compile_node res l (b - 1) of Inl e \<Rightarrow> Inl e | Inr (ls, la, b) \<Rightarrow>
       (case compile_node res r b of Inl e \<Rightarrow> Inl e | Inr (rs, ra, b) \<Rightarrow> Inr (binary_sql op ls rs, la @ ra, b)))"
  "compile_node res (KCall f xs) b = (if b < 1 then Inl ExpansionTooBig else
     case compile_args res xs (b - 1) of Inl e \<Rightarrow> Inl e | Inr (parts, args, b) \<Rightarrow> Inr (call_sql f parts, args, b))"
  by (simp_all add: compile_node.simps [of res _ b] spend_def)

lemmas compile_splits = sum.split_asm prod.split_asm if_split_asm

text \<open>\<^verbatim>\<open>Expr.Compile\<close> and \<^verbatim>\<open>Compile\<close>, with a resolver that spends nothing.\<close>

definition free_resolver :: "resolver \<Rightarrow> budget_resolver" where
  "free_resolver r key b = (case r key of Inl e \<Rightarrow> Inl e | Inr (sql, args) \<Rightarrow> Inr (sql, args, b))"

definition Expr_Compile :: "node \<Rightarrow> resolver \<Rightarrow> calc_error + string \<times> sqlarg list" where
  "Expr_Compile e r =
     (case compile_node (free_resolver r) e maxExpansion of Inl x \<Rightarrow> Inl x | Inr (sql, args, _) \<Rightarrow> Inr (sql, args))"

definition Compile :: "string \<Rightarrow> resolver \<Rightarrow> calc_error + string \<times> sqlarg list" where
  "Compile src r = (case Parse src of Inl x \<Rightarrow> Inl x | Inr e \<Rightarrow> Expr_Compile e r)"

section \<open>Sets of fields\<close>

record Field =
  f_Name :: string
  f_Expression :: string

record Set =
  s_exprs :: "(string \<times> node option) list"
  s_bad :: "(string \<times> calc_error) list"
  s_operand :: resolver
  s_builtin :: "string \<Rightarrow> bool"

definition add_field :: "Field \<Rightarrow> Set \<Rightarrow> Set" where
  "add_field f s =
     (case Parse (f_Expression f) of
        Inl e \<Rightarrow> s\<lparr>s_bad := AList.update (f_Name f) (BadField (f_Name f) e) (s_bad s),
                   s_exprs := AList.update (f_Name f) None (s_exprs s)\<rparr>
      | Inr e \<Rightarrow> s\<lparr>s_exprs := AList.update (f_Name f) (Some e) (s_exprs s)\<rparr>)"

definition NewSet :: "Field list \<Rightarrow> resolver \<Rightarrow> (string \<Rightarrow> bool) \<Rightarrow> Set" where
  "NewSet fs operand builtin =
     fold add_field fs \<lparr>s_exprs = [], s_bad = [], s_operand = operand, s_builtin = builtin\<rparr>"

definition Has :: "Set \<Rightarrow> string \<Rightarrow> bool" where
  "Has s name \<longleftrightarrow> map_of (s_exprs s) name \<noteq> None \<and> \<not> s_builtin s name"

text \<open>\<open>NilExpr\<close> is the nil dereference of a field that has no expression and no parse error.\<close>

definition set_compile :: "Set \<Rightarrow> budget_resolver \<Rightarrow> string \<Rightarrow> int \<Rightarrow> compiled" where
  "set_compile s res name b =
     (case map_of (s_bad s) name of
        Some e \<Rightarrow> Inl e
      | None \<Rightarrow> (case map_of (s_exprs s) name of
                   Some (Some e) \<Rightarrow> compile_node res e b
                 | _ \<Rightarrow> Inl NilExpr))"

lemma set_compile_cong [fundef_cong]:
  "s = s' \<Longrightarrow> name = name' \<Longrightarrow> b = b' \<Longrightarrow> (\<And>k c. res k c = res' k c) \<Longrightarrow>
   set_compile s res name b = set_compile s' res' name' b'"
  by presburger

text \<open>
  The resolver of the field at the end of the stack. Every expansion puts a new field of the set
  on the stack, so the recursion ends.
\<close>

function set_resolver :: "Set \<Rightarrow> string list \<Rightarrow> string \<Rightarrow> int \<Rightarrow> compiled" where
  "set_resolver s stack key b =
     (if \<not> Has s key then free_resolver (s_operand s) key b
      else if key \<in> set stack then Inl (FieldCycle stack key)
      else set_compile s (\<lambda>k c. set_resolver s (stack @ [key]) k c) key b)"
  by auto
termination
proof (relation "measure (\<lambda>(s, stack, _). card (fst ` set (s_exprs s) - set stack))")
  fix s :: Set and stack key b k c
  assume "\<not> \<not> Has s key" "key \<notin> set stack"
  then have "key \<in> fst ` set (s_exprs s) - set stack" by (auto simp: Has_def dest: map_of_SomeD intro: rev_image_eqI)
  then have "card (fst ` set (s_exprs s) - set (stack @ [key])) < card (fst ` set (s_exprs s) - set stack)"
    by (intro psubset_card_mono) auto
  then show "((s, stack @ [key], k, c), s, stack, key, b) \<in> measure (\<lambda>(s, stack, _). card (fst ` set (s_exprs s) - set stack))"
    by simp
qed simp

declare set_resolver.simps [simp del]

text \<open>\<open>None\<close>: the set has no such field.\<close>

definition Lookup :: "Set \<Rightarrow> string \<Rightarrow> (calc_error + string \<times> sqlarg list) option" where
  "Lookup s name =
     (if \<not> Has s name then None
      else Some (case set_compile s (set_resolver s [name]) name maxExpansion of
          Inl e \<Rightarrow> Inl e | Inr (sql, args, _) \<Rightarrow> Inr (sql, args)))"

definition first_error :: "Set \<Rightarrow> string list \<Rightarrow> calc_error option" where
  "first_error s names = foldr (\<lambda>name err. case Lookup s name of Some (Inl e) \<Rightarrow> Some e | _ \<Rightarrow> err) names None"

definition Validate :: "((string \<times> node option) list \<Rightarrow> (string \<times> node option) list) \<Rightarrow> Set \<Rightarrow> calc_error option" where
  "Validate ord s = first_error s (map fst (ord (s_exprs s)))"

section \<open>Placeholders and arguments\<close>

definition placeholders :: "string \<Rightarrow> nat" where
  "placeholders sql = length (filter (\<lambda>c. c = CHR ''?'') sql)"

lemma placeholders_simps [simp]:
  "placeholders [] = 0" "placeholders (c # s) = (if c = CHR ''?'' then 1 else 0) + placeholders s"
  "placeholders (s @ t) = placeholders s + placeholders t"
  by (simp_all add: placeholders_def)

lemma placeholders_sql_op [simp]: "placeholders (sql_op op) = 0"
proof -
  have "\<forall>(k, v) \<in> set binarySQL. placeholders v = 0" by (simp add: binarySQL_def)
  then show ?thesis by (auto simp: sql_op_def dest!: map_of_SomeD split: option.splits)
qed

lemma placeholders_Join: "placeholders sep = 0 \<Longrightarrow> placeholders (Join ps sep) = sum_list (map placeholders ps)"
  by (induction ps sep rule: Join.induct) simp_all

lemma placeholders_sql:
  "placeholders (unary_sql op x) = placeholders x"
  "placeholders (binary_sql op x y) = placeholders x + placeholders y"
  by (simp_all add: unary_sql_def binary_sql_def)

lemma function_cases:
  assumes "map_of function_sigs f = Some (mn, mx)"
  shows "f = ''coalesce'' \<and> mn = 2 \<or> f = ''if'' \<and> mn = 3 \<and> mx = 3 \<or> f = ''concat'' \<and> mn = 2 \<or> f = ''lower'' \<and> mn = 1 \<and> mx = 1"
  using assms by (auto simp: function_sigs_def split: if_splits)

lemma length1: "length xs = Suc 0 \<Longrightarrow> \<exists>a. xs = [a]"
  by (auto simp: length_Suc_conv)

lemma length3: "length xs = 3 \<Longrightarrow> \<exists>a b c. xs = [a, b, c]"
  by (auto simp: numeral_3_eq_3 length_Suc_conv)

lemma placeholders_call:
  assumes "map_of function_sigs f = Some (mn, mx)" "mn \<le> length parts" "length parts \<le> mx"
  shows "placeholders (call_sql f parts) = sum_list (map placeholders parts)"
  using function_cases [OF assms(1)]
proof (elim disjE conjE)
  assume "f = ''if''" "mn = 3" "mx = 3"
  then obtain a b c where "parts = [a, b, c]" using assms(2,3) length3 [of parts] by auto
  then show ?thesis using \<open>f = ''if''\<close> by (simp add: call_sql_def)
next
  assume "f = ''lower''" "mn = 1" "mx = 1"
  then obtain a where "parts = [a]" using assms(2,3) length1 [of parts] by auto
  then show ?thesis using \<open>f = ''lower''\<close> by (simp add: call_sql_def)
qed (simp_all add: call_sql_def concatSQL_def placeholders_Join comp_def)

text \<open>What a resolver promises: one placeholder per argument.\<close>

definition balanced :: "calc_error + string \<times> sqlarg list \<times> int \<Rightarrow> bool" where
  "balanced r \<longleftrightarrow> (case r of Inl e \<Rightarrow> True | Inr (sql, args, b) \<Rightarrow> placeholders sql = length args)"

lemma compile_args_balanced:
  assumes "\<And>x c. x \<in> set xs \<Longrightarrow> balanced (compile_node res x c)" and "compile_args res xs b = Inr (ss, args, b')"
  shows "sum_list (map placeholders ss) = length args \<and> length ss = length xs"
  using assms
proof (induction xs arbitrary: b ss args b')
  case (Cons x xs)
  obtain s as c ss' args' where x: "compile_node res x b = Inr (s, as, c)" "compile_args res xs c = Inr (ss', args', b')"
    "ss = s # ss'" "args = as @ args'"
    using Cons.prems(2) by (auto split: compile_splits)
  have "balanced (compile_node res x b)" by (rule Cons.prems(1)) simp
  then show ?case using Cons.IH [OF _ x(2)] Cons.prems(1) x by (simp add: balanced_def)
qed simp

lemma compile_balanced:
  assumes "\<And>k c. balanced (res k c)"
  shows "node_ok n \<Longrightarrow> balanced (compile_node res n b)"
proof (induction n arbitrary: b)
  case (KCall f xs)
  obtain mn mx where sig: "map_of function_sigs f = Some (mn, mx)" "mn \<le> length xs" "length xs \<le> mx"
    using KCall.prems by (auto split: option.splits)
  have IH: "\<And>x c. x \<in> set xs \<Longrightarrow> balanced (compile_node res x c)" using KCall by (auto simp: list_all_iff)
  show ?case
  proof (cases "compile_args res xs (b - 1)")
    case (Inr r)
    obtain parts args b' where r: "r = (parts, args, b')" by (cases r) auto
    have "sum_list (map placeholders parts) = length args" "length parts = length xs"
      using compile_args_balanced [OF IH Inr [unfolded r]] by blast+
    then show ?thesis using placeholders_call [OF sig(1)] sig(2,3) Inr r by (simp add: balanced_def compile_node_simps)
  qed (simp add: balanced_def compile_node_simps)
qed (use assms in \<open>fastforce simp: balanced_def compile_node_simps placeholders_sql split: sum.splits prod.splits\<close>)+

text \<open>
  The SQL of a calculated field has exactly one placeholder per bound argument, as long as the
  SQL of the columns and attributes it reads has.
\<close>

theorem Compile_placeholders_match:
  assumes "\<And>key sql args. r key = Inr (sql, args) \<Longrightarrow> placeholders sql = length args"
    and "Compile src r = Inr (sql, args)"
  shows "placeholders sql = length args"
proof -
  obtain e where e: "Parse src = Inr e" "Expr_Compile e r = Inr (sql, args)"
    using assms(2) by (auto simp: Compile_def split: sum.splits)
  have "balanced (free_resolver r k c)" for k c
    using assms(1) by (auto simp: balanced_def free_resolver_def split: sum.splits)
  then have "balanced (compile_node (free_resolver r) e maxExpansion)"
    using Parse_parsed [OF e(1)] by (intro compile_balanced) simp_all
  then show ?thesis using e(2) by (auto simp: Expr_Compile_def balanced_def split: sum.splits)
qed

definition demo_resolver :: resolver where
  "demo_resolver key = Inr (''json_extract(a, ?)'', [Text (''$.'' @ key)])"

definition demo_sql :: string where
  "demo_sql = ''(CASE WHEN (json_extract(a, ?) > ?) THEN lower(json_extract(a, ?)) ELSE ? END)''"

theorem Compile_placeholders_match_witness:
  "Compile ''if(a > 1, lower(b), 'x?')'' demo_resolver = Inr (demo_sql, [Text ''$.a'', Int64 1, Text ''$.b'', Text ''x?''])
   \<and> placeholders demo_sql = 4"
proof -
  have c: "Compile ''if(a > 1, lower(b), 'x?')'' demo_resolver =
      Inr (demo_sql, [Text ''$.a'', Int64 1, Text ''$.b'', Text ''x?''])" by code_simp
  have "placeholders demo_sql = length [Text ''$.a'', Int64 1, Text ''$.b'', Text ''x?'']"
    by (rule Compile_placeholders_match [OF _ c]) (auto simp: demo_resolver_def)
  with c show ?thesis by simp
qed

section \<open>Literals never reach the SQL\<close>

text \<open>Two expressions of one shape differ only in the numbers and strings they hold.\<close>

fun shape :: "node \<Rightarrow> node" where
  "shape (KNumber v) = KNumber (Int64 0)"
| "shape (KString s) = KNumber (Int64 0)"
| "shape (KIdent k) = KIdent k"
| "shape (KUnary op x) = KUnary op (shape x)"
| "shape (KBinary op l r) = KBinary op (shape l) (shape r)"
| "shape (KCall f xs) = KCall f (map shape xs)"

definition sql_of :: "calc_error + string \<times> sqlarg list \<times> int \<Rightarrow> calc_error + string \<times> nat \<times> int" where
  "sql_of r = (case r of Inl e \<Rightarrow> Inl e | Inr (sql, args, b) \<Rightarrow> Inr (sql, length args, b))"

lemma sql_of_simps [simp]: "sql_of (Inl e) = Inl e" "sql_of (Inr (sql, args, b)) = Inr (sql, length args, b)"
  by (simp_all add: sql_of_def)

lemma sql_of_eqE:
  assumes "sql_of r = sql_of r'"
  obtains e where "r = Inl e" "r' = Inl e"
    | sql args args' b where "r = Inr (sql, args, b)" "r' = Inr (sql, args', b)" "length args = length args'"
  using assms by (cases r; cases r') (auto simp: sql_of_def)

lemma compile_args_shape:
  "(\<And>x c. x \<in> set xs \<Longrightarrow> sql_of (compile_node res x c) = sql_of (compile_node res (shape x) c)) \<Longrightarrow>
   (case compile_args res xs b of Inl e \<Rightarrow> compile_args res (map shape xs) b = Inl e
    | Inr (ss, args, c) \<Rightarrow> \<exists>args'. compile_args res (map shape xs) b = Inr (ss, args', c) \<and> length args' = length args)"
proof (induction xs arbitrary: b)
  case (Cons x xs)
  have "sql_of (compile_node res x b) = sql_of (compile_node res (shape x) b)" using Cons.prems by simp
  then show ?case
  proof (cases rule: sql_of_eqE)
    case (2 sql args args' c)
    then show ?thesis using Cons.IH [of c] Cons.prems by (fastforce split: sum.splits prod.splits)
  qed simp
qed simp

lemma compile_shape: "sql_of (compile_node res n b) = sql_of (compile_node res (shape n) b)"
proof (induction n arbitrary: b)
  case (KUnary op x)
  then show ?case by (cases rule: sql_of_eqE [OF KUnary [of "b - 1"]]) (simp_all add: compile_node_simps)
next
  case (KBinary op l r)
  show ?case
  proof (cases rule: sql_of_eqE [OF KBinary.IH(1) [of "b - 1"]])
    case (2 sql args args' c)
    then show ?thesis by (cases rule: sql_of_eqE [OF KBinary.IH(2) [of c]]) (simp_all add: compile_node_simps)
  qed (simp add: compile_node_simps)
next
  case (KCall f xs)
  then show ?case
    using compile_args_shape [of xs res "b - 1"] by (fastforce simp: compile_node_simps split: sum.splits prod.splits)
qed (simp_all add: compile_node_simps)

text \<open>
  C30: nothing a user writes as a literal is copied into SQL: two expressions of the same shape
  compile to the same SQL text, whatever numbers and strings they hold, and to argument lists of
  the same length.
\<close>

theorem literals_stay_out_of_sql:
  assumes "shape e = shape e'"
  shows "(case Expr_Compile e r of Inl x \<Rightarrow> Expr_Compile e' r = Inl x
    | Inr (sql, args) \<Rightarrow> \<exists>args'. Expr_Compile e' r = Inr (sql, args') \<and> length args' = length args)"
proof -
  have "sql_of (compile_node (free_resolver r) e maxExpansion) = sql_of (compile_node (free_resolver r) e' maxExpansion)"
    using compile_shape [of _ e] compile_shape [of _ e'] assms by simp
  then show ?thesis by (cases rule: sql_of_eqE) (simp_all add: Expr_Compile_def)
qed

theorem literals_stay_out_of_sql_witness:
  "\<exists>sql. Expr_Compile (KBinary ''='' (KIdent ''a'') (KString ''x' OR 1=1 --'')) demo_resolver = Inr (sql, [Text ''$.a'', Text ''x' OR 1=1 --''])
     \<and> (\<exists>args'. Expr_Compile (KBinary ''='' (KIdent ''a'') (KString ''y'')) demo_resolver = Inr (sql, args'))"
proof -
  have "Expr_Compile (KBinary ''='' (KIdent ''a'') (KString ''x' OR 1=1 --'')) demo_resolver =
      Inr (''(json_extract(a, ?) = ?)'', [Text ''$.a'', Text ''x' OR 1=1 --''])" by code_simp
  then show ?thesis
    using literals_stay_out_of_sql [of "KBinary ''='' (KIdent ''a'') (KString ''x' OR 1=1 --'')"
      "KBinary ''='' (KIdent ''a'') (KString ''y'')" demo_resolver] by auto
qed

section \<open>Cycles\<close>

fun ident_set :: "node \<Rightarrow> string set" where
  "ident_set (KIdent k) = {k}"
| "ident_set (KUnary op x) = ident_set x"
| "ident_set (KBinary op l r) = ident_set l \<union> ident_set r"
| "ident_set (KCall f xs) = (\<Union>x \<in> set xs. ident_set x)"
| "ident_set n = {}"

lemma walk_set:
  "set (walk n out) = set out \<union> ident_set n"
  "set (walk_list xs out) = set out \<union> (\<Union>x \<in> set xs. ident_set x)"
  by (induction n out and xs out rule: walk_walk_list.induct) auto

lemma set_Idents: "set (Idents e) = ident_set e"
  by (simp add: Idents_def walk_set)

text \<open>A field refers to another when its expression reads that field.\<close>

definition refers :: "Set \<Rightarrow> (string \<times> string) set" where
  "refers s = {(k, k'). Has s k' \<and> (\<exists>e. map_of (s_exprs s) k = Some (Some e) \<and> k' \<in> set (Idents e))}"

lemma compile_args_idents:
  "(\<And>x c. x \<in> set xs \<Longrightarrow> \<not> isl (compile_node res x c) \<Longrightarrow> k \<in> ident_set x \<Longrightarrow> \<exists>c. \<not> isl (res k c)) \<Longrightarrow>
   \<not> isl (compile_args res xs b) \<Longrightarrow> x \<in> set xs \<Longrightarrow> k \<in> ident_set x \<Longrightarrow> \<exists>c. \<not> isl (res k c)"
proof (induction xs arbitrary: b)
  case (Cons y xs)
  obtain s as c where y: "compile_node res y b = Inr (s, as, c)" "\<not> isl (compile_args res xs c)"
    using Cons.prems(2) by (auto split: compile_splits)
  show ?case
  proof (cases "x = y")
    case True
    then show ?thesis using Cons.prems(1) [of y b] y(1) Cons.prems(4) by simp
  next
    case False
    show ?thesis by (rule Cons.IH [OF Cons.prems(1) y(2)]) (use False Cons.prems(3,4) in auto)
  qed
qed simp

lemma compile_idents: "\<not> isl (compile_node res n b) \<Longrightarrow> k \<in> ident_set n \<Longrightarrow> \<exists>c. \<not> isl (res k c)"
proof (induction n arbitrary: b)
  case (KCall f xs)
  obtain x where x: "x \<in> set xs" "k \<in> ident_set x" using KCall.prems(2) by auto
  have "\<not> isl (compile_args res xs (b - 1))"
    using KCall.prems(1) by (auto simp: compile_node_simps split: compile_splits)
  then show ?case using compile_args_idents [OF _ _ x] KCall.IH by blast
next
  case (KUnary op x)
  have "\<not> isl (compile_node res x (b - 1))" using KUnary.prems(1) by (auto simp: compile_node_simps split: compile_splits)
  then show ?case using KUnary.IH KUnary.prems(2) by simp
next
  case (KBinary op l r)
  obtain c where "\<not> isl (compile_node res l (b - 1))" "\<not> isl (compile_node res r c)"
    using KBinary.prems(1) by (auto simp: compile_node_simps split: compile_splits) (metis sum.disc(2))
  then show ?case using KBinary.IH KBinary.prems(2) by auto
qed (auto simp: compile_node_simps split: compile_splits)

lemma set_compile_refers:
  assumes "\<not> isl (set_compile s (set_resolver s stack) k b)" and "(k, k') \<in> refers s"
  shows "k' \<notin> set stack \<and> (\<exists>b'. \<not> isl (set_compile s (set_resolver s (stack @ [k'])) k' b'))"
proof -
  obtain e where e: "map_of (s_exprs s) k = Some (Some e)" "k' \<in> ident_set e" "Has s k'"
    using assms(2) by (auto simp: refers_def set_Idents)
  have "\<not> isl (compile_node (set_resolver s stack) e b)" using assms(1) e(1) by (auto simp: set_compile_def split: option.splits)
  then obtain c where "\<not> isl (set_resolver s stack k' c)" using compile_idents e(2) by blast
  then show ?thesis using e(3) by (auto simp: set_resolver.simps [of s stack k'] split: if_splits)
qed

lemma set_compile_path:
  assumes "(k, k') \<in> (refers s)\<^sup>+" and "\<not> isl (set_compile s (set_resolver s stack) k b)"
  shows "k' \<notin> set stack \<and> (\<exists>stack' b'. set stack \<subseteq> set stack' \<and> k' \<in> set stack'
    \<and> \<not> isl (set_compile s (set_resolver s stack') k' b'))"
  using assms
proof (induction rule: trancl_induct)
  case (base k')
  then show ?case using set_compile_refers [OF base(2,1)] by (metis Un_upper1 in_set_conv_decomp set_append)
next
  case (step k' k'')
  then obtain stack' b' where st: "set stack \<subseteq> set stack'" "\<not> isl (set_compile s (set_resolver s stack') k' b')" by blast
  then show ?case using set_compile_refers [OF st(2) step(2)]
    by (metis Un_upper1 in_set_conv_decomp set_append subset_iff)
qed

text \<open>
  C31: a field compiles only when nothing it reaches is part of a cycle: if \<^verbatim>\<open>Lookup\<close> gives SQL for a
  field, no field reachable from it through the fields' references refers back to itself.
\<close>

theorem Lookup_acyclic:
  assumes "Lookup s name = Some (Inr res)" and "(name, k) \<in> (refers s)\<^sup>*"
  shows "(k, k) \<notin> (refers s)\<^sup>+"
proof
  assume cyc: "(k, k) \<in> (refers s)\<^sup>+"
  have r: "\<not> isl (set_compile s (set_resolver s [name]) name maxExpansion)"
    using assms(1) by (auto simp: Lookup_def split: compile_splits)
  have "\<exists>stack b. k \<in> set stack \<and> \<not> isl (set_compile s (set_resolver s stack) k b)"
  proof (cases "name = k")
    case True
    then show ?thesis using r by (intro exI [of _ "[name]"]) auto
  next
    case False
    then have "(name, k) \<in> (refers s)\<^sup>+" using assms(2) by (meson rtranclD)
    then show ?thesis using set_compile_path [OF _ r] by blast
  qed
  then show False using set_compile_path [OF cyc] by blast
qed

definition demo_set :: Set where
  "demo_set = NewSet [\<lparr>f_Name = ''total'', f_Expression = ''net + tax''\<rparr>, \<lparr>f_Name = ''tax'', f_Expression = ''net * 2''\<rparr>,
     \<lparr>f_Name = ''loop'', f_Expression = ''loop + 1''\<rparr>] demo_resolver (\<lambda>k. False)"

theorem Lookup_acyclic_witness:
  "(''tax'', ''tax'') \<notin> (refers demo_set)\<^sup>+ \<and> Lookup demo_set ''loop'' = Some (Inl (FieldCycle [''loop''] ''loop''))"
proof
  have l: "Lookup demo_set ''total'' = Some (Inr (''(json_extract(a, ?) + (json_extract(a, ?) * ?))'', [Text ''$.net'', Text ''$.net'', Int64 2]))"
    by code_simp
  have "Has demo_set ''tax''" "map_of (s_exprs demo_set) ''total'' = Some (Some (KBinary ''+'' (KIdent ''net'') (KIdent ''tax'')))"
    by code_simp+
  then have "(''total'', ''tax'') \<in> refers demo_set" by (simp add: refers_def set_Idents)
  then show "(''tax'', ''tax'') \<notin> (refers demo_set)\<^sup>+" using Lookup_acyclic [OF l] by blast
  show "Lookup demo_set ''loop'' = Some (Inl (FieldCycle [''loop''] ''loop''))" by code_simp
qed

section \<open>The expansion budget\<close>

lemma length_Join: "length (Join ps sep) \<le> (\<Sum>p\<leftarrow>ps. length p + length sep)"
  by (induction ps sep rule: Join.induct) simp_all

lemma length_sql_op: "length (sql_op op) \<le> 3"
proof -
  have "\<forall>(k, v) \<in> set binarySQL. length v \<le> 3" by (simp add: binarySQL_def)
  then show ?thesis by (auto simp: sql_op_def dest!: map_of_SomeD split: option.splits)
qed

lemma length_unary_sql: "length (unary_sql op x) \<le> length x + 6"
  by (simp add: unary_sql_def)

lemma length_binary_sql: "length (binary_sql op l r) \<le> length l + length r + 19"
  using length_sql_op [of op] by (simp add: binary_sql_def)

text \<open>A call adds at most 32 bytes around each of its arguments and 28 of its own.\<close>

lemma length_call_sql:
  assumes "map_of function_sigs f = Some (mn, mx)" "mn \<le> length parts" "length parts \<le> mx"
  shows "length (call_sql f parts) \<le> (\<Sum>p\<leftarrow>parts. length p + 32) + 28"
  using function_cases [OF assms(1)]
proof (elim disjE conjE)
  assume "f = ''coalesce''"
  moreover have "(\<Sum>p\<leftarrow>parts. length p + 2) \<le> (\<Sum>p\<leftarrow>parts. length p + 32)" by (rule sum_list_mono) simp
  ultimately show ?thesis using length_Join [of parts "'', ''"] by (simp add: call_sql_def)
next
  assume "f = ''if''" "mn = 3" "mx = 3"
  then obtain a b c where "parts = [a, b, c]" using assms(2,3) length3 [of parts] by auto
  then show ?thesis using \<open>f = ''if''\<close> by (simp add: call_sql_def)
next
  assume "f = ''lower''" "mn = 1" "mx = 1"
  then obtain a where "parts = [a]" using assms(2,3) length1 [of parts] by auto
  then show ?thesis using \<open>f = ''lower''\<close> by (simp add: call_sql_def)
next
  assume "f = ''concat''"
  moreover have "length (concatSQL parts) \<le> (\<Sum>p\<leftarrow>parts. length p + 32) + 2"
  proof -
    define wrap where "wrap p = ''COALESCE(CAST('' @ p @ '' AS TEXT), '' @ [CHR 0x27, CHR 0x27] @ '')''" for p
    have w: "length (wrap p) + length '' || '' = length p + 32" for p by (simp add: wrap_def)
    have "length (Join (map wrap parts) '' || '') \<le> (\<Sum>p\<leftarrow>parts. length p + 32)"
      using length_Join [of "map wrap parts" "'' || ''"] by (simp only: map_map comp_def w)
    moreover have "concatSQL parts = ''('' @ Join (map wrap parts) '' || '' @ '')''" by (simp only: concatSQL_def wrap_def [abs_def])
    ultimately show ?thesis by simp
  qed
  ultimately show ?thesis by (simp add: call_sql_def)
qed

text \<open>
  A result within its budget: for every term it spends, at most \<open>k\<close> arguments and \<open>m + 60\<close> bytes of SQL,
  of which 32 are kept back for what a call puts around it.
\<close>

definition in_budget :: "nat \<Rightarrow> nat \<Rightarrow> int \<Rightarrow> compiled \<Rightarrow> bool" where
  "in_budget k m b r \<longleftrightarrow> (case r of Inl e \<Rightarrow> True
     | Inr (sql, args, b') \<Rightarrow> 0 \<le> b' \<and> b' \<le> b \<and> int (length args) \<le> int k * (b - b')
         \<and> int (length sql) + 32 \<le> (int m + 60) * (b - b'))"

lemma in_budgetD:
  assumes "in_budget k m b r" "r = Inr (sql, args, b')"
  shows "0 \<le> b'" "b' \<le> b" "int (length args) \<le> int k * (b - b')" "int (length sql) + 32 \<le> (int m + 60) * (b - b')"
  using assms by (simp_all add: in_budget_def)

lemma budget_step: "int k * (b - 1 - c) + int k = int k * (b - c)" "(int m + 60) * (b - 1 - c) + (int m + 60) = (int m + 60) * (b - c)"
  by (simp_all add: algebra_simps)

lemma budget_split: "x * (b - c) + x * (c - d) = x * (b - d)" for x :: int
  by (simp add: algebra_simps)

lemma compile_args_within:
  "(\<And>x c. x \<in> set xs \<Longrightarrow> in_budget k m c (compile_node res x c)) \<Longrightarrow> 0 \<le> b \<Longrightarrow> compile_args res xs b = Inr (ss, args, b') \<Longrightarrow>
   0 \<le> b' \<and> b' \<le> b \<and> int (length args) \<le> int k * (b - b') \<and> int (\<Sum>s\<leftarrow>ss. length s + 32) \<le> (int m + 60) * (b - b')
     \<and> length ss = length xs"
proof (induction xs arbitrary: b ss args)
  case (Cons x xs)
  obtain s as c ss' args' where x: "compile_node res x b = Inr (s, as, c)" "compile_args res xs c = Inr (ss', args', b')"
    "ss = s # ss'" "args = as @ args'"
    using Cons.prems(3) by (auto split: compile_splits)
  have "in_budget k m b (compile_node res x b)" using Cons.prems(1) by simp
  note a = in_budgetD [OF this x(1)]
  have "0 \<le> b' \<and> b' \<le> c \<and> int (length args') \<le> int k * (c - b') \<and> int (\<Sum>s\<leftarrow>ss'. length s + 32) \<le> (int m + 60) * (c - b')
      \<and> length ss' = length xs"
    by (rule Cons.IH [OF _ a(1) x(2)]) (use Cons.prems(1) in simp)
  then show ?case using a x(3,4) budget_split [of "int k" b c b'] budget_split [of "int m + 60" b c b'] by auto
qed simp

lemma compile_within:
  assumes "\<And>key c. 0 \<le> c \<Longrightarrow> in_budget k m (c + 1) (res key c)" and "1 \<le> k"
  shows "node_ok n \<Longrightarrow> in_budget k m b (compile_node res n b)"
proof (induction n arbitrary: b)
  case (KIdent key)
  then show ?case using assms(1) [of "b - 1" key] by (auto simp: compile_node_simps in_budget_def)
next
  case (KUnary op x)
  show ?case
  proof (cases "compile_node res (KUnary op x) b")
    case (Inr y)
    then obtain sql args c where c: "compile_node res x (b - 1) = Inr (sql, args, c)" "y = (unary_sql op sql, args, c)"
      by (auto simp: compile_node_simps split: compile_splits)
    have "in_budget k m (b - 1) (compile_node res x (b - 1))" using KUnary by simp
    note x = in_budgetD [OF this c(1)]
    show ?thesis using x c(2) Inr length_unary_sql [of op sql] budget_step(1) [of k b c] budget_step(2) [of m b c] by (auto simp: in_budget_def)
  qed (simp add: in_budget_def)
next
  case (KBinary op l r)
  show ?case
  proof (cases "compile_node res (KBinary op l r) b")
    case (Inr x)
    then obtain ls la c rs ra c' where c: "compile_node res l (b - 1) = Inr (ls, la, c)" "compile_node res r c = Inr (rs, ra, c')"
      "x = (binary_sql op ls rs, la @ ra, c')" by (auto simp: compile_node_simps split: compile_splits)
    have ok: "node_ok l" "node_ok r" using KBinary.prems by simp_all
    note l = in_budgetD [OF KBinary.IH(1) [OF ok(1), of "b - 1"] c(1)] and r = in_budgetD [OF KBinary.IH(2) [OF ok(2), of c] c(2)]
    show ?thesis
      using l r c(3) Inr length_binary_sql [of op ls rs] budget_step(1) [of k b c'] budget_step(2) [of m b c']
        budget_split [of "int k" "b - 1" c c'] budget_split [of "int m + 60" "b - 1" c c']
      by (auto simp: in_budget_def)
  qed (simp add: in_budget_def)
next
  case (KCall f xs)
  show ?case
  proof (cases "compile_node res (KCall f xs) b")
    case (Inr x)
    then obtain ss args c where c: "compile_args res xs (b - 1) = Inr (ss, args, c)" "x = (call_sql f ss, args, c)" "0 \<le> b - 1"
      by (auto simp: compile_node_simps split: compile_splits)
    obtain mn mx where sig: "map_of function_sigs f = Some (mn, mx)" "mn \<le> length xs" "length xs \<le> mx"
      using KCall.prems by (auto split: option.splits)
    have IH: "\<And>x c. x \<in> set xs \<Longrightarrow> in_budget k m c (compile_node res x c)" using KCall by (auto simp: list_all_iff)
    note a = compile_args_within [OF IH c(3,1)]
    have "length (call_sql f ss) \<le> (\<Sum>p\<leftarrow>ss. length p + 32) + 28" using length_call_sql [OF sig(1)] a sig by simp
    then show ?thesis using a c(2) Inr budget_step(1) [of k b c] budget_step(2) [of m b c] by (auto simp: in_budget_def)
  qed (simp add: in_budget_def)
qed (use assms(2) in \<open>auto simp: compile_node_simps in_budget_def\<close>)

definition exprs_ok :: "Set \<Rightarrow> bool" where
  "exprs_ok s \<longleftrightarrow> (\<forall>key e. map_of (s_exprs s) key = Some (Some e) \<longrightarrow> node_ok e)"

lemma NewSet_ok: "exprs_ok (NewSet fs operand builtin)" "s_operand (NewSet fs operand builtin) = operand"
proof -
  have "exprs_ok s \<Longrightarrow> exprs_ok (fold add_field fs s) \<and> s_operand (fold add_field fs s) = s_operand s" for s
  proof (induction fs arbitrary: s)
    case (Cons f fs)
    have "exprs_ok (add_field f s) \<and> s_operand (add_field f s) = s_operand s"
      using Cons.prems Parse_parsed [of "f_Expression f"]
      by (auto simp: exprs_ok_def add_field_def update_conv' split: sum.splits if_splits)
    then show ?case using Cons.IH [of "add_field f s"] by simp
  qed simp
  from this [of "\<lparr>s_exprs = [], s_bad = [], s_operand = operand, s_builtin = builtin\<rparr>"]
  show "exprs_ok (NewSet fs operand builtin)" "s_operand (NewSet fs operand builtin) = operand"
    unfolding NewSet_def by (simp_all add: exprs_ok_def [of "\<lparr>s_exprs = [], s_bad = [], s_operand = operand, s_builtin = builtin\<rparr>"])
qed

lemma set_resolver_within:
  assumes "\<And>key sql args. s_operand s key = Inr (sql, args) \<Longrightarrow> length sql \<le> m \<and> length args \<le> k" and "1 \<le> k" and "exprs_ok s"
  shows "0 \<le> c \<Longrightarrow> in_budget k m (c + 1) (set_resolver s stack key c)"
  using assms(1,3)
proof (induction s stack key c rule: set_resolver.induct)
  case (1 s stack key c)
  show ?case
  proof (cases "Has s key \<and> key \<notin> set stack")
    case True
    have "in_budget k m c (compile_node (set_resolver s (stack @ [key])) e c)" if "node_ok e" for e
      by (rule compile_within [OF _ assms(2) that]) (use 1 True in auto)
    then have "in_budget k m (c + 1) (compile_node (set_resolver s (stack @ [key])) e c)" if "node_ok e" for e
      using that by (fastforce simp: in_budget_def algebra_simps split: sum.splits prod.splits)
    then show ?thesis
      using True "1.prems"(3)
      by (auto simp: set_resolver.simps [of s stack key c] set_compile_def in_budget_def exprs_ok_def split: option.splits)
  next
    case False
    show ?thesis
    proof (cases "Has s key")
      case True
      then show ?thesis using False by (simp add: set_resolver.simps [of s stack key c] in_budget_def)
    next
      case no: False
      show ?thesis
      proof (cases "s_operand s key")
        case (Inr x)
        obtain sql args where x: "x = (sql, args)" by (cases x)
        then have "length sql \<le> m" "length args \<le> k" using "1.prems"(2) Inr by blast+
        then show ?thesis using no Inr x "1.prems"(1) by (simp add: set_resolver.simps [of s stack key c] free_resolver_def in_budget_def)
      qed (use no in \<open>simp add: set_resolver.simps [of s stack key c] free_resolver_def in_budget_def\<close>)
    qed
  qed
qed

text \<open>
  C32: expanding fields that use each other stays bounded, however often they do. If the SQL that reads
  one column or attribute has at most \<open>m\<close> bytes and binds at most \<open>k\<close> arguments, the SQL of a calculated
  field has at most 2000 times \<open>m + 60\<close> bytes and binds at most 2000 times \<open>k\<close> arguments.
\<close>

theorem Lookup_bounded:
  assumes "\<And>key sql args. operand key = Inr (sql, args) \<Longrightarrow> length sql \<le> m \<and> length args \<le> k" and "1 \<le> k"
    and "Lookup (NewSet fs operand builtin) name = Some (Inr (sql, args))"
  shows "int (length sql) \<le> 2000 * (int m + 60) \<and> int (length args) \<le> 2000 * int k"
proof -
  let ?s = "NewSet fs operand builtin"
  obtain b where r: "set_compile ?s (set_resolver ?s [name]) name maxExpansion = Inr (sql, args, b)"
    using assms(3) by (auto simp: Lookup_def split: compile_splits)
  then obtain e where e: "compile_node (set_resolver ?s [name]) e maxExpansion = Inr (sql, args, b)"
      "map_of (s_exprs ?s) name = Some (Some e)"
    by (auto simp: set_compile_def split: option.splits)
  then have "node_ok e" using NewSet_ok(1) by (auto simp: exprs_ok_def)
  then have "in_budget k m maxExpansion (compile_node (set_resolver ?s [name]) e maxExpansion)"
    by (intro compile_within [OF _ assms(2)] set_resolver_within NewSet_ok(1)) (use assms(1,2) in \<open>simp_all add: NewSet_ok(2)\<close>)
  note b = in_budgetD [OF this e(1)]
  have "x * (maxExpansion - b) \<le> x * 2000" if "0 \<le> x" for x
    using b(1) that by (intro mult_left_mono) (simp_all add: maxExpansion_def)
  from this [of "int k"] this [of "int m + 60"] show ?thesis using b by simp
qed

theorem Lookup_bounded_witness:
  "int (length ''(json_extract(a, ?) + (json_extract(a, ?) * ?))'') \<le> 2000 * (int 18 + 60)
   \<and> int (length [Text ''$.net'', Text ''$.net'', Int64 2]) \<le> 2000 * int 1"
proof (rule Lookup_bounded [of demo_resolver 18 1, OF _ _ _])
  show "Lookup (NewSet [\<lparr>f_Name = ''total'', f_Expression = ''net + tax''\<rparr>, \<lparr>f_Name = ''tax'', f_Expression = ''net * 2''\<rparr>] demo_resolver (\<lambda>k. False))
      ''total'' = Some (Inr (''(json_extract(a, ?) + (json_extract(a, ?) * ?))'', [Text ''$.net'', Text ''$.net'', Int64 2]))"
    by code_simp
qed (auto simp: demo_resolver_def)

end
