(* ===== verification/SpanFilter.thy ===== *)
theory SpanFilter
  imports CalcCompile
begin

text \<open>
  The span filter, \<^verbatim>\<open>internal/filter/model.go\<close>, \<^verbatim>\<open>group.go\<close> and \<^verbatim>\<open>compile.go\<close>: a tree of conditions
  with at most one level of groups, its validation, and its compilation to a parameterised SQL
  predicate. The JSON codec is not modelled. \<^verbatim>\<open>strconv.ParseFloat\<close>, which accepts signs, exponents,
  hexadecimal numbers and infinities, is an argument: it gives the value to bind for a text that
  is a number, and the theorems hold whatever it accepts.
\<close>

section \<open>The model\<close>

datatype filter_error =
    RootNotGroup
  | BadMatch
  | TooManyConditions
  | NestedTooDeep
  | ConditionAndGroup
  | EmptyGroup
  | BadKey
  | NeedsValues string string
  | ValueTooLong string
  | UnknownOp string string
  | NeedsNumber string string string
  | ResolverFailed string

definition OpEq :: string where "OpEq = ''=''"
definition OpNe :: string where "OpNe = ''!=''"
definition OpGt :: string where "OpGt = ''>''"
definition OpLt :: string where "OpLt = ''<''"
definition OpGte :: string where "OpGte = ''>=''"
definition OpLte :: string where "OpLte = ''<=''"
definition OpContains :: string where "OpContains = ''contains''"
definition OpStartsWith :: string where "OpStartsWith = ''starts-with''"
definition OpExists :: string where "OpExists = ''exists''"
definition OpNotExists :: string where "OpNotExists = ''does-not-exist''"
definition OpIn :: string where "OpIn = ''in''"
definition OpNotIn :: string where "OpNotIn = ''not-in''"

lemmas op_defs = OpEq_def OpNe_def OpGt_def OpLt_def OpGte_def OpLte_def OpContains_def OpStartsWith_def
  OpExists_def OpNotExists_def OpIn_def OpNotIn_def

definition MatchAnd :: string where "MatchAnd = ''and''"
definition MatchOr :: string where "MatchOr = ''or''"

definition maxConditions :: nat where "maxConditions = 32"
definition maxValues :: nat where "maxValues = 100"
definition maxKeyLen :: nat where "maxKeyLen = 200"
definition maxValueLen :: nat where "maxValueLen = 1024"

text \<open>A condition has a key, a group has filters; both are one type, as in the JSON form.\<close>

datatype Node = Node (n_Key: string) (n_Op: string) (n_Value: string) (n_Values: "string list") (n_Match: string)
  (n_Filters: "Node list")

definition condition :: "string \<Rightarrow> string \<Rightarrow> string \<Rightarrow> Node" where
  "condition key op val = Node key op val [] [] []"

definition group_node :: "string \<Rightarrow> Node list \<Rightarrow> Node" where
  "group_node mt fs = Node [] [] [] [] mt fs"

section \<open>Validation\<close>

definition validateCondition :: "Node \<Rightarrow> filter_error option" where
  "validateCondition c =
     (if n_Key c = [] \<or> length (n_Key c) > maxKeyLen \<or> list_ex refused_char (n_Key c) then Some BadKey
      else if n_Op c \<in> set [OpExists, OpNotExists] then None
      else if n_Op c \<in> set [OpIn, OpNotIn] then
        if n_Values c = [] \<or> length (n_Values c) > maxValues then Some (NeedsValues (n_Op c) (n_Key c))
        else if list_ex (\<lambda>v. length v > maxValueLen) (n_Values c) then Some (ValueTooLong (n_Key c))
        else None
      else if n_Op c \<in> set [OpEq, OpNe, OpGt, OpLt, OpGte, OpLte, OpContains, OpStartsWith] then
        if length (n_Value c) > maxValueLen then Some (ValueTooLong (n_Key c)) else None
      else Some (UnknownOp (n_Op c) (n_Key c)))"

lemma size_filters [simp]: "Suc (2 * size_list size (n_Filters g)) < 2 * size g"
  by (cases g) simp

text \<open>The pointer to the count of conditions is threaded through: it is returned on success.\<close>

function validateGroup :: "Node \<Rightarrow> nat \<Rightarrow> nat \<Rightarrow> filter_error + nat"
  and validateFilters :: "Node list \<Rightarrow> nat \<Rightarrow> nat \<Rightarrow> filter_error + nat"
  and validateSubgroup :: "Node \<Rightarrow> nat \<Rightarrow> nat \<Rightarrow> filter_error + nat" where
  "validateGroup g depth n =
     (if n_Match g \<notin> set [[], MatchAnd, MatchOr] then Inl BadMatch else validateFilters (n_Filters g) depth n)"
| "validateFilters [] depth n = Inr n"
| "validateFilters (c # cs) depth n =
     (if n_Filters c \<noteq> [] \<or> n_Match c \<noteq> [] then
        (case validateSubgroup c depth n of Inl e \<Rightarrow> Inl e | Inr n \<Rightarrow> validateFilters cs depth n)
      else if n + 1 > maxConditions then Inl TooManyConditions
      else case validateCondition c of Some e \<Rightarrow> Inl e | None \<Rightarrow> validateFilters cs depth (n + 1))"
| "validateSubgroup c depth n =
     (if depth \<ge> 1 then Inl NestedTooDeep
      else if n_Key c \<noteq> [] \<or> n_Op c \<noteq> [] then Inl ConditionAndGroup
      else if n_Filters c = [] then Inl EmptyGroup
      else validateGroup c (depth + 1) n)"
  by pat_completeness auto

termination
  by (relation "measure (\<lambda>x. case x of Inl (g, _) \<Rightarrow> 2 * size g
      | Inr (Inl (cs, _)) \<Rightarrow> 2 * size_list size cs + 1 | Inr (Inr (c, _)) \<Rightarrow> 2 * size c + 1)")
    auto

declare validateGroup.simps [simp del] validateSubgroup.simps [simp del]

text \<open>A nil root is valid.\<close>

definition filter_Validate :: "Node option \<Rightarrow> filter_error option" where
  "filter_Validate e =
     (case e of
        None \<Rightarrow> None
      | Some e \<Rightarrow>
          if n_Key e \<noteq> [] \<or> n_Op e \<noteq> [] then Some RootNotGroup
          else case validateGroup e 0 0 of Inl x \<Rightarrow> Some x | Inr _ \<Rightarrow> None)"

definition ValidateKey :: "string \<Rightarrow> filter_error option" where
  "ValidateKey key = validateCondition (condition key OpExists [])"

definition FromLegacy :: "string \<Rightarrow> string \<Rightarrow> string \<Rightarrow> int \<Rightarrow> Node option" where
  "FromLegacy service operation status minDurationUs =
     (let fs = (if service \<noteq> [] then [condition ''service'' OpEq service] else [])
             @ (if operation \<noteq> [] then [condition ''name'' OpEq operation] else [])
             @ (if status \<noteq> [] then [condition ''status'' OpEq status] else [])
             @ (if minDurationUs > 0 then [condition ''duration_us'' OpGte (FormatInt minDurationUs)] else [])
      in if fs = [] then None else Some (group_node MatchAnd fs))"

section \<open>Grouping helpers\<close>

definition GroupCondition :: "string \<Rightarrow> string \<Rightarrow> Node" where
  "GroupCondition key val = (if val = [] then condition key OpNotExists [] else condition key OpEq val)"

definition Conjoin :: "Node option \<Rightarrow> Node list \<Rightarrow> Node option" where
  "Conjoin base conds =
     (case base of
        None \<Rightarrow> Some (group_node MatchAnd conds)
      | Some b \<Rightarrow>
          if n_Filters b = [] then Some (group_node MatchAnd conds)
          else if n_Match b \<noteq> MatchOr \<or> length (n_Filters b) = 1 then Some (group_node MatchAnd (n_Filters b @ conds))
          else if list_ex (\<lambda>n. n_Filters n \<noteq> []) (n_Filters b) then None
          else Some (group_node MatchAnd (group_node MatchOr (n_Filters b) # conds)))"

section \<open>Keys\<close>

datatype colKind = colText | colInt

definition columns :: "(string \<times> string \<times> colKind) list" where
  "columns = [
     (''service'', ''service'', colText), (''name'', ''name'', colText), (''operation'', ''name'', colText),
     (''kind'', ''kind'', colText), (''status'', ''status'', colText), (''resource'', ''resource'', colText),
     (''trace_id'', ''trace_id'', colText), (''span_id'', ''span_id'', colText),
     (''parent_span_id'', ''parent_span_id'', colText), (''duration_us'', ''duration_us'', colInt),
     (''duration'', ''duration_us'', colInt), (''start_time_us'', ''start_time_us'', colInt),
     (''http_status'', ''http_status'', colInt)]"

definition attrPrefix :: string where
  "attrPrefix = ''attributes.''"

definition CutPrefix :: "string \<Rightarrow> string \<Rightarrow> string option" where
  "CutPrefix s p = (if take (length p) s = p then Some (drop (length p) s) else None)"

record operand =
  o_col :: string
  o_kind :: colKind
  o_attr :: bool
  o_path :: string
  o_calc :: "(string \<times> sqlarg list) option"

type_synonym filter_resolver = "string \<Rightarrow> filter_error + (string \<times> sqlarg list) option"

definition IsColumn :: "string \<Rightarrow> bool" where
  "IsColumn key \<longleftrightarrow> map_of columns key \<noteq> None"

definition AttrKey :: "string \<Rightarrow> string" where
  "AttrKey name = (if IsColumn name \<or> CutPrefix name attrPrefix \<noteq> None then attrPrefix @ name else name)"

definition IsBuiltin :: "string \<Rightarrow> bool" where
  "IsBuiltin key = (case CutPrefix key attrPrefix of Some rest \<Rightarrow> rest \<noteq> [] \<or> IsColumn key | None \<Rightarrow> IsColumn key)"

definition attr_path :: "string \<Rightarrow> string" where
  "attr_path key = ''$.'' @ [CHR 0x22] @ key @ [CHR 0x22]"

definition attr_operand :: "string \<Rightarrow> operand" where
  "attr_operand key = \<lparr>o_col = [], o_kind = colText, o_attr = True, o_path = attr_path key, o_calc = None\<rparr>"

definition resolveBuiltin :: "string \<Rightarrow> operand" where
  "resolveBuiltin key =
     (case CutPrefix key attrPrefix of
        Some (c # rest) \<Rightarrow> attr_operand (c # rest)
      | _ \<Rightarrow> (case map_of columns key of
                Some (name, kd) \<Rightarrow> \<lparr>o_col = name, o_kind = kd, o_attr = False, o_path = [], o_calc = None\<rparr>
              | None \<Rightarrow> \<lparr>o_col = [], o_kind = colText, o_attr = False, o_path = [], o_calc = None\<rparr>))"

definition resolveBuiltinOrAttr :: "string \<Rightarrow> operand" where
  "resolveBuiltinOrAttr key = (if IsBuiltin key then resolveBuiltin key else attr_operand key)"

definition resolve :: "string \<Rightarrow> filter_resolver option \<Rightarrow> filter_error + operand" where
  "resolve key r =
     (if IsBuiltin key then Inr (resolveBuiltin key)
      else case r of
          None \<Rightarrow> Inr (attr_operand key)
        | Some r \<Rightarrow> (case r key of
            Inl e \<Rightarrow> Inl e
          | Inr (Some res) \<Rightarrow> Inr \<lparr>o_col = [], o_kind = colText, o_attr = False, o_path = [], o_calc = Some res\<rparr>
          | Inr None \<Rightarrow> Inr (attr_operand key)))"

definition isInt :: "operand \<Rightarrow> bool" where
  "isInt opd \<longleftrightarrow> o_calc opd = None \<and> \<not> o_attr opd \<and> o_kind opd = colInt"

section \<open>SQL of a key\<close>

text \<open>\<open>quoted s\<close> is the text \<open>s\<close> in single quotes.\<close>

definition quoted :: "string \<Rightarrow> string" where
  "quoted s = [CHR 0x27] @ s @ [CHR 0x27]"

definition line_break :: string where
  "line_break = [CHR 0x0A, CHR 0x09, CHR 0x09]"

definition text_sql :: "operand \<Rightarrow> string \<times> sqlarg list" where
  "text_sql opd =
     (case o_calc opd of
        Some (x, args) \<Rightarrow>
          (''(CASE typeof('' @ x @ '') WHEN '' @ quoted ''real'' @ '' THEN printf('' @ quoted ''%.15g'' @ '', '' @ x
             @ '') ELSE CAST('' @ x @ '' AS TEXT) END)'', args @ args @ args)
      | None \<Rightarrow>
          if \<not> o_attr opd then
            if o_kind opd = colInt then (''CAST('' @ o_col opd @ '' AS TEXT)'', []) else (o_col opd, [])
          else (''(CASE WHEN NOT json_valid(attributes) THEN NULL ELSE CASE json_type(attributes, ?)'' @ line_break
             @ ''WHEN '' @ quoted ''true'' @ '' THEN '' @ quoted ''true'' @ '' WHEN '' @ quoted ''false'' @ '' THEN ''
             @ quoted ''false'' @ line_break @ ''ELSE CAST(json_extract(attributes, ?) AS TEXT) END END)'',
             [Text (o_path opd), Text (o_path opd)]))"

definition number_sql :: "operand \<Rightarrow> string \<times> sqlarg list" where
  "number_sql opd =
     (case o_calc opd of
        Some (x, args) \<Rightarrow>
          (''(CASE WHEN typeof('' @ x @ '') IN ('' @ quoted ''integer'' @ '','' @ quoted ''real'' @ '') THEN '' @ x @ '' END)'',
           args @ args)
      | None \<Rightarrow>
          if \<not> o_attr opd then (o_col opd, [])
          else (''(CASE WHEN json_valid(attributes) AND json_type(attributes, ?) IN ('' @ quoted ''integer'' @ '',''
             @ quoted ''real'' @ '')'' @ line_break @ ''THEN json_extract(attributes, ?) END)'',
             [Text (o_path opd), Text (o_path opd)]))"

definition present_sql :: "operand \<Rightarrow> string \<times> sqlarg list" where
  "present_sql opd =
     (case o_calc opd of
        Some (x, args) \<Rightarrow> (''('' @ x @ '') IS NOT NULL'', args)
      | None \<Rightarrow>
          if o_attr opd then
            (''(CASE WHEN json_valid(attributes) THEN json_extract(attributes, ?) END) IS NOT NULL'', [Text (o_path opd)])
          else if o_kind opd = colInt then (o_col opd @ '' IS NOT NULL'', [])
          else (''COALESCE('' @ o_col opd @ '', '' @ quoted [] @ '') <> '' @ quoted [], []))"

definition ValueSQL :: "string \<Rightarrow> string \<times> sqlarg list" where
  "ValueSQL key =
     (let opd = resolveBuiltinOrAttr key
      in if \<not> o_attr opd then (o_col opd, [])
         else (''(CASE WHEN json_valid(attributes) THEN json_extract(attributes, ?) END)'', [Text (o_path opd)]))"

definition TextSQL :: "string \<Rightarrow> string \<times> sqlarg list" where
  "TextSQL key = text_sql (resolveBuiltinOrAttr key)"

definition TextSQLWith :: "string \<Rightarrow> filter_resolver option \<Rightarrow> filter_error + string \<times> sqlarg list" where
  "TextSQLWith key r = (case resolve key r of Inl e \<Rightarrow> Inl e | Inr opd \<Rightarrow> Inr (text_sql opd))"

section \<open>SQL of a condition\<close>

type_synonym parse_float = "string \<Rightarrow> sqlarg option"

definition numArg :: "parse_float \<Rightarrow> Node \<Rightarrow> string \<Rightarrow> filter_error + sqlarg" where
  "numArg pf c v = (case pf v of Some f \<Rightarrow> Inr f | None \<Rightarrow> Inl (NeedsNumber (n_Key c) (n_Op c) v))"

definition negate :: "string \<Rightarrow> sqlarg list \<Rightarrow> string \<Rightarrow> sqlarg list \<Rightarrow> string \<times> sqlarg list" where
  "negate ref args tail vals = (''('' @ ref @ '' IS NULL OR '' @ ref @ '' '' @ tail @ '')'', args @ args @ vals)"

definition equality_operand :: "parse_float \<Rightarrow> operand \<Rightarrow> Node \<Rightarrow> filter_error + string \<times> sqlarg list \<times> sqlarg" where
  "equality_operand pf opd c =
     (if isInt opd then (case numArg pf c (n_Value c) of Inl e \<Rightarrow> Inl e | Inr f \<Rightarrow> Inr (o_col opd, [], f))
      else if o_calc opd \<noteq> None then
        (case pf (n_Value c) of
           Some f \<Rightarrow> (case number_sql opd of (ref, args) \<Rightarrow> Inr (ref, args, f))
         | None \<Rightarrow> (case text_sql opd of (ref, args) \<Rightarrow> Inr (ref, args, Text (n_Value c))))
      else (case text_sql opd of (ref, args) \<Rightarrow> Inr (ref, args, Text (n_Value c))))"

definition compileEquality :: "parse_float \<Rightarrow> operand \<Rightarrow> Node \<Rightarrow> filter_error + string \<times> sqlarg list" where
  "compileEquality pf opd c =
     (case equality_operand pf opd c of
        Inl e \<Rightarrow> Inl e
      | Inr (ref, args, val) \<Rightarrow>
          if n_Op c = OpEq then Inr (ref @ '' = ?'', args @ [val]) else Inr (negate ref args ''<> ?'' [val]))"

definition orderSQL :: "(string \<times> string) list" where
  "orderSQL = [(OpGt, ''>''), (OpLt, ''<''), (OpGte, ''>=''), (OpLte, ''<='')]"

definition order_sym :: "string \<Rightarrow> string" where
  "order_sym op = (case map_of orderSQL op of Some s \<Rightarrow> s | None \<Rightarrow> [])"

definition compileOrdering :: "parse_float \<Rightarrow> operand \<Rightarrow> Node \<Rightarrow> filter_error + string \<times> sqlarg list" where
  "compileOrdering pf opd c =
     (let sym = order_sym (n_Op c); num = numArg pf c (n_Value c)
      in if isInt opd then
           (case num of Inl e \<Rightarrow> Inl e | Inr f \<Rightarrow> Inr (o_col opd @ '' '' @ sym @ '' ?'', [f]))
         else case num of
             Inr f \<Rightarrow> (case number_sql opd of (ref, args) \<Rightarrow> Inr (ref @ '' '' @ sym @ '' ?'', args @ [f]))
           | Inl _ \<Rightarrow> (case text_sql opd of (ref, args) \<Rightarrow> Inr (ref @ '' '' @ sym @ '' ?'', args @ [Text (n_Value c)])))"

text \<open>
  \<^verbatim>\<open>utf8.RuneCountInString\<close>: the bytes of one rune, or 1 for a byte that starts no valid encoding.
\<close>

definition cont_byte :: "nat \<Rightarrow> nat \<Rightarrow> string \<Rightarrow> bool" where
  "cont_byte lo hi s = (case s of c # _ \<Rightarrow> lo \<le> byte_of c \<and> byte_of c \<le> hi | [] \<Rightarrow> False)"

definition rune_len :: "string \<Rightarrow> nat" where
  "rune_len s =
     (let b = byte_of (hd s); r1 = drop 1 s; r2 = drop 2 s; r3 = drop 3 s;
          lo = (if b = 0xE0 then 0xA0 else if b = 0xF0 then 0x90 else 0x80);
          hi = (if b = 0xED then 0x9F else if b = 0xF4 then 0x8F else 0xBF)
      in if 0xC2 \<le> b \<and> b \<le> 0xDF \<and> cont_byte 0x80 0xBF r1 then 2
         else if 0xE0 \<le> b \<and> b \<le> 0xEF \<and> cont_byte lo hi r1 \<and> cont_byte 0x80 0xBF r2 then 3
         else if 0xF0 \<le> b \<and> b \<le> 0xF4 \<and> cont_byte lo hi r1 \<and> cont_byte 0x80 0xBF r2 \<and> cont_byte 0x80 0xBF r3 then 4
         else 1)"

lemma rune_len_pos: "0 < rune_len s"
  by (simp add: rune_len_def Let_def)

function RuneCount :: "string \<Rightarrow> nat" where
  "RuneCount s = (if s = [] then 0 else Suc (RuneCount (drop (rune_len s) s)))"
  by auto
termination by (relation "measure length") (auto simp: rune_len_pos)

declare RuneCount.simps [simp del]

definition compileSubstring :: "operand \<Rightarrow> Node \<Rightarrow> filter_error + string \<times> sqlarg list" where
  "compileSubstring opd c =
     (case text_sql opd of (ref, args) \<Rightarrow>
        if n_Op c = OpContains then Inr (''instr('' @ ref @ '', ?) > 0'', args @ [Text (n_Value c)])
        else Inr (''substr('' @ ref @ '', 1, ?) = ?'', args @ [Int64 (int (RuneCount (n_Value c))), Text (n_Value c)]))"

fun in_values :: "parse_float \<Rightarrow> operand \<Rightarrow> Node \<Rightarrow> string list \<Rightarrow> filter_error + sqlarg list" where
  "in_values pf opd c [] = Inr []"
| "in_values pf opd c (v # vs) =
     (case (if \<not> isInt opd then Inr (Text v) else numArg pf c v) of
        Inl e \<Rightarrow> Inl e
      | Inr a \<Rightarrow> (case in_values pf opd c vs of Inl e \<Rightarrow> Inl e | Inr as \<Rightarrow> Inr (a # as)))"

definition marks :: "nat \<Rightarrow> string" where
  "marks n = Join (replicate n ''?'') '',''"

definition compileIn :: "parse_float \<Rightarrow> operand \<Rightarrow> Node \<Rightarrow> filter_error + string \<times> sqlarg list" where
  "compileIn pf opd c =
     (case (if isInt opd then (o_col opd, []) else text_sql opd) of (ref, args) \<Rightarrow>
        (case in_values pf opd c (n_Values c) of
           Inl e \<Rightarrow> Inl e
         | Inr vals \<Rightarrow>
             if n_Op c = OpIn then Inr (ref @ '' IN ('' @ marks (length (n_Values c)) @ '')'', args @ vals)
             else Inr (negate ref args (''NOT IN ('' @ marks (length (n_Values c)) @ '')'') vals)))"

definition compileCondition :: "parse_float \<Rightarrow> filter_resolver option \<Rightarrow> Node \<Rightarrow> filter_error + string \<times> sqlarg list" where
  "compileCondition pf r c =
     (case resolve (n_Key c) r of
        Inl e \<Rightarrow> Inl e
      | Inr opd \<Rightarrow>
          if n_Op c = OpExists then Inr (present_sql opd)
          else if n_Op c = OpNotExists then (case present_sql opd of (s, a) \<Rightarrow> Inr (''NOT ('' @ s @ '')'', a))
          else if n_Op c \<in> set [OpEq, OpNe] then compileEquality pf opd c
          else if n_Op c \<in> set [OpGt, OpLt, OpGte, OpLte] then compileOrdering pf opd c
          else if n_Op c \<in> set [OpContains, OpStartsWith] then compileSubstring opd c
          else if n_Op c \<in> set [OpIn, OpNotIn] then compileIn pf opd c
          else Inl (UnknownOp (n_Op c) (n_Key c)))"

section \<open>SQL of a filter\<close>

function compileGroup :: "parse_float \<Rightarrow> filter_resolver option \<Rightarrow> Node \<Rightarrow> filter_error + string \<times> sqlarg list"
  and compileFilters :: "parse_float \<Rightarrow> filter_resolver option \<Rightarrow> Node list \<Rightarrow> filter_error + string list \<times> sqlarg list" where
  "compileGroup pf r g =
     (case compileFilters pf r (n_Filters g) of
        Inl e \<Rightarrow> Inl e
      | Inr (parts, args) \<Rightarrow> Inr (''('' @ Join parts (if n_Match g = MatchOr then '' OR '' else '' AND '') @ '')'', args))"
| "compileFilters pf r [] = Inr ([], [])"
| "compileFilters pf r (c # cs) =
     (case (if n_Filters c \<noteq> [] then compileGroup pf r c else compileCondition pf r c) of
        Inl e \<Rightarrow> Inl e
      | Inr (s, a) \<Rightarrow>
          (case compileFilters pf r cs of Inl e \<Rightarrow> Inl e | Inr (parts, args) \<Rightarrow> Inr (s # parts, a @ args)))"
  by pat_completeness auto
termination
  by (relation "measure (\<lambda>x. case x of Inl (_, _, g) \<Rightarrow> 2 * size g | Inr (_, _, cs) \<Rightarrow> 2 * size_list size cs + 1)")
    auto

declare compileGroup.simps [simp del]

text \<open>The empty filter compiles to the empty text.\<close>

definition CompileWith :: "parse_float \<Rightarrow> Node option \<Rightarrow> filter_resolver option \<Rightarrow> filter_error + string \<times> sqlarg list" where
  "CompileWith pf e r =
     (case e of
        None \<Rightarrow> Inr ([], [])
      | Some g \<Rightarrow>
          if n_Filters g = [] then Inr ([], [])
          else case filter_Validate e of Some x \<Rightarrow> Inl x | None \<Rightarrow> compileGroup pf r g)"

definition filter_Compile :: "parse_float \<Rightarrow> Node option \<Rightarrow> filter_error + string \<times> sqlarg list" where
  "filter_Compile pf e = CompileWith pf e None"

section \<open>Placeholders and arguments\<close>

definition matched :: "'e + string \<times> sqlarg list \<Rightarrow> bool" where
  "matched r \<longleftrightarrow> (case r of Inl e \<Rightarrow> True | Inr (sql, args) \<Rightarrow> placeholders sql = length args)"

definition resolver_matched :: "filter_resolver option \<Rightarrow> bool" where
  "resolver_matched r \<longleftrightarrow> (\<forall>f key sql args. r = Some f \<and> f key = Inr (Some (sql, args)) \<longrightarrow> placeholders sql = length args)"

definition operand_ok :: "operand \<Rightarrow> bool" where
  "operand_ok opd \<longleftrightarrow> placeholders (o_col opd) = 0
     \<and> (case o_calc opd of None \<Rightarrow> True | Some (x, args) \<Rightarrow> placeholders x = length args)"

lemma matched_simps [simp]: "matched (Inl e)" "matched (Inr (sql, args)) \<longleftrightarrow> placeholders sql = length args"
  by (simp_all add: matched_def)

lemma column_placeholders: "map_of columns key = Some (name, kd) \<Longrightarrow> placeholders name = 0"
proof -
  have "\<forall>(k, name, kd) \<in> set columns. placeholders name = 0" by (simp add: columns_def)
  then show "map_of columns key = Some (name, kd) \<Longrightarrow> placeholders name = 0" by (auto dest: map_of_SomeD)
qed

lemma builtin_ok: "operand_ok (resolveBuiltin key)" "operand_ok (attr_operand key)"
  by (auto simp: resolveBuiltin_def attr_operand_def operand_ok_def column_placeholders split: option.splits list.splits)

lemma resolve_ok: "resolver_matched r \<Longrightarrow> resolve key r = Inr opd \<Longrightarrow> operand_ok opd"
  by (auto simp: resolve_def builtin_ok split: if_splits option.splits sum.splits)
    (auto simp: operand_ok_def resolver_matched_def)

lemma quoted_placeholders [simp]: "placeholders (quoted s) = placeholders s"
  by (simp add: quoted_def)

lemma operand_matched:
  assumes "operand_ok opd"
  shows "text_sql opd = (s, a) \<Longrightarrow> placeholders s = length a"
    and "number_sql opd = (s, a) \<Longrightarrow> placeholders s = length a"
    and "present_sql opd = (s, a) \<Longrightarrow> placeholders s = length a"
  using assms by (auto simp: text_sql_def number_sql_def present_sql_def operand_ok_def line_break_def split: option.splits if_splits)

lemma order_placeholders [simp]: "placeholders (order_sym op) = 0"
  by (simp add: order_sym_def orderSQL_def)

lemma marks_placeholders [simp]: "placeholders (marks n) = n"
  by (simp add: marks_def placeholders_Join sum_list_replicate)

lemma negate_matched:
  "placeholders ref = length args \<Longrightarrow> placeholders tail = length vals \<Longrightarrow> matched (Inr (negate ref args tail vals))"
  by (simp add: negate_def)

lemma in_values_length: "in_values pf opd c vs = Inr as \<Longrightarrow> length as = length vs"
  by (induction vs arbitrary: as) (auto split: sum.splits)

lemma compileCondition_matched:
  assumes "resolver_matched r"
  shows "matched (compileCondition pf r c)"
proof (cases "resolve (n_Key c) r")
  case (Inr opd)
  have ok: "operand_ok opd" by (rule resolve_ok [OF assms Inr])
  note m = operand_matched [OF ok]
  have col: "placeholders (o_col opd) = 0" using ok by (simp add: operand_ok_def)
  have eq: "matched (compileEquality pf opd c)"
    using m col by (auto simp: compileEquality_def equality_operand_def negate_def split: sum.splits if_splits prod.splits option.splits)
  have ord: "matched (compileOrdering pf opd c)"
    using m col by (auto simp: compileOrdering_def Let_def split: sum.splits prod.splits)
  have sub: "matched (compileSubstring opd c)"
    using m by (auto simp: compileSubstring_def split: prod.splits)
  have inn: "matched (compileIn pf opd c)"
    using m col by (auto simp: compileIn_def negate_def in_values_length split: prod.splits sum.splits)
  obtain s a where ex: "present_sql opd = (s, a)" by fastforce
  from eq ord sub inn m(3) [OF ex] show ?thesis by (simp add: compileCondition_def Inr ex)
qed (simp add: compileCondition_def)

lemma compileGroup_matched:
  assumes "resolver_matched r"
  shows "matched (compileGroup pf r g)"
    and "compileFilters pf r cs = Inr (parts, args) \<Longrightarrow> sum_list (map placeholders parts) = length args"
  using assms
proof (induction pf r g and pf r cs arbitrary: and parts args rule: compileGroup_compileFilters.induct)
  case (1 pf r g)
  then show ?case by (cases "compileFilters pf r (n_Filters g)") (auto simp: compileGroup.simps [of pf r g] placeholders_Join)
next
  case (3 pf r c cs)
  obtain s a parts' args' where c: "(if n_Filters c \<noteq> [] then compileGroup pf r c else compileCondition pf r c) = Inr (s, a)"
    "compileFilters pf r cs = Inr (parts', args')" "parts = s # parts'" "args = a @ args'"
    using "3.prems"(1) by (auto split: sum.splits if_splits)
  have "matched (if n_Filters c \<noteq> [] then compileGroup pf r c else compileCondition pf r c)"
    using "3.IH"(1) "3.prems"(2) compileCondition_matched by simp
  then have "placeholders s = length a" using c(1) by (simp only: matched_simps)
  then show ?case using "3.IH"(2) [OF c(1) refl c(2) "3.prems"(2)] c by simp
qed simp

text \<open>
  C34: a compiled filter binds exactly as many arguments as its SQL has placeholders, for every
  filter and every key, as long as the SQL of the calculated fields it uses does.
\<close>

theorem filter_placeholders_match:
  assumes "\<And>f key sql args. r = Some f \<Longrightarrow> f key = Inr (Some (sql, args)) \<Longrightarrow> placeholders sql = length args"
    and "CompileWith pf e r = Inr (sql, args)"
  shows "placeholders sql = length args"
proof -
  have r: "resolver_matched r" using assms(1) by (auto simp: resolver_matched_def)
  have "sql = [] \<and> args = [] \<or> (\<exists>g. compileGroup pf r g = Inr (sql, args))"
    using assms(2) by (auto simp: CompileWith_def split: option.splits if_splits)
  then show ?thesis
  proof (elim disjE exE conjE)
    fix g assume "compileGroup pf r g = Inr (sql, args)"
    then show ?thesis using compileGroup_matched(1) [OF r, of pf g] by simp
  qed simp
qed

definition demo_filter :: Node where
  "demo_filter = group_node MatchAnd [condition ''kind'' OpEq ''server'',
     group_node MatchOr [condition ''url.path'' OpStartsWith ''/api?'', condition ''duration_us'' OpGte ''500'']]"

definition demo_parse_float :: parse_float where
  "demo_parse_float s = (if s \<noteq> [] \<and> list_all isDigit s then Some (Double (of_nat (read_digits s))) else None)"

definition demo_calc :: filter_resolver where
  "demo_calc key = Inr (if key = ''total'' then Some (''(net + ?)'', [Int64 2]) else None)"

definition calc_filter :: Node where
  "calc_filter = group_node MatchOr [condition ''total'' OpNe ''7'', condition ''url.path'' OpStartsWith ''/api?'']"

theorem filter_placeholders_match_witness:
  "\<exists>sql args. CompileWith demo_parse_float (Some calc_filter) (Some demo_calc) = Inr (sql, args)
     \<and> placeholders sql = length args \<and> length args = 9"
proof -
  have "\<not> isl (CompileWith demo_parse_float (Some calc_filter) (Some demo_calc))"
    "length (snd (projr (CompileWith demo_parse_float (Some calc_filter) (Some demo_calc)))) = 9" by code_simp+
  then obtain sql args where c: "CompileWith demo_parse_float (Some calc_filter) (Some demo_calc) = Inr (sql, args)" "length args = 9"
    by (cases "CompileWith demo_parse_float (Some calc_filter) (Some demo_calc)") auto
  have "placeholders sql = length args" by (rule filter_placeholders_match [OF _ c(1)]) (auto simp: demo_calc_def split: if_splits)
  with c show ?thesis by blast
qed

section \<open>What a valid filter is\<close>

definition group_shaped :: "Node \<Rightarrow> bool" where
  "group_shaped c \<longleftrightarrow> n_Filters c \<noteq> [] \<or> n_Match c \<noteq> []"

definition match_ok :: "string \<Rightarrow> bool" where
  "match_ok m \<longleftrightarrow> m \<in> {'''', ''and'', ''or''}"

text \<open>
  A condition as documented: a key of 1 to 200 bytes without quote, backslash or zero byte, one of
  twelve operators, 1 to 100 values of at most 1024 bytes for the list operators and one value of at most
  1024 bytes for the comparing ones.
\<close>

definition valid_condition :: "Node \<Rightarrow> bool" where
  "valid_condition c \<longleftrightarrow>
     1 \<le> length (n_Key c) \<and> length (n_Key c) \<le> 200 \<and> set (n_Key c) \<inter> {CHR 0x22, CHR 0x5C, CHR 0x00} = {}
     \<and> (n_Op c \<in> {''exists'', ''does-not-exist''}
        \<or> n_Op c \<in> {''in'', ''not-in''} \<and> 1 \<le> length (n_Values c) \<and> length (n_Values c) \<le> 100
            \<and> (\<forall>v \<in> set (n_Values c). length v \<le> 1024)
        \<or> n_Op c \<in> {''='', ''!='', ''>'', ''<'', ''>='', ''<='', ''contains'', ''starts-with''} \<and> length (n_Value c) \<le> 1024)"

lemma NUL_code: "NUL = CHR 0x00"
  by code_simp

lemma key_chars: "(set key \<inter> {CHR 0x22, CHR 0x5C, CHR 0x00} = {}) = (\<not> list_ex refused_char key)"
  by (auto simp: list_ex_iff refused_char_def NUL_code)

lemma value_lengths: "list_ex (\<lambda>v. \<not> length v \<le> 1024) vs = (\<not> (\<forall>v \<in> set vs. length v \<le> 1024))"
  by (simp add: list_ex_iff)

lemma value_count: "(vs = [] \<or> length vs > maxValues) = (\<not> (1 \<le> length vs \<and> length vs \<le> 100))"
  by (cases vs) (auto simp: maxValues_def)

lemma key_length: "(k = [] \<or> length k > maxKeyLen \<or> b) = (\<not> (1 \<le> length k \<and> length k \<le> 200 \<and> \<not> b))"
  by (cases k) (auto simp: maxKeyLen_def)

lemma value_length: "(length v > maxValueLen) = (\<not> length v \<le> 1024)"
  by (auto simp: maxValueLen_def)

lemma validateCondition_iff: "validateCondition c = None \<longleftrightarrow> valid_condition c"
  unfolding validateCondition_def valid_condition_def key_chars value_count key_length value_length value_lengths
  by (cases "n_Op c \<in> {''exists'', ''does-not-exist''}"; cases "n_Op c \<in> {''in'', ''not-in''}";
      cases "n_Op c \<in> {''='', ''!='', ''>'', ''<'', ''>='', ''<='', ''contains'', ''starts-with''}")
    (simp_all add: op_defs, auto)

text \<open>The conditions of a filter: those of the root and those of its groups.\<close>

definition leaves :: "Node list \<Rightarrow> Node list" where
  "leaves cs = concat (map (\<lambda>c. if group_shaped c then n_Filters c else [c]) cs)"

definition subgroup_ok :: "Node \<Rightarrow> bool" where
  "subgroup_ok c \<longleftrightarrow> n_Key c = [] \<and> n_Op c = [] \<and> n_Filters c \<noteq> [] \<and> match_ok (n_Match c)
     \<and> (\<forall>d \<in> set (n_Filters c). \<not> group_shaped d)"

definition valid_filters :: "Node list \<Rightarrow> bool" where
  "valid_filters cs \<longleftrightarrow> (\<forall>c \<in> set cs. group_shaped c \<longrightarrow> subgroup_ok c) \<and> (\<forall>c \<in> set (leaves cs). valid_condition c)"

definition valid_filter :: "Node \<Rightarrow> bool" where
  "valid_filter e \<longleftrightarrow> n_Key e = [] \<and> n_Op e = [] \<and> match_ok (n_Match e) \<and> valid_filters (n_Filters e)
     \<and> length (leaves (n_Filters e)) \<le> 32"

lemma match_ok_iff: "match_ok m \<longleftrightarrow> m \<in> set [[], MatchAnd, MatchOr]"
  by (auto simp: match_ok_def MatchAnd_def MatchOr_def)

lemma validateFilters_inner:
  "n \<le> maxConditions \<Longrightarrow> validateFilters cs (Suc d) n = Inr m \<longleftrightarrow>
   m = n + length cs \<and> m \<le> maxConditions \<and> (\<forall>c \<in> set cs. \<not> group_shaped c \<and> validateCondition c = None)"
proof (induction cs arbitrary: n)
  case (Cons c cs)
  show ?case
  proof (cases "group_shaped c \<or> n + 1 > maxConditions \<or> validateCondition c \<noteq> None")
    case True
    then show ?thesis
      by (auto simp: group_shaped_def validateSubgroup.simps [of c] split: option.splits)
  next
    case False
    then show ?thesis using Cons.IH [of "n + 1"] by (auto simp: group_shaped_def)
  qed
qed auto

lemma validateSubgroup_outer:
  "n \<le> maxConditions \<Longrightarrow> validateSubgroup c 0 n = Inr m \<longleftrightarrow>
   subgroup_ok c \<and> m = n + length (n_Filters c) \<and> m \<le> maxConditions \<and> (\<forall>d \<in> set (n_Filters c). validateCondition d = None)"
  using validateFilters_inner [of n "n_Filters c" 0 m]
  by (auto simp: validateSubgroup.simps [of c] validateGroup.simps [of c] subgroup_ok_def match_ok_iff)

lemma leaves_Cons: "leaves (c # cs) = (if group_shaped c then n_Filters c else [c]) @ leaves cs"
  by (simp add: leaves_def)

lemma validateFilters_outer:
  "n \<le> maxConditions \<Longrightarrow> validateFilters cs 0 n = Inr m \<longleftrightarrow>
   m = n + length (leaves cs) \<and> m \<le> maxConditions \<and> valid_filters cs"
proof (induction cs arbitrary: n)
  case Nil
  then show ?case by (auto simp: leaves_def valid_filters_def)
next
  case (Cons c cs)
  show ?case
  proof (cases "group_shaped c")
    case True
    have eq: "validateFilters (c # cs) 0 n = (case validateSubgroup c 0 n of Inl e \<Rightarrow> Inl e | Inr n \<Rightarrow> validateFilters cs 0 n)"
      using True by (auto simp: group_shaped_def)
    show ?thesis
    proof (cases "validateSubgroup c 0 n")
      case (Inl e)
      then show ?thesis using validateSubgroup_outer [OF Cons.prems, of c "n + length (n_Filters c)"] True
        by (auto simp: validateCondition_iff eq valid_filters_def leaves_Cons simp del: validateFilters.simps)
    next
      case (Inr k)
      then show ?thesis using validateSubgroup_outer [OF Cons.prems, of c k] Cons.IH [of k] True
        by (auto simp: validateCondition_iff eq valid_filters_def leaves_Cons simp del: validateFilters.simps)
    qed
  next
    case False
    then have eq: "validateFilters (c # cs) 0 n = (if n + 1 > maxConditions then Inl TooManyConditions
        else case validateCondition c of Some e \<Rightarrow> Inl e | None \<Rightarrow> validateFilters cs 0 (n + 1))"
      by (auto simp: group_shaped_def)
    show ?thesis
      using False Cons.IH [of "n + 1"] validateCondition_iff [of c] by (auto simp: eq valid_filters_def leaves_Cons simp del: validateFilters.simps split: option.splits)
  qed
qed

lemma Validate_valid: "filter_Validate (Some e) = None \<longleftrightarrow> valid_filter e"
proof -
  have "(\<exists>m. validateFilters (n_Filters e) 0 0 = Inr m) \<longleftrightarrow> length (leaves (n_Filters e)) \<le> maxConditions \<and> valid_filters (n_Filters e)"
    using validateFilters_outer [of 0 "n_Filters e"] by (simp add: maxConditions_def)
  then show ?thesis
    by (auto simp: filter_Validate_def valid_filter_def validateGroup.simps [of e] match_ok_iff maxConditions_def split: sum.splits if_splits)
qed

text \<open>
  C35: \<^verbatim>\<open>Validate\<close> accepts no filter at all, and exactly the filters of the documented form: a root without
  key and operator that holds conditions and one level of non-empty groups, and-ed or or-ed, at most 32
  conditions in all, every one with a key, an operator and values as \<open>valid_condition\<close> spells out.
\<close>

theorem Validate_iff_valid: "(filter_Validate e = None) = (case e of None \<Rightarrow> True | Some g \<Rightarrow> valid_filter g)"
  by (cases e) (simp_all add: Validate_valid, simp add: filter_Validate_def)

section \<open>Conjunction\<close>

text \<open>The meaning of a filter over the truth of its conditions.\<close>

lemma size_member [termination_simp]: "c \<in> set (n_Filters g) \<Longrightarrow> size c < size g"
  by (cases g) (auto dest: size_list_estimation' [where f = size, OF _ order_refl])

function holds :: "(Node \<Rightarrow> bool) \<Rightarrow> Node \<Rightarrow> bool" where
  "holds sat g =
     (if n_Match g = MatchOr then list_ex (\<lambda>c. if n_Filters c \<noteq> [] then holds sat c else sat c) (n_Filters g)
      else list_all (\<lambda>c. if n_Filters c \<noteq> [] then holds sat c else sat c) (n_Filters g))"
  by auto
termination by (relation "measure (\<lambda>(sat, g). size g)") (auto simp: size_member)

declare holds.simps [simp del]

definition filter_holds :: "(Node \<Rightarrow> bool) \<Rightarrow> Node option \<Rightarrow> bool" where
  "filter_holds sat e = (case e of None \<Rightarrow> True | Some g \<Rightarrow> n_Filters g = [] \<or> holds sat g)"

lemma group_node_simps [simp]:
  "n_Key (group_node mt fs) = []" "n_Op (group_node mt fs) = []" "n_Match (group_node mt fs) = mt" "n_Filters (group_node mt fs) = fs"
  by (simp_all add: group_node_def)

definition member_holds :: "(Node \<Rightarrow> bool) \<Rightarrow> Node \<Rightarrow> bool" where
  "member_holds sat c = (if n_Filters c \<noteq> [] then holds sat c else sat c)"

lemma holds_member:
  "holds sat g = (if n_Match g = MatchOr then list_ex (member_holds sat) (n_Filters g)
     else list_all (member_holds sat) (n_Filters g))"
  by (subst holds.simps) (simp only: member_holds_def [abs_def])

lemma holds_group:
  "holds sat (group_node mt fs) =
     (if mt = MatchOr then list_ex (member_holds sat) fs
      else list_all (member_holds sat) fs)"
  by (simp only: holds_member group_node_simps)

lemma MatchAnd_Or [simp]: "MatchAnd \<noteq> MatchOr" "MatchOr \<noteq> MatchAnd" "match_ok MatchAnd" "match_ok MatchOr"
  by (auto simp: MatchAnd_def MatchOr_def match_ok_def)

lemma leaves_append: "leaves (xs @ ys) = leaves xs @ leaves ys"
  by (simp add: leaves_def)

lemma leaves_conditions: "\<forall>c \<in> set cs. \<not> group_shaped c \<Longrightarrow> leaves cs = cs"
  by (induction cs) (auto simp: leaves_def)

lemma valid_filters_append: "valid_filters (xs @ ys) \<longleftrightarrow> valid_filters xs \<and> valid_filters ys"
  by (auto simp: valid_filters_def leaves_append)

definition plain_conditions :: "Node list \<Rightarrow> bool" where
  "plain_conditions cs \<longleftrightarrow> list_all (\<lambda>c. \<not> group_shaped c \<and> validateCondition c = None) cs"

lemma plain_conditions_valid:
  assumes "plain_conditions cs"
  shows "valid_filters cs" and "leaves cs = cs"
    and "list_all (member_holds sat) cs = list_all sat cs"
  using assms by (auto simp: plain_conditions_def valid_filters_def list_all_iff leaves_conditions validateCondition_iff)
    (auto simp: group_shaped_def member_holds_def)

lemma Conjoin_cases:
  assumes "Conjoin base conds = Some e"
  obtains "base = None \<or> (\<exists>b. base = Some b \<and> n_Filters b = [])" "e = group_node MatchAnd conds"
    | b where "base = Some b" "n_Filters b \<noteq> []" "n_Match b \<noteq> MatchOr \<or> length (n_Filters b) = 1"
        "e = group_node MatchAnd (n_Filters b @ conds)"
    | b where "base = Some b" "n_Filters b \<noteq> []" "n_Match b = MatchOr" "\<forall>c \<in> set (n_Filters b). n_Filters c = []"
        "e = group_node MatchAnd (group_node MatchOr (n_Filters b) # conds)"
  using assms by (auto simp: Conjoin_def list_ex_iff split: option.splits if_splits)

lemma Conjoin_holds:
  assumes "Conjoin base conds = Some e" and "plain_conditions conds"
  shows "filter_holds sat (Some e) = (filter_holds sat base \<and> list_all sat conds)"
  using assms(1)
proof (cases rule: Conjoin_cases)
  case 1
  then show ?thesis using plain_conditions_valid(3) [OF assms(2), of sat]
    by (auto simp: filter_holds_def holds_group)
next
  case (2 b)
  have "holds sat b = list_all (member_holds sat) (n_Filters b)"
    unfolding holds_member [of sat b] using 2(3) by (cases "n_Filters b") auto
  then show ?thesis using 2 plain_conditions_valid(3) [OF assms(2), of sat]
    by (auto simp: filter_holds_def holds_group)
next
  case (3 b)
  have "holds sat (group_node MatchOr (n_Filters b)) = holds sat b"
    unfolding holds_member [of sat b] holds_group using 3(3) by simp
  then have "member_holds sat (group_node MatchOr (n_Filters b)) = holds sat b" using 3(2) by (simp add: member_holds_def)
  then show ?thesis using 3 plain_conditions_valid(3) [OF assms(2), of sat]
    by (auto simp: filter_holds_def holds_group [of sat MatchAnd])
qed

lemma Conjoin_valid:
  assumes "Conjoin base conds = Some e" and "plain_conditions conds" and "filter_Validate base = None"
    and "length (leaves (case base of None \<Rightarrow> [] | Some b \<Rightarrow> n_Filters b)) + length conds \<le> maxConditions"
  shows "valid_filter e"
  using assms(1)
proof (cases rule: Conjoin_cases)
  case 1
  then show ?thesis using plain_conditions_valid(1,2) [OF assms(2)] assms(4) by (auto simp: valid_filter_def maxConditions_def)
next
  case (2 b)
  then show ?thesis using plain_conditions_valid(1,2) [OF assms(2)] assms(3,4)
    by (auto simp: Validate_valid valid_filter_def valid_filters_append leaves_append maxConditions_def)
next
  case (3 b)
  have v: "valid_filter b" using assms(3) 3(1) by (simp add: Validate_valid)
  have plain: "\<forall>c \<in> set (n_Filters b). \<not> group_shaped c"
    using v 3(4) by (auto simp: valid_filter_def valid_filters_def group_shaped_def subgroup_ok_def)
  then have "leaves (n_Filters b) = n_Filters b" by (rule leaves_conditions)
  moreover have "group_shaped (group_node MatchOr (n_Filters b))" "subgroup_ok (group_node MatchOr (n_Filters b))"
    using 3(2) plain by (auto simp: group_shaped_def subgroup_ok_def)
  ultimately show ?thesis using 3 v plain_conditions_valid(1,2) [OF assms(2)] assms(4)
    by (auto simp: valid_filter_def valid_filters_def leaves_Cons maxConditions_def)
qed

text \<open>
  C36: joining conditions to a filter means what it says. When \<^verbatim>\<open>Conjoin\<close> gives a filter, that filter holds
  exactly when the base holds and every condition does, and it is valid as long as base and
  conditions together stay within the condition limit; it gives none only for an or-ed base of
  several members that already contains groups.
\<close>

theorem Conjoin_correct:
  assumes "filter_Validate base = None" and "plain_conditions conds"
  shows "case Conjoin base conds of
      None \<Rightarrow> (\<exists>b. base = Some b \<and> n_Match b = MatchOr \<and> 1 < length (n_Filters b) \<and> list_ex group_shaped (n_Filters b))
    | Some e \<Rightarrow> (\<forall>sat. filter_holds sat (Some e) = (filter_holds sat base \<and> list_all sat conds))
        \<and> (length (leaves (case base of None \<Rightarrow> [] | Some b \<Rightarrow> n_Filters b)) + length conds \<le> maxConditions
            \<longrightarrow> filter_Validate (Some e) = None)"
proof (cases "Conjoin base conds")
  case None
  then show ?thesis
    by (auto simp: Conjoin_def list_ex_iff group_shaped_def neq_Nil_conv split: option.splits if_splits)
next
  case (Some e)
  then show ?thesis
    using Conjoin_holds [OF Some assms(2)] Conjoin_valid [OF Some assms(2,1)] by (simp add: Validate_valid)
qed

theorem Conjoin_correct_witness:
  "\<exists>e. Conjoin (Some demo_filter) [condition ''status'' OpEq ''error''] = Some e \<and> filter_Validate (Some e) = None"
proof -
  have "filter_Validate (Some demo_filter) = None" "plain_conditions [condition ''status'' OpEq ''error'']"
    "Conjoin (Some demo_filter) [condition ''status'' OpEq ''error''] \<noteq> None"
    "length (leaves (n_Filters demo_filter)) + 1 \<le> maxConditions" by code_simp+
  then show ?thesis
    using Conjoin_correct [of "Some demo_filter" "[condition ''status'' OpEq ''error'']"] by auto
qed

text \<open>
  A base at the condition limit is joined to an expression that \<^verbatim>\<open>Validate\<close> refuses, although base and
  condition are both valid.
\<close>

theorem Conjoin_can_exceed_limit:
  "\<exists>base c e. filter_Validate (Some base) = None \<and> plain_conditions [c]
     \<and> Conjoin (Some base) [c] = Some e \<and> filter_Validate (Some e) = Some TooManyConditions"
proof (intro exI conjI)
  let ?c = "condition ''kind'' OpEq ''server''"
  show "filter_Validate (Some (group_node MatchAnd (replicate 32 ?c))) = None" by code_simp
  show "plain_conditions [?c]" by code_simp
  show "Conjoin (Some (group_node MatchAnd (replicate 32 ?c))) [?c] = Some (group_node MatchAnd (replicate 32 ?c @ [?c]))"
    by code_simp
  show "filter_Validate (Some (group_node MatchAnd (replicate 32 ?c @ [?c]))) = Some TooManyConditions" by code_simp
qed

section \<open>User text never reaches the SQL\<close>

text \<open>
  The outline of a filter. Per condition: what its key resolves to, a column, an attribute whose name is
  left out, or the SQL of a calculated field with the number of its arguments; its operator; whether its
  value is a number; how many values it lists and which of them are numbers. Per group: how it joins
  its members. Attribute names and values are not part of it.
\<close>

type_synonym key_class = "filter_error + string \<times> colKind \<times> bool \<times> (string \<times> nat) option"

datatype outline_tree = Outline key_class string bool "bool list" string "outline_tree list"

definition operand_class :: "operand \<Rightarrow> string \<times> colKind \<times> bool \<times> (string \<times> nat) option" where
  "operand_class opd = (o_col opd, o_kind opd, o_attr opd, map_option (\<lambda>(x, args). (x, length args)) (o_calc opd))"

definition key_outline :: "filter_resolver option \<Rightarrow> string \<Rightarrow> key_class" where
  "key_outline r key = map_sum id operand_class (resolve key r)"

fun outline :: "parse_float \<Rightarrow> filter_resolver option \<Rightarrow> Node \<Rightarrow> outline_tree" where
  "outline pf r (Node key op val vals mt fs) =
     Outline (key_outline r key) op (pf val \<noteq> None) (map (\<lambda>v. pf v \<noteq> None) vals) mt (map (outline pf r) fs)"

definition alike :: "'e + string \<times> sqlarg list \<Rightarrow> 'e + string \<times> sqlarg list \<Rightarrow> bool" where
  "alike r r' \<longleftrightarrow> (case r of Inl _ \<Rightarrow> isl r' | Inr (sql, args) \<Rightarrow> \<exists>args'. r' = Inr (sql, args') \<and> length args' = length args)"

lemma operand_class_sql:
  assumes "operand_class o1 = operand_class o2"
  shows "isInt o1 = isInt o2" and "o_col o1 = o_col o2" and "(o_calc o1 = None) = (o_calc o2 = None)"
    and "fst (text_sql o1) = fst (text_sql o2)" "length (snd (text_sql o1)) = length (snd (text_sql o2))"
    and "fst (number_sql o1) = fst (number_sql o2)" "length (snd (number_sql o1)) = length (snd (number_sql o2))"
    and "fst (present_sql o1) = fst (present_sql o2)" "length (snd (present_sql o1)) = length (snd (present_sql o2))"
  using assms
  by (cases "o_calc o1"; cases "o_calc o2";
      auto simp: operand_class_def isInt_def text_sql_def number_sql_def present_sql_def split: prod.splits)+

lemma in_values_alike:
  assumes "isInt o1 = isInt o2" and "map (\<lambda>v. pf v \<noteq> None) vs = map (\<lambda>v. pf v \<noteq> None) ws"
  shows "isl (in_values pf o1 c vs) = isl (in_values pf o2 d ws)"
  using assms(2)
proof (induction vs arbitrary: ws)
  case (Cons v vs)
  then obtain w ws' where w: "ws = w # ws'" "(pf v = None) = (pf w = None)" "map (\<lambda>v. pf v \<noteq> None) vs = map (\<lambda>v. pf v \<noteq> None) ws'"
    by (cases ws) auto
  show ?case using Cons.IH [OF w(3)] w(1,2) assms(1)
    by (cases "in_values pf o1 c vs"; cases "in_values pf o2 d ws'"; cases "pf v"; cases "pf w") (auto simp: numArg_def)
qed simp

lemma compile_parts_alike:
  assumes al: "operand_class o1 = operand_class o2" and op: "n_Op c = n_Op d" and num: "(pf (n_Value c) = None) = (pf (n_Value d) = None)"
    and nums: "map (\<lambda>v. pf v \<noteq> None) (n_Values c) = map (\<lambda>v. pf v \<noteq> None) (n_Values d)"
  shows "alike (compileEquality pf o1 c) (compileEquality pf o2 d)"
    and "alike (compileOrdering pf o1 c) (compileOrdering pf o2 d)"
    and "alike (compileSubstring o1 c) (compileSubstring o2 d)"
    and "alike (compileIn pf o1 c) (compileIn pf o2 d)"
proof -
  obtain t1 a1 t2 a2 where t: "text_sql o1 = (t1, a1)" "text_sql o2 = (t2, a2)" by (metis surj_pair)
  obtain m1 b1 m2 b2 where m: "number_sql o1 = (m1, b1)" "number_sql o2 = (m2, b2)" by (metis surj_pair)
  note s = operand_class_sql [OF al]
  have eq: "t1 = t2" "length a1 = length a2" "m1 = m2" "length b1 = length b2" using s(4-7) t m by simp_all
  show "alike (compileEquality pf o1 c) (compileEquality pf o2 d)"
    using s(1-3) t m eq num op
    by (cases "pf (n_Value c)"; cases "pf (n_Value d)")
      (auto simp: compileEquality_def equality_operand_def numArg_def negate_def alike_def)
  show "alike (compileOrdering pf o1 c) (compileOrdering pf o2 d)"
    using s(1,2) t m eq num op
    by (cases "pf (n_Value c)"; cases "pf (n_Value d)") (auto simp: compileOrdering_def numArg_def alike_def Let_def)
  show "alike (compileSubstring o1 c) (compileSubstring o2 d)"
    using t eq op by (auto simp: compileSubstring_def alike_def)
  have len: "length (n_Values c) = length (n_Values d)" using nums by (metis length_map)
  show "alike (compileIn pf o1 c) (compileIn pf o2 d)"
    using s(1,2) t eq op len in_values_alike [OF s(1) nums, of c d] in_values_length [of pf o1 c "n_Values c"]
      in_values_length [of pf o2 d "n_Values d"]
    by (cases "in_values pf o1 c (n_Values c)"; cases "in_values pf o2 d (n_Values d)")
      (auto simp: compileIn_def negate_def alike_def)
qed

lemma compileCondition_alike:
  assumes "key_outline r (n_Key c) = key_outline r (n_Key d)" "n_Op c = n_Op d" "(pf (n_Value c) = None) = (pf (n_Value d) = None)"
    "map (\<lambda>v. pf v \<noteq> None) (n_Values c) = map (\<lambda>v. pf v \<noteq> None) (n_Values d)"
  shows "alike (compileCondition pf r c) (compileCondition pf r d)"
proof (cases "resolve (n_Key c) r")
  case (Inl e)
  then have "resolve (n_Key d) r = Inl e" using assms(1) by (cases "resolve (n_Key d) r") (auto simp: key_outline_def)
  with Inl show ?thesis by (simp add: compileCondition_def alike_def)
next
  case (Inr o1)
  then obtain o2 where o2: "resolve (n_Key d) r = Inr o2" and al: "operand_class o1 = operand_class o2"
    using assms(1) by (cases "resolve (n_Key d) r") (auto simp: key_outline_def)
  note parts = compile_parts_alike [OF al assms(2-4)]
  obtain s1 a1 s2 a2 where p: "present_sql o1 = (s1, a1)" "present_sql o2 = (s2, a2)" by (metis surj_pair)
  have "s1 = s2" "length a1 = length a2" using operand_class_sql(8,9) [OF al] p by simp_all
  then show ?thesis using parts p assms(2) by (simp add: compileCondition_def Inr o2) (simp add: alike_def)
qed

lemma compileFilters_alike:
  "(\<And>c d. c \<in> set cs \<Longrightarrow> outline pf r c = outline pf r d \<Longrightarrow> alike (compileGroup pf r c) (compileGroup pf r d)) \<Longrightarrow>
   map (outline pf r) cs = map (outline pf r) ds \<Longrightarrow>
   (case compileFilters pf r cs of Inl _ \<Rightarrow> isl (compileFilters pf r ds)
    | Inr (parts, args) \<Rightarrow> \<exists>args'. compileFilters pf r ds = Inr (parts, args') \<and> length args' = length args)"
proof (induction cs arbitrary: ds)
  case (Cons c cs)
  then obtain d ds' where d: "ds = d # ds'" "outline pf r c = outline pf r d" "map (outline pf r) cs = map (outline pf r) ds'"
    by (cases ds) auto
  have fs: "n_Filters c \<noteq> [] \<longleftrightarrow> n_Filters d \<noteq> []" using d(2) by (cases c; cases d) auto
  have "alike (compileCondition pf r c) (compileCondition pf r d)"
    using d(2) by (intro compileCondition_alike) (cases c; cases d; auto)+
  moreover have "alike (compileGroup pf r c) (compileGroup pf r d)" using Cons.prems(1) d(2) by simp
  ultimately have "alike (if n_Filters c \<noteq> [] then compileGroup pf r c else compileCondition pf r c)
      (if n_Filters d \<noteq> [] then compileGroup pf r d else compileCondition pf r d)" using fs by simp
  moreover have "case compileFilters pf r cs of Inl _ \<Rightarrow> isl (compileFilters pf r ds')
      | Inr (parts, args) \<Rightarrow> \<exists>args'. compileFilters pf r ds' = Inr (parts, args') \<and> length args' = length args"
    using Cons.IH [OF Cons.prems(1) d(3)] by simp
  ultimately show ?case unfolding d(1) compileFilters.simps alike_def
    by (auto split: sum.splits if_splits prod.splits)
qed simp

lemma compileGroup_alike: "outline pf r g = outline pf r h \<Longrightarrow> alike (compileGroup pf r g) (compileGroup pf r h)"
proof (induction g arbitrary: h)
  case (Node key op val vals mt fs)
  obtain key' op' val' vals' fs' where h: "h = Node key' op' val' vals' mt fs'" and m: "map (outline pf r) fs = map (outline pf r) fs'"
    using Node.prems by (cases h) auto
  have "(case compileFilters pf r fs of Inl _ \<Rightarrow> isl (compileFilters pf r fs')
      | Inr (parts, args) \<Rightarrow> \<exists>args'. compileFilters pf r fs' = Inr (parts, args') \<and> length args' = length args)"
    by (rule compileFilters_alike [OF _ m]) (rule Node.IH)
  then show ?case
    by (simp add: h compileGroup.simps [of pf r "Node key op val vals mt fs"]
        compileGroup.simps [of pf r "Node key' op' val' vals' mt fs'"])
      (auto simp: alike_def split: sum.splits prod.splits)
qed

text \<open>
  C33: attribute names and values never become part of the SQL. Take two filters of the same structure,
  with the same operators, whose keys resolve to the same columns, to attributes in the same places, or
  to calculated fields with the same SQL, and whose values are numbers in the same places and equally
  many. If one compiles and the other is valid, the other compiles to the same SQL text with equally
  many arguments, whatever attribute names and values it holds.
\<close>

theorem filter_text_stays_out_of_sql:
  assumes "outline pf r g = outline pf r h" and "CompileWith pf (Some g) r = Inr (sql, args)" and "filter_Validate (Some h) = None"
  shows "\<exists>args'. CompileWith pf (Some h) r = Inr (sql, args') \<and> length args' = length args"
proof -
  have "n_Filters g = [] \<longleftrightarrow> n_Filters h = []" using assms(1) by (cases g; cases h) auto
  then show ?thesis
    using compileGroup_alike [OF assms(1)] assms(2,3)
    by (auto simp: CompileWith_def alike_def split: if_splits option.splits)
qed

text \<open>A calculated field and two attributes; the second filter tries to break out of the SQL.\<close>

definition honest_filter :: Node where
  "honest_filter = group_node MatchAnd [condition ''total'' OpGt ''7'', condition ''a'' OpEq ''x'', Node ''b'' OpIn [] [''1'', ''2''] [] []]"

definition hostile_filter :: Node where
  "hostile_filter = group_node MatchAnd [condition ''total'' OpGt ''99'', condition ''b.c'' OpEq ''y) OR (1=1'',
     Node ''d) --'' OpIn [] [''3'', ''4''] [] []]"

theorem filter_text_stays_out_of_sql_witness:
  "\<exists>sql args args'. CompileWith demo_parse_float (Some honest_filter) (Some demo_calc) = Inr (sql, args)
     \<and> CompileWith demo_parse_float (Some hostile_filter) (Some demo_calc) = Inr (sql, args')"
proof -
  have "\<not> isl (CompileWith demo_parse_float (Some honest_filter) (Some demo_calc))"
    and v: "filter_Validate (Some hostile_filter) = None"
    and o: "outline demo_parse_float (Some demo_calc) honest_filter = outline demo_parse_float (Some demo_calc) hostile_filter"
    by code_simp+
  then obtain sql args where "CompileWith demo_parse_float (Some honest_filter) (Some demo_calc) = Inr (sql, args)"
    by (cases "CompileWith demo_parse_float (Some honest_filter) (Some demo_calc)") auto
  with filter_text_stays_out_of_sql [OF o this v] show ?thesis by blast
qed

end
