(* ===== verification/WriteScheduler.thy ===== *)
theory WriteScheduler
  imports Prelude
begin

text \<open>
  The write scheduler, \<^verbatim>\<open>internal/writescheduler/scheduler.go\<close>: every database write runs as one
  job on one goroutine, high priority first. The goroutines are modelled by their program counters:
  the scheduler loop (\<^verbatim>\<open>Run\<close> with its deferred \<^verbatim>\<open>drain\<close> and \<^verbatim>\<open>close\<close>), any number of callers inside
  \<^verbatim>\<open>SubmitRows\<close>, and the watchdog. A step is one branch of one \<^verbatim>\<open>select\<close> or the straight-line code up
  to the next one, so every interleaving the Go memory model allows of these goroutines is a
  sequence of steps. A \<^verbatim>\<open>select\<close> with a \<^verbatim>\<open>default\<close> takes it only when no other case is ready; one
  without takes any ready case. The database is a value that a job's function maps to its successor,
  the rows it wrote and its error. The function runs as one step: only the scheduler's goroutine writes,
  and nothing but the watchdog looks at a job while it runs. Its own error is a \<open>JobErr\<close>, so a job is
  taken not to return \<^verbatim>\<open>ErrStopped\<close> or a context's error of its own; a caller could not tell such an error
  from the scheduler's. Tracing spans are left out.
\<close>

section \<open>Data\<close>

datatype Priority = Low | High

datatype write_error = ErrStopped | CtxErr | JobErr string

definition NoRows :: int where
  "NoRows = -1"

text \<open>What a job returns: the rows it wrote, or \<open>NoRows\<close>, and its error.\<close>

type_synonym result = "int \<times> write_error option"
type_synonym 'db write_fn = "'db \<Rightarrow> 'db \<times> int \<times> string option"

text \<open>The result channel of a job has room for its one result. It is named by the job's id.\<close>

record 'db job =
  j_id :: nat
  j_fn :: "'db write_fn"
  j_label :: string
  j_enqueuedAt :: gotime

record 'db Scheduler =
  highPri :: "'db job list"
  lowPri :: "'db job list"
  stopped :: bool
  slowThreshold :: duration
  reportThreshold :: duration
  stuckThreshold :: duration
  curLabel :: string
  curStart :: gotime
  curSeq :: int
  dumpedAt :: int

datatype log_level = LevelWarn | LevelError

datatype log_line =
    SlowWrite log_level string duration duration "int option"
  | SlowWait string duration duration
  | Wedge string duration nat nat

text \<open>
  A caller of \<^verbatim>\<open>SubmitRows\<close> is at its first, second or third \<^verbatim>\<open>select\<close>, or has returned. The
  scheduler goroutine is at the outer or inner \<^verbatim>\<open>select\<close> of \<^verbatim>\<open>Run\<close>, has received a job, runs it, or
  is at one of the two \<^verbatim>\<open>select\<close>s of \<^verbatim>\<open>drain\<close>, about to close \<^verbatim>\<open>stopped\<close>, or gone. A received or
  running job carries whether \<^verbatim>\<open>drain\<close> took it.
\<close>

datatype 'db call =
    Entering Priority string "'db write_fn"
  | Offering Priority "'db job"
  | is_Waiting: Waiting "'db job"
  | is_Returned: Returned result

datatype 'db pc =
    is_Top: Top | is_Inner: Inner | Received "'db job" bool | Running "'db job" gotime bool
  | is_Draining: Draining | is_DrainingLow: DrainingLow | is_Closing: Closing | is_Exited: Exited

text \<open>
  The scheduler together with its goroutines, the result channels, which contexts are cancelled and
  the database; \<open>history\<close> records the jobs run so far with what they returned.
\<close>

record 'db world = "'db Scheduler" +
  pc :: "'db pc"
  calls :: "nat \<Rightarrow> 'db call option"
  results :: "nat \<Rightarrow> result option"
  ctx_done :: "nat \<Rightarrow> bool"
  run_done :: bool
  db :: 'db
  history :: "('db job \<times> result) list"
  logs :: "log_line list"

definition high_cap :: nat where "high_cap = 64"
definition low_cap :: nat where "low_cap = 512"

definition New :: "'db \<Rightarrow> 'db world" where
  "New d = \<lparr>highPri = [], lowPri = [], stopped = False, slowThreshold = 2 * second, reportThreshold = 10 * second,
     stuckThreshold = 30 * second, curLabel = [], curStart = zero_time, curSeq = 0, dumpedAt = 0,
     pc = Top, calls = Map.empty, results = Map.empty, ctx_done = (\<lambda>_. False), run_done = False, db = d,
     history = [], logs = []\<rparr>"

definition InFlight :: "'db world \<Rightarrow> string" where
  "InFlight w = curLabel w"

section \<open>Callers\<close>

text \<open>\<^verbatim>\<open>Submit\<close> is \<^verbatim>\<open>SubmitRows\<close> with the job that reports no rows.\<close>

definition Submit_fn :: "('db \<Rightarrow> 'db \<times> string option) \<Rightarrow> 'db write_fn" where
  "Submit_fn f d = (case f d of (d', e) \<Rightarrow> (d', NoRows, e))"

definition return_call :: "nat \<Rightarrow> result \<Rightarrow> 'db world \<Rightarrow> 'db world" where
  "return_call i r w = w\<lparr>calls := (calls w)(i \<mapsto> Returned r)\<rparr>"

text \<open>The check of \<^verbatim>\<open>stopped\<close> on entry, and the job made when it passes.\<close>

definition submit_enter :: "nat \<Rightarrow> gotime \<Rightarrow> 'db world \<Rightarrow> 'db world option" where
  "submit_enter i now w =
     (case calls w i of
        Some (Entering p label fn) \<Rightarrow>
          Some (if stopped w then return_call i (NoRows, Some ErrStopped) w
            else w\<lparr>calls := (calls w)(i \<mapsto> Offering p \<lparr>j_id = i, j_fn = fn, j_label = label, j_enqueuedAt = now\<rparr>)\<rparr>)
      | _ \<Rightarrow> None)"

definition submit_offer :: "nat \<Rightarrow> 'db world \<Rightarrow> 'db world option" where
  "submit_offer i w =
     (case calls w i of
        Some (Offering p j) \<Rightarrow>
          (let w' = w\<lparr>calls := (calls w)(i \<mapsto> Waiting j)\<rparr> in
           if p = High then if length (highPri w) < high_cap then Some (w'\<lparr>highPri := highPri w @ [j]\<rparr>) else None
           else if length (lowPri w) < low_cap then Some (w'\<lparr>lowPri := lowPri w @ [j]\<rparr>) else None)
      | _ \<Rightarrow> None)"

definition offer_done :: "nat \<Rightarrow> 'db world \<Rightarrow> 'db world option" where
  "offer_done i w =
     (case calls w i of
        Some (Offering p j) \<Rightarrow> if ctx_done w i then Some (return_call i (NoRows, Some CtxErr) w) else None
      | _ \<Rightarrow> None)"

definition offer_stopped :: "nat \<Rightarrow> 'db world \<Rightarrow> 'db world option" where
  "offer_stopped i w =
     (case calls w i of
        Some (Offering p j) \<Rightarrow> if stopped w then Some (return_call i (NoRows, Some ErrStopped) w) else None
      | _ \<Rightarrow> None)"

definition take_result :: "nat \<Rightarrow> result \<Rightarrow> 'db world \<Rightarrow> 'db world" where
  "take_result i r w = return_call i r (w\<lparr>results := (results w)(i := None)\<rparr>)"

definition wait_result :: "nat \<Rightarrow> 'db world \<Rightarrow> 'db world option" where
  "wait_result i w =
     (case calls w i of
        Some (Waiting j) \<Rightarrow> (case results w i of Some r \<Rightarrow> Some (take_result i r w) | None \<Rightarrow> None)
      | _ \<Rightarrow> None)"

definition wait_stopped :: "nat \<Rightarrow> 'db world \<Rightarrow> 'db world option" where
  "wait_stopped i w =
     (case calls w i of
        Some (Waiting j) \<Rightarrow>
          if stopped w then
            Some (case results w i of Some r \<Rightarrow> take_result i r w | None \<Rightarrow> return_call i (NoRows, Some ErrStopped) w)
          else None
      | _ \<Rightarrow> None)"

definition wait_done :: "nat \<Rightarrow> 'db world \<Rightarrow> 'db world option" where
  "wait_done i w =
     (case calls w i of
        Some (Waiting j) \<Rightarrow> if ctx_done w i then Some (return_call i (NoRows, Some CtxErr) w) else None
      | _ \<Rightarrow> None)"

section \<open>The scheduler goroutine\<close>

definition take_high :: "bool \<Rightarrow> 'db world \<Rightarrow> 'db world option" where
  "take_high draining w =
     (case highPri w of j # js \<Rightarrow> Some (w\<lparr>highPri := js, pc := Received j draining\<rparr>) | [] \<Rightarrow> None)"

definition take_low :: "bool \<Rightarrow> 'db world \<Rightarrow> 'db world option" where
  "take_low draining w =
     (case lowPri w of j # js \<Rightarrow> Some (w\<lparr>lowPri := js, pc := Received j draining\<rparr>) | [] \<Rightarrow> None)"

text \<open>The outer \<^verbatim>\<open>select\<close> of \<^verbatim>\<open>Run\<close>, then the three cases of the inner one.\<close>

definition run_top :: "'db world \<Rightarrow> 'db world option" where
  "run_top w =
     (if is_Top (pc w) then case take_high False w of Some w' \<Rightarrow> Some w' | None \<Rightarrow> Some (w\<lparr>pc := Inner\<rparr>) else None)"

definition run_high :: "'db world \<Rightarrow> 'db world option" where
  "run_high w = (if is_Inner (pc w) then take_high False w else None)"

definition run_low :: "'db world \<Rightarrow> 'db world option" where
  "run_low w = (if is_Inner (pc w) then take_low False w else None)"

definition run_exit :: "'db world \<Rightarrow> 'db world option" where
  "run_exit w = (if is_Inner (pc w) \<and> run_done w then Some (w\<lparr>pc := Draining\<rparr>) else None)"

definition drain_high :: "'db world \<Rightarrow> 'db world option" where
  "drain_high w =
     (if is_Draining (pc w) then
        case take_high True w of Some w' \<Rightarrow> Some w' | None \<Rightarrow> Some (w\<lparr>pc := DrainingLow\<rparr>)
      else None)"

definition drain_low :: "'db world \<Rightarrow> 'db world option" where
  "drain_low w =
     (if is_DrainingLow (pc w) then
        case take_low True w of Some w' \<Rightarrow> Some w' | None \<Rightarrow> Some (w\<lparr>pc := Closing\<rparr>)
      else None)"

definition run_close :: "'db world \<Rightarrow> 'db world option" where
  "run_close w = (if is_Closing (pc w) then Some (w\<lparr>stopped := True, pc := Exited\<rparr>) else None)"

text \<open>\<^verbatim>\<open>execute\<close> up to the call of the job's function, and from there on.\<close>

definition op_label :: "'db job \<Rightarrow> string" where
  "op_label j = (if j_label j = [] then ''unknown'' else j_label j)"

definition execute_begin :: "gotime \<Rightarrow> 'db world \<Rightarrow> 'db world option" where
  "execute_begin now w =
     (case pc w of
        Received j draining \<Rightarrow>
          Some (w\<lparr>curLabel := op_label j, curStart := now, curSeq := u64 (curSeq w + 1), pc := Running j now draining\<rparr>)
      | _ \<Rightarrow> None)"

definition logSlowWrite :: "'db world \<Rightarrow> string \<Rightarrow> duration \<Rightarrow> duration \<Rightarrow> int \<Rightarrow> log_line list" where
  "logSlowWrite w label dur wait rows =
     (if dur < slowThreshold w then []
      else [SlowWrite (if dur \<ge> reportThreshold w then LevelError else LevelWarn) label dur wait
              (if rows \<noteq> NoRows then Some rows else None)])"

definition execute_end :: "gotime \<Rightarrow> 'db world \<Rightarrow> 'db world option" where
  "execute_end now w =
     (case pc w of
        Running j start draining \<Rightarrow>
          (case j_fn j (db w) of (d, rows, err) \<Rightarrow>
             let dur = time_sub now start; wait = time_sub start (j_enqueuedAt j); r = (rows, map_option JobErr err) in
             Some (w\<lparr>curLabel := [], db := d, results := (results w)(j_id j \<mapsto> r), history := history w @ [(j, r)],
                logs := logs w @ logSlowWrite w (op_label j) dur wait rows
                  @ (if wait \<ge> slowThreshold w then [SlowWait (op_label j) wait dur] else []),
                pc := (if draining then Draining else Top)\<rparr>))
      | _ \<Rightarrow> None)"

text \<open>One tick of the watchdog.\<close>

definition watchdog_tick :: "gotime \<Rightarrow> 'db world \<Rightarrow> 'db world" where
  "watchdog_tick now w =
     (if curLabel w = [] \<or> IsZero (curStart w) then w
      else let age = time_sub now (curStart w) in
        if age < stuckThreshold w \<or> curSeq w = dumpedAt w then w
        else w\<lparr>logs := logs w @ [Wedge (curLabel w) age (length (highPri w)) (length (lowPri w))], dumpedAt := curSeq w\<rparr>)"

section \<open>Steps\<close>

text \<open>
  The environment starts calls and cancels contexts. Every other action is a step of a caller, the
  scheduler goroutine or the watchdog.
\<close>

datatype 'db action =
    Call nat Priority string "'db write_fn" | Cancel nat | CancelRun
  | Enter nat gotime | Offer nat | OfferDone nat | OfferStopped nat | WaitResult nat | WaitStopped nat | WaitDone nat
  | RunTop | RunHigh | RunLow | RunExit | DrainHigh | DrainLow | RunClose | Begin gotime | End gotime
  | Tick gotime

fun sched_step :: "'db action \<Rightarrow> 'db world \<Rightarrow> 'db world option" where
  "sched_step (Call i p label fn) w =
     (if Option.is_none (calls w i) then Some (w\<lparr>calls := (calls w)(i \<mapsto> Entering p label fn)\<rparr>) else None)"
| "sched_step (Cancel i) w = Some (w\<lparr>ctx_done := (ctx_done w)(i := True)\<rparr>)"
| "sched_step CancelRun w = Some (w\<lparr>run_done := True\<rparr>)"
| "sched_step (Enter i now) w = submit_enter i now w"
| "sched_step (Offer i) w = submit_offer i w"
| "sched_step (OfferDone i) w = offer_done i w"
| "sched_step (OfferStopped i) w = offer_stopped i w"
| "sched_step (WaitResult i) w = wait_result i w"
| "sched_step (WaitStopped i) w = wait_stopped i w"
| "sched_step (WaitDone i) w = wait_done i w"
| "sched_step RunTop w = run_top w"
| "sched_step RunHigh w = run_high w"
| "sched_step RunLow w = run_low w"
| "sched_step RunExit w = run_exit w"
| "sched_step DrainHigh w = drain_high w"
| "sched_step DrainLow w = drain_low w"
| "sched_step RunClose w = run_close w"
| "sched_step (Begin now) w = execute_begin now w"
| "sched_step (End now) w = execute_end now w"
| "sched_step (Tick now) w = Some (watchdog_tick now w)"

inductive reaches :: "'db world \<Rightarrow> 'db world \<Rightarrow> bool" where
  reaches_refl: "reaches w w"
| reaches_step: "reaches w w' \<Longrightarrow> sched_step a w' = Some w'' \<Longrightarrow> reaches w w''"

fun exec :: "'db action list \<Rightarrow> 'db world \<Rightarrow> 'db world option" where
  "exec [] w = Some w"
| "exec (a # as) w = (case sched_step a w of None \<Rightarrow> None | Some w' \<Rightarrow> exec as w')"

lemma exec_append: "exec (as @ bs) w = (case exec as w of None \<Rightarrow> None | Some w' \<Rightarrow> exec bs w')"
  by (induction as arbitrary: w) (auto split: option.splits)

lemma exec_reaches: "exec as w = Some w' \<Longrightarrow> reaches w w'"
proof (induction as arbitrary: w' rule: rev_induct)
  case (snoc a as)
  then show ?case by (auto simp: exec_append split: option.splits intro: reaches_step)
qed (simp add: reaches_refl)

lemma reaches_inv:
  "reaches w w' \<Longrightarrow> P w \<Longrightarrow> (\<And>a u u'. P u \<Longrightarrow> sched_step a u = Some u' \<Longrightarrow> P u') \<Longrightarrow> P w'"
  by (induction rule: reaches.induct) blast+

lemmas step_defs = submit_enter_def submit_offer_def offer_done_def offer_stopped_def wait_result_def wait_stopped_def
  wait_done_def run_top_def run_high_def run_low_def run_exit_def drain_high_def drain_low_def run_close_def
  execute_begin_def execute_end_def watchdog_tick_def take_high_def take_low_def take_result_def return_call_def

lemmas step_splits = option.splits call.splits pc.splits list.splits if_splits prod.splits

section \<open>The invariant\<close>

text \<open>The jobs accepted so far: queued, in flight or run.\<close>

definition in_flight :: "'db pc \<Rightarrow> 'db job list" where
  "in_flight c = (case c of Received j _ \<Rightarrow> [j] | Running j _ _ \<Rightarrow> [j] | _ \<Rightarrow> [])"

definition accepted :: "'db world \<Rightarrow> 'db job multiset" where
  "accepted w = mset (highPri w) + mset (lowPri w) + mset (in_flight (pc w)) + mset (map fst (history w))"

text \<open>Running a list of jobs one after the other.\<close>

fun replay :: "'db \<Rightarrow> 'db job list \<Rightarrow> 'db \<times> result list" where
  "replay d [] = (d, [])"
| "replay d (j # js) =
     (case j_fn j d of (d', rows, err) \<Rightarrow>
        case replay d' js of (d'', rs) \<Rightarrow> (d'', (rows, map_option JobErr err) # rs))"

definition ran :: "'db world \<Rightarrow> nat list" where
  "ran w = map (j_id \<circ> fst) (history w)"

definition result_of :: "'db world \<Rightarrow> nat \<Rightarrow> result option" where
  "result_of w i = map_of (map (\<lambda>(j, r). (j_id j, r)) (history w)) i"

definition times :: "'db world \<Rightarrow> nat \<Rightarrow> nat" where
  "times w i = count (image_mset j_id (accepted w)) i"

fun call_ok :: "'db world \<Rightarrow> nat \<Rightarrow> 'db call option \<Rightarrow> bool" where
  "call_ok w i None = (times w i = 0)"
| "call_ok w i (Some (Entering p label fn)) = (times w i = 0)"
| "call_ok w i (Some (Offering p j)) = (times w i = 0 \<and> j_id j = i)"
| "call_ok w i (Some (Waiting j)) = (times w i = 1 \<and> j_id j = i \<and> j \<in># accepted w)"
| "call_ok w i (Some (Returned r)) = (times w i \<le> 1)"

definition jobs_inv :: "'db world \<Rightarrow> bool" where
  "jobs_inv w \<longleftrightarrow> (\<forall>i. call_ok w i (calls w i))"

fun answer_ok :: "'db world \<Rightarrow> nat \<Rightarrow> 'db call option \<Rightarrow> bool" where
  "answer_ok w i (Some (Waiting j)) = (results w i = result_of w i)"
| "answer_ok w i (Some (Returned r)) =
     (case snd r of Some ErrStopped \<Rightarrow> stopped w \<and> result_of w i = None | Some CtxErr \<Rightarrow> True | _ \<Rightarrow> result_of w i = Some r)"
| "answer_ok w i _ = (results w i = None)"

definition results_inv :: "'db world \<Rightarrow> bool" where
  "results_inv w \<longleftrightarrow> (\<forall>i. answer_ok w i (calls w i)) \<and> stopped w = is_Exited (pc w)"

definition db_inv :: "'db \<Rightarrow> 'db world \<Rightarrow> bool" where
  "db_inv d w \<longleftrightarrow> replay d (map fst (history w)) = (db w, map snd (history w))"

lemma replay_snoc:
  "replay d (js @ [j]) = (case replay d js of (d', rs) \<Rightarrow> case j_fn j d' of (d'', rows, err) \<Rightarrow> (d'', rs @ [(rows, map_option JobErr err)]))"
  by (induction js arbitrary: d) (auto split: prod.splits)

lemma sched_step_cases:
  assumes "sched_step a w = Some w'"
  obtains (Call) i p label fn where "calls w i = None" "w' = w\<lparr>calls := (calls w)(i \<mapsto> Entering p label fn)\<rparr>"
    | (Context) f b where "w' = w\<lparr>ctx_done := f, run_done := b\<rparr>"
    | (Enter) i now p label fn where "calls w i = Some (Entering p label fn)" "\<not> stopped w"
        "w' = w\<lparr>calls := (calls w)(i \<mapsto> Offering p \<lparr>j_id = i, j_fn = fn, j_label = label, j_enqueuedAt = now\<rparr>)\<rparr>"
    | (Refuse) i r c where "calls w i = Some c" "\<not> is_Waiting c" "\<not> is_Returned c" "snd r = Some CtxErr \<or> snd r = Some ErrStopped \<and> stopped w"
        "w' = w\<lparr>calls := (calls w)(i \<mapsto> Returned r)\<rparr>"
    | (Offer) i p j hs ls where "calls w i = Some (Offering p j)" "a = action.Offer i"
        "hs = highPri w @ [j] \<and> ls = lowPri w \<or> hs = highPri w \<and> ls = lowPri w @ [j]"
        "w' = w\<lparr>calls := (calls w)(i \<mapsto> Waiting j), highPri := hs, lowPri := ls\<rparr>"
    | (Answer) i j r where "calls w i = Some (Waiting j)" "results w i = Some r"
        "w' = w\<lparr>calls := (calls w)(i \<mapsto> Returned r), results := (results w)(i := None)\<rparr>"
    | (GiveUp) i j r where "calls w i = Some (Waiting j)" "r = (NoRows, Some CtxErr) \<or> r = (NoRows, Some ErrStopped) \<and> stopped w \<and> results w i = None"
        "w' = w\<lparr>calls := (calls w)(i \<mapsto> Returned r)\<rparr>"
    | (High) j js b where "pc w = Top \<or> pc w = Inner \<or> pc w = Draining" "highPri w = j # js" "w' = w\<lparr>highPri := js, pc := Received j b\<rparr>"
    | (Low) j js b where "pc w = Inner \<or> pc w = DrainingLow" "a = RunLow \<or> a = DrainLow" "lowPri w = j # js" "w' = w\<lparr>lowPri := js, pc := Received j b\<rparr>"
    | (Move) c where "(pc w, c) \<in> {(Top, Inner), (Inner, Draining), (Draining, DrainingLow), (DrainingLow, Closing)}"
        "pc w = Top \<or> pc w = Draining \<Longrightarrow> highPri w = []" "w' = w\<lparr>pc := c\<rparr>"
    | (Close) "pc w = Closing" "w' = w\<lparr>stopped := True, pc := Exited\<rparr>"
    | (Begin) j b now where "pc w = Received j b" "a = action.Begin now"
        "w' = w\<lparr>curLabel := op_label j, curStart := now, curSeq := u64 (curSeq w + 1), pc := Running j now b\<rparr>"
    | (End) j start b d rows err r l where "pc w = Running j start b" "j_fn j (db w) = (d, rows, err)" "r = (rows, map_option JobErr err)"
        "w' = w\<lparr>curLabel := [], db := d, results := (results w)(j_id j \<mapsto> r), history := history w @ [(j, r)], logs := l,
                pc := (if b then Draining else Top)\<rparr>"
    | (Watchdog) l n where "w' = w\<lparr>logs := l, dumpedAt := n\<rparr>"
proof (cases a)
  case (Call i p label fn)
  then show ?thesis using assms by (auto simp: Option.is_none_def split: if_splits intro: that(1))
next
  case (Cancel i)
  have "w' = w\<lparr>ctx_done := (ctx_done w)(i := True), run_done := run_done w\<rparr>" using assms Cancel by (cases w) auto
  then show ?thesis by (rule that(2))
next
  case CancelRun
  have "w' = w\<lparr>ctx_done := ctx_done w, run_done := True\<rparr>" using assms CancelRun by (cases w) auto
  then show ?thesis by (rule that(2))
next
  case (Enter i now)
  then obtain p label fn where "calls w i = Some (Entering p label fn)"
    using assms by (auto simp: submit_enter_def split: option.splits call.splits)
  then show ?thesis
    using assms Enter that(3) [of i p label fn now] that(4) [of i "Entering p label fn" "(NoRows, Some ErrStopped)"]
    by (auto simp: submit_enter_def return_call_def split: if_splits)
next
  case (Offer i)
  then obtain p j where c: "calls w i = Some (Offering p j)"
    using assms by (auto simp: submit_offer_def split: option.splits call.splits)
  show ?thesis
    using assms Offer c that(5) [OF c Offer, of "highPri w @ [j]" "lowPri w"] that(5) [OF c Offer, of "highPri w" "lowPri w @ [j]"]
    by (cases w) (auto simp: submit_offer_def Let_def split: if_splits)
next
  case (OfferDone i)
  then obtain p j where "calls w i = Some (Offering p j)"
    using assms by (auto simp: offer_done_def split: option.splits call.splits)
  then show ?thesis using assms OfferDone that(4) [of i "Offering p j" "(NoRows, Some CtxErr)"]
    by (auto simp: offer_done_def return_call_def split: if_splits)
next
  case (OfferStopped i)
  then obtain p j where "calls w i = Some (Offering p j)"
    using assms by (auto simp: offer_stopped_def split: option.splits call.splits)
  then show ?thesis using assms OfferStopped that(4) [of i "Offering p j" "(NoRows, Some ErrStopped)"]
    by (auto simp: offer_stopped_def return_call_def split: if_splits)
next
  case (WaitResult i)
  then show ?thesis using assms that(6) by (auto simp: wait_result_def take_result_def return_call_def split: option.splits call.splits if_splits)
next
  case (WaitStopped i)
  then obtain j where "calls w i = Some (Waiting j)" "stopped w"
    using assms by (auto simp: wait_stopped_def split: option.splits call.splits if_splits)
  then show ?thesis using assms WaitStopped that(6) [of i j] that(7) [of i j "(NoRows, Some ErrStopped)"]
    by (auto simp: wait_stopped_def take_result_def return_call_def split: option.splits)
next
  case (WaitDone i)
  then obtain j where "calls w i = Some (Waiting j)"
    using assms by (auto simp: wait_done_def split: option.splits call.splits)
  then show ?thesis using assms WaitDone that(7) [of i j "(NoRows, Some CtxErr)"]
    by (auto simp: wait_done_def return_call_def split: if_splits)
next
  case RunTop
  then show ?thesis using assms that(8,10) by (auto simp: run_top_def take_high_def is_Top_def split: option.splits list.splits if_splits)
next
  case RunHigh
  then show ?thesis using assms that(8) by (auto simp: run_high_def take_high_def is_Inner_def split: option.splits list.splits if_splits)
next
  case RunLow
  then show ?thesis using assms that(9) by (auto simp: run_low_def take_low_def is_Inner_def split: option.splits list.splits if_splits)
next
  case RunExit
  then show ?thesis using assms that(10) by (auto simp: run_exit_def is_Inner_def split: if_splits)
next
  case DrainHigh
  then show ?thesis using assms that(8,10) by (auto simp: drain_high_def take_high_def is_Draining_def split: option.splits list.splits if_splits)
next
  case DrainLow
  then show ?thesis using assms that(9,10) by (auto simp: drain_low_def take_low_def is_DrainingLow_def split: option.splits list.splits if_splits)
next
  case RunClose
  then show ?thesis using assms that(11) by (auto simp: run_close_def is_Closing_def split: if_splits)
next
  case (Begin now)
  then show ?thesis using assms that(12) by (auto simp: execute_begin_def split: pc.splits)
next
  case (End now)
  then show ?thesis using assms that(13) by (auto simp: execute_end_def Let_def split: pc.splits prod.splits)
next
  case (Tick now)
  have "w' = w\<lparr>logs := logs w', dumpedAt := dumpedAt w'\<rparr>"
    using assms Tick by (auto simp: watchdog_tick_def Let_def)
  then show ?thesis by (rule that(14))
qed

lemma db_inv_step:
  assumes "db_inv d w" and "sched_step a w = Some w'"
  shows "db_inv d w'"
  using assms(2) by (cases rule: sched_step_cases) (use assms(1) in \<open>auto simp: db_inv_def replay_snoc\<close>)

lemma calls_step:
  assumes "sched_step a w = Some w'" and "calls w i = Some (Returned r)"
  shows "calls w' i = Some (Returned r)"
  using assms by (cases rule: sched_step_cases) auto

lemma call_ok_frame: "accepted w' = accepted w \<Longrightarrow> call_ok w' i c = call_ok w i c"
  by (cases "(w, i, c)" rule: call_ok.cases) (simp_all add: times_def)

lemma jobs_inv_call:
  assumes "jobs_inv w" and acc: "accepted w' = accepted w" and "calls w' = (calls w)(i := c)" and "call_ok w i c"
  shows "jobs_inv w'"
proof -
  have "call_ok w k (calls w' k)" for k using assms(1,3,4) by (auto simp: jobs_inv_def)
  then show ?thesis using call_ok_frame [OF acc] by (simp only: jobs_inv_def) blast
qed

lemma jobs_inv_frame: "jobs_inv w \<Longrightarrow> accepted w' = accepted w \<Longrightarrow> calls w' = calls w \<Longrightarrow> jobs_inv w'"
  unfolding jobs_inv_def using call_ok_frame by fastforce

lemma call_ok_times: "call_ok w i c \<Longrightarrow> times w i \<le> 1"
  by (cases "(w, i, c)" rule: call_ok.cases) auto

lemma call_ok_fresh: "call_ok w i (Some c) \<Longrightarrow> \<not> is_Waiting c \<Longrightarrow> \<not> is_Returned c \<Longrightarrow> times w i = 0"
  by (cases c) auto

lemma call_ok_known: "call_ok w i c \<Longrightarrow> times w i \<noteq> 0 \<Longrightarrow> \<exists>c'. c = Some c' \<and> (is_Waiting c' \<or> is_Returned c')"
  by (cases "(w, i, c)" rule: call_ok.cases) auto

lemma jobs_invD: "jobs_inv w \<Longrightarrow> calls w i = c \<Longrightarrow> call_ok w i c"
  unfolding jobs_inv_def by blast

lemma results_invD: "results_inv w \<Longrightarrow> calls w i = c \<Longrightarrow> answer_ok w i c"
  unfolding results_inv_def by blast

lemma times_le: "jobs_inv w \<Longrightarrow> times w i \<le> 1"
  using call_ok_times [of w i "calls w i"] by (simp add: jobs_inv_def)

lemma jobs_inv_step:
  assumes inv: "jobs_inv w" and "sched_step a w = Some w'"
  shows "jobs_inv w'"
  using assms(2)
proof (cases rule: sched_step_cases)
  case (Offer i p j hs ls)
  have acc: "accepted w' = add_mset j (accepted w)" using Offer by (auto simp: accepted_def)
  have j: "j_id j = i" "times w i = 0" using inv Offer(1) unfolding jobs_inv_def by (metis call_ok.simps(3))+
  have "times w' k = (if k = i then 1 else times w k)" for k using acc j by (simp add: times_def)
  then have "call_ok w' k c = call_ok w k c" if "k \<noteq> i" for k c
    using that acc j(1) by (cases "(w, k, c)" rule: call_ok.cases) auto
  moreover have "call_ok w' i (Some (Waiting j))" using acc j by (simp add: times_def)
  ultimately show ?thesis using inv Offer(4) by (simp add: jobs_inv_def)
next
  case (Call i p label fn)
  then show ?thesis using inv by (intro jobs_inv_call [OF inv, of _ i]) (auto simp: accepted_def jobs_inv_def dest: spec [of _ i])
next
  case (Enter i now p label fn)
  then show ?thesis using inv by (intro jobs_inv_call [OF inv, of _ i]) (auto simp: accepted_def jobs_inv_def dest: spec [of _ i])
next
  case (Refuse i r c)
  then show ?thesis using inv
    by (intro jobs_inv_call [OF inv, of _ i "Some (Returned r)"]) (auto simp: accepted_def times_le [simplified])
next
  case (Answer i j r)
  then show ?thesis using inv
    by (intro jobs_inv_call [OF inv, of _ i "Some (Returned r)"]) (auto simp: accepted_def times_le [simplified])
next
  case (GiveUp i j r)
  then show ?thesis using inv
    by (intro jobs_inv_call [OF inv, of _ i "Some (Returned r)"]) (auto simp: accepted_def times_le [simplified])
qed (rule jobs_inv_frame [OF inv]; auto simp: accepted_def in_flight_def)+

lemma result_of_ran: "(result_of w i = None) = (i \<notin> set (ran w))"
  by (auto simp: result_of_def ran_def map_of_eq_None_iff image_image case_prod_beta)

lemma answer_ok_frame:
  "results w' i = results w i \<Longrightarrow> result_of w' i = result_of w i \<Longrightarrow> stopped w' = stopped w \<or> \<not> stopped w \<Longrightarrow> answer_ok w i c \<Longrightarrow> answer_ok w' i c"
  by (cases "(w, i, c)" rule: answer_ok.cases) (auto split: option.splits write_error.splits)

lemma results_inv_frame:
  "results_inv w \<Longrightarrow> results w' = results w \<Longrightarrow> history w' = history w \<Longrightarrow> calls w' = calls w \<Longrightarrow> stopped w' = is_Exited (pc w') \<Longrightarrow>
   stopped w' = stopped w \<or> \<not> stopped w \<Longrightarrow> results_inv w'"
  using answer_ok_frame [of w' _ w] by (auto simp: results_inv_def result_of_def)

lemma results_inv_call:
  assumes "results_inv w" and "\<And>k. k \<noteq> i \<Longrightarrow> results w' k = results w k" and "history w' = history w" and "stopped w' = stopped w"
    and "pc w' = pc w" and "calls w' = (calls w)(i \<mapsto> c)" and "answer_ok w' i (Some c)"
  shows "results_inv w'"
proof -
  have "answer_ok w' k (calls w k)" if "k \<noteq> i" for k
    using assms(1) by (intro answer_ok_frame [OF assms(2) [OF that]]) (simp_all add: assms(3,4) results_inv_def result_of_def)
  then show ?thesis using assms(1,4-7) by (simp add: results_inv_def)
qed

text \<open>A job that is queued or in flight has not run; one that has run is no longer queued.\<close>

lemma times_ran: "times w i = count (image_mset j_id (mset (highPri w) + mset (lowPri w) + mset (in_flight (pc w)))) i + count (mset (ran w)) i"
  by (simp add: times_def accepted_def ran_def image_mset_union flip: mset_map)

lemma not_ran: "times w i = 0 \<Longrightarrow> result_of w i = None"
  by (simp add: times_ran result_of_ran)

lemma in_flight_not_ran:
  assumes "jobs_inv w" and "in_flight (pc w) = [j]"
  shows "result_of w (j_id j) = None"
  using times_le [OF assms(1), of "j_id j"] by (simp add: times_ran assms(2) result_of_ran not_in_iff flip: count_mset_0_iff)

lemma result_of_snoc:
  "history w' = history w @ [(j, r)] \<Longrightarrow> result_of w (j_id j) = None \<Longrightarrow> result_of w' = (result_of w)(j_id j \<mapsto> r)"
  by (rule ext) (auto simp: result_of_def map_add_def split: option.splits)

lemma replay_results: "replay d js = (d', rs) \<Longrightarrow> r \<in> set rs \<Longrightarrow> snd r \<noteq> Some ErrStopped \<and> snd r \<noteq> Some CtxErr"
  by (induction js arbitrary: d rs) (auto split: prod.splits)

lemma job_results: "db_inv d w \<Longrightarrow> result_of w i = Some r \<Longrightarrow> snd r \<noteq> Some ErrStopped \<and> snd r \<noteq> Some CtxErr"
  unfolding db_inv_def result_of_def by (drule map_of_SomeD, rule replay_results, assumption) (force simp: image_iff)

lemma results_inv_step:
  assumes inv: "results_inv w" "jobs_inv w" and "sched_step a w = Some w'" and "db_inv d0 w"
  shows "results_inv w'"
  using assms(3)
proof (cases rule: sched_step_cases)
  case (End j start b d rows err r l)
  have no: "result_of w (j_id j) = None" using End(1) by (intro in_flight_not_ran [OF inv(2)]) (simp add: in_flight_def)
  have res: "result_of w' = (result_of w)(j_id j \<mapsto> r)" by (rule result_of_snoc [OF _ no]) (simp add: End(4))
  have "times w (j_id j) \<noteq> 0" using End(1) by (simp add: times_def accepted_def in_flight_def)
  then obtain c where c: "calls w (j_id j) = Some c" "is_Waiting c \<or> is_Returned c"
    using call_ok_known [OF jobs_invD [OF inv(2) refl]] by blast
  have ns: "\<not> stopped w" "stopped w' = stopped w" using inv(1) End(1,4) by (auto simp: results_inv_def)
  have "answer_ok w' i (calls w i)" for i
  proof (cases "i = j_id j")
    case True
    have "answer_ok w i (Some c)" using results_invD [OF inv(1) c(1)] True by simp
    then show ?thesis using True c res no ns End(4)
      by (cases c) (auto split: option.splits write_error.splits)
  next
    case False
    then have "results w' i = results w i" "result_of w' i = result_of w i" using res End(4) by simp_all
    then show ?thesis using answer_ok_frame [OF _ _ _ results_invD [OF inv(1) refl]] ns(2) by blast
  qed
  then show ?thesis using inv(1) End by (simp add: results_inv_def)
next
  case (Offer i p j hs ls)
  have "results w i = None" "times w i = 0"
    using results_invD [OF inv(1) Offer(1)] jobs_invD [OF inv(2) Offer(1)] by simp_all
  moreover have "result_of w' i = result_of w i" using Offer(4) by (simp add: result_of_def)
  moreover have "results w' i = results w i" using Offer(4) by simp
  ultimately have "answer_ok w' i (Some (Waiting j))" using not_ran [of w i] by simp
  then show ?thesis using Offer(4) by (intro results_inv_call [OF inv(1), where i = i and c = "Waiting j"]) simp_all
next
  case (Call i p label fn)
  have "results w i = None" using results_invD [OF inv(1) Call(1)] by simp
  then show ?thesis using Call by (intro results_inv_call [OF inv(1), where i = i and c = "Entering p label fn"]) simp_all
next
  case (Enter i now p label fn)
  have "results w i = None" using results_invD [OF inv(1) Enter(1)] by simp
  then show ?thesis using Enter
    by (intro results_inv_call [OF inv(1), where i = i
          and c = "Offering p \<lparr>j_id = i, j_fn = fn, j_label = label, j_enqueuedAt = now\<rparr>"]) simp_all
next
  case (Refuse i r c)
  have "times w i = 0" by (rule call_ok_fresh [OF jobs_invD [OF inv(2) Refuse(1)] Refuse(2,3)])
  then have "result_of w' i = None" using Refuse(5) not_ran [of w i] by (simp add: result_of_def)
  then show ?thesis using Refuse by (intro results_inv_call [OF inv(1), of i]) auto
next
  case (Answer i j r)
  have "result_of w i = Some r" using results_invD [OF inv(1) Answer(1)] Answer(2) by simp
  then have "result_of w' i = Some r" using Answer(3) by (simp add: result_of_def)
  moreover have "snd r \<noteq> Some ErrStopped" using job_results [OF assms(4)] \<open>result_of w i = Some r\<close> by blast
  ultimately show ?thesis using Answer by (intro results_inv_call [OF inv(1), of i]) (auto split: option.splits write_error.splits)
next
  case (GiveUp i j r)
  have "results w i = result_of w i" using results_invD [OF inv(1) GiveUp(1)] by simp
  then have "result_of w' i = results w i" using GiveUp(3) by (simp add: result_of_def)
  then show ?thesis using GiveUp by (intro results_inv_call [OF inv(1), of i]) auto
qed (rule results_inv_frame [OF inv(1)]; use inv(1) in \<open>auto simp: results_inv_def\<close>)+

definition sched_inv :: "'db \<Rightarrow> 'db world \<Rightarrow> bool" where
  "sched_inv d w \<longleftrightarrow> db_inv d w \<and> jobs_inv w \<and> results_inv w"

lemma sched_inv_New: "sched_inv d (New d)"
proof -
  have "call_ok (New d) i None" for i :: nat by (simp add: times_def accepted_def New_def in_flight_def)
  moreover have "answer_ok (New d) i None" for i by (simp add: New_def)
  ultimately show ?thesis by (simp add: sched_inv_def db_inv_def jobs_inv_def results_inv_def) (simp add: New_def)
qed

lemma sched_inv_step:
  assumes "sched_inv d w" and "sched_step a w = Some w'"
  shows "sched_inv d w'"
proof -
  note inv = assms(1) [unfolded sched_inv_def]
  show ?thesis unfolding sched_inv_def
    using db_inv_step [OF _ assms(2)] jobs_inv_step [OF _ assms(2)] results_inv_step [OF _ _ assms(2), of d] inv by simp
qed

lemma sched_inv_reaches: "reaches w w' \<Longrightarrow> sched_inv d w \<Longrightarrow> sched_inv d w'"
  by (erule reaches_inv) (assumption, rule sched_inv_step)

lemma New_reaches: "reaches (New d) w \<Longrightarrow> sched_inv d w"
  by (rule sched_inv_reaches [OF _ sched_inv_New])

lemma Returned_reaches: "reaches w w' \<Longrightarrow> calls w i = Some (Returned r) \<Longrightarrow> calls w' i = Some (Returned r)"
  by (erule reaches_inv) (assumption, rule calls_step)

section \<open>Properties\<close>

definition demo_job :: "int list write_fn" where
  "demo_job d = (1 # d, 1, None)"

text \<open>
  C8: \<^verbatim>\<open>ErrStopped\<close> means the write did not happen. Once a caller has been told that the scheduler
  stopped, its job has not run and does not run later, in any interleaving of callers, scheduler
  and shutdown, for jobs that do not return \<^verbatim>\<open>ErrStopped\<close> themselves.
\<close>

theorem ErrStopped_never_runs:
  assumes "reaches (New d) w" and "calls w i = Some (Returned (rows, Some ErrStopped))" and "reaches w w'"
  shows "i \<notin> set (ran w')"
proof -
  have "results_inv w'" using sched_inv_reaches [OF assms(3) New_reaches [OF assms(1)]] by (simp add: sched_inv_def)
  then have "answer_ok w' i (Some (Returned (rows, Some ErrStopped)))"
    using Returned_reaches [OF assms(3,2)] by (rule results_invD)
  then show ?thesis by (simp add: result_of_ran)
qed

text \<open>A caller whose job enters its queue after \<open>drain\<close> has found it empty, before \<open>stopped\<close> is closed.\<close>

definition late_submit :: "int list action list" where
  "late_submit = [CancelRun, RunTop, RunExit, DrainHigh, DrainLow, Call 7 High ''late'' demo_job, Enter 7 5, Offer 7,
     RunClose, WaitStopped 7]"

definition returned :: "'db world \<Rightarrow> nat \<Rightarrow> result option" where
  "returned w i = (case calls w i of Some (Returned r) \<Rightarrow> Some r | _ \<Rightarrow> None)"

lemma returned_Some: "returned w i = Some r \<Longrightarrow> calls w i = Some (Returned r)"
  by (auto simp: returned_def split: option.splits call.splits)

theorem ErrStopped_never_runs_witness:
  "\<exists>w. reaches (New ([] :: int list)) w \<and> calls w 7 = Some (Returned (NoRows, Some ErrStopped)) \<and> 7 \<notin> set (ran w)"
proof -
  have "\<not> Option.is_none (exec late_submit (New ([] :: int list)))" by code_simp
  then obtain w where w: "exec late_submit (New ([] :: int list)) = Some w" by (auto simp: Option.is_none_def)
  have "returned (the (exec late_submit (New ([] :: int list)))) 7 = Some (NoRows, Some ErrStopped)" by code_simp
  then have c: "calls w 7 = Some (Returned (NoRows, Some ErrStopped))" using w by (auto intro: returned_Some)
  have "7 \<notin> set (ran w)" by (rule ErrStopped_never_runs [OF exec_reaches [OF w] c reaches_refl])
  with exec_reaches [OF w] c show ?thesis by blast
qed

text \<open>
  C9: writes are serial, and each caller gets the outcome of its own job. In every reachable state
  the database is the one that running the finished jobs one after the other gives; no job runs
  twice; and a call that returned neither \<^verbatim>\<open>ErrStopped\<close> nor its context's error returned exactly
  what its job, which has run, returned.
\<close>

theorem writes_serial:
  assumes "reaches (New d) w"
  shows "replay d (map fst (history w)) = (db w, map snd (history w)) \<and> distinct (ran w)
    \<and> (\<forall>i r. calls w i = Some (Returned r) \<longrightarrow> snd r \<notin> {Some ErrStopped, Some CtxErr} \<longrightarrow> result_of w i = Some r)"
proof -
  note inv = New_reaches [OF assms, unfolded sched_inv_def]
  have "count (mset (ran w)) i \<le> 1" for i using times_le [of w i] inv by (simp add: times_ran)
  then have "distinct (ran w)" by (metis One_nat_def count_mset distinct_count_atmost_1 le_Suc_eq le_zero_eq count_mset_0_iff set_mset_mset not_in_iff)
  moreover have "result_of w i = Some r" if "calls w i = Some (Returned r)" "snd r \<notin> {Some ErrStopped, Some CtxErr}" for i r
    using results_invD [OF _ that(1)] inv that(2) by (auto split: option.splits write_error.splits)
  ultimately show ?thesis using inv by (simp add: db_inv_def)
qed

definition two_writes :: "int list action list" where
  "two_writes = [Call 1 Low ''a'' demo_job, Call 2 High ''b'' (Submit_fn (\<lambda>d. (2 # d, Some ''disk full''))), Enter 1 3, Enter 2 3, Offer 1,
     Offer 2, RunTop, Begin 4, End 5, RunTop, RunLow, Begin 6, WaitResult 2, End 7, WaitResult 1]"

theorem writes_serial_witness:
  "\<exists>w. reaches (New ([] :: int list)) w \<and> db w = [1, 2] \<and> result_of w 2 = Some (NoRows, Some (JobErr ''disk full''))"
proof -
  let ?w = "the (exec two_writes (New ([] :: int list)))"
  have "\<not> Option.is_none (exec two_writes (New ([] :: int list)))" by code_simp
  then have r: "reaches (New ([] :: int list)) ?w" by (auto simp: Option.is_none_def intro: exec_reaches)
  have "returned ?w 2 = Some (NoRows, Some (JobErr ''disk full''))" and d: "db ?w = [1, 2]" by code_simp+
  then have "calls ?w 2 = Some (Returned (NoRows, Some (JobErr ''disk full'')))" by (intro returned_Some)
  then have "result_of ?w 2 = Some (NoRows, Some (JobErr ''disk full''))" using writes_serial [OF r] by simp
  with r d show ?thesis by blast
qed

section \<open>Precedence\<close>

text \<open>How many low priority jobs the scheduler takes up along a run.\<close>

fun low_starts :: "'db action list \<Rightarrow> 'db world \<Rightarrow> nat" where
  "low_starts [] w = 0"
| "low_starts (a # as) w =
     (case sched_step a w of
        None \<Rightarrow> 0
      | Some w' \<Rightarrow> (if length (lowPri w') < length (lowPri w) then 1 else 0) + low_starts as w')"

definition may_take_low :: "'db world \<Rightarrow> nat" where
  "may_take_low w = (if is_Inner (pc w) \<or> is_DrainingLow (pc w) then 1 else 0)"

lemma low_start_step:
  assumes "sched_step a w = Some w'" and "highPri w \<noteq> []"
  shows "(if length (lowPri w') < length (lowPri w) then 1 else 0) + may_take_low w' \<le> may_take_low w"
  using assms(1) by (cases rule: sched_step_cases) (use assms(2) in \<open>auto simp: may_take_low_def\<close>)

definition started :: "'db world \<Rightarrow> nat set" where
  "started w = set (ran w) \<union> j_id ` set (in_flight (pc w))"

lemma started_step: "sched_step a w = Some w' \<Longrightarrow> started w \<subseteq> started w'"
  by (cases rule: sched_step_cases) (auto simp: started_def ran_def in_flight_def)

lemma started_exec: "exec as w = Some w' \<Longrightarrow> started w \<subseteq> started w'"
proof (induction as arbitrary: w)
  case (Cons a as)
  then show ?case by (auto split: option.splits dest: started_step)
qed simp

lemma high_step:
  "sched_step a w = Some w' \<Longrightarrow> j \<in> set (highPri w) \<Longrightarrow> j \<in> set (highPri w') \<or> j_id j \<in> started w'"
  by (cases rule: sched_step_cases) (auto simp: started_def in_flight_def)

lemma queued_not_started:
  assumes "jobs_inv w" and "j \<in> set (highPri w)"
  shows "j_id j \<notin> started w"
proof
  assume "j_id j \<in> started w"
  then have "0 < count (mset (ran w)) (j_id j) \<or> 0 < count (image_mset j_id (mset (in_flight (pc w)))) (j_id j)"
    unfolding started_def count_greater_zero_iff by auto
  moreover have "0 < count (image_mset j_id (mset (highPri w))) (j_id j)" using assms(2) unfolding count_greater_zero_iff by auto
  ultimately show False using times_le [OF assms(1), of "j_id j"] unfolding times_ran image_mset_union count_union by linarith
qed

lemma low_starts_le:
  "sched_inv d w \<Longrightarrow> exec as w = Some w' \<Longrightarrow> j \<in> set (highPri w) \<Longrightarrow> j \<in> set (highPri w') \<Longrightarrow> low_starts as w \<le> may_take_low w"
proof (induction as arbitrary: w)
  case (Cons a as)
  then obtain u where u: "sched_step a w = Some u" "exec as u = Some w'" by (auto split: option.splits)
  have inv: "sched_inv d u" "sched_inv d w'"
    using sched_inv_step [OF Cons.prems(1) u(1)] sched_inv_reaches [OF exec_reaches [OF u(2)]] by auto
  have "j_id j \<notin> started w'" using inv(2) Cons.prems(4) by (simp add: sched_inv_def queued_not_started)
  then have "j \<in> set (highPri u)" using high_step [OF u(1) Cons.prems(3)] started_exec [OF u(2)] by blast
  then have "low_starts as u \<le> may_take_low u" using Cons.IH [OF inv(1) u(2)] Cons.prems(4) by blast
  moreover have "highPri w \<noteq> []" using Cons.prems(3) by auto
  ultimately show ?case using low_start_step [OF u(1)] u(1) by fastforce
qed simp

text \<open>
  C10: a high priority write does not queue behind low priority ones. While it waits in its queue, the
  scheduler takes up no low priority job at all, except for one that it can already be choosing when
  the job arrives: at the inner \<^verbatim>\<open>select\<close> of \<^verbatim>\<open>Run\<close> or the second \<^verbatim>\<open>select\<close> of \<^verbatim>\<open>drain\<close>.
\<close>

theorem high_priority_next:
  assumes "reaches (New d) w" and "exec as w = Some w'" and "j \<in> set (highPri w)" and "j \<in> set (highPri w')"
  shows "low_starts as w \<le> (if is_Inner (pc w) \<or> is_DrainingLow (pc w) then 1 else 0)"
  using low_starts_le [OF New_reaches [OF assms(1)] assms(2-4)] by (simp add: may_take_low_def)

definition high_arrives :: "int list action list" where
  "high_arrives = [Call 1 Low ''a'' demo_job, Call 2 High ''b'' demo_job, Enter 1 3, Enter 2 3, Offer 1, RunTop, Offer 2]"

theorem high_priority_next_witness:
  "\<exists>w w' j. reaches (New ([] :: int list)) w \<and> exec [RunLow, Begin 4, End 5] w = Some w' \<and> j \<in> set (highPri w')
     \<and> low_starts [RunLow, Begin 4, End 5 :: int list action] w \<le> 1 \<and> is_Inner (pc w)"
proof -
  let ?w = "the (exec high_arrives (New ([] :: int list)))"
  let ?w' = "the (exec [RunLow, Begin 4, End 5] ?w)"
  let ?j = "hd (highPri ?w)"
  have some: "\<not> Option.is_none (exec high_arrives (New ([] :: int list)))" "\<not> Option.is_none (exec [RunLow, Begin 4, End 5] ?w)" "is_Inner (pc ?w)"
    by code_simp+
  then have r: "reaches (New ([] :: int list)) ?w" and e: "exec [RunLow, Begin 4, End 5] ?w = Some ?w'"
    by (auto simp: Option.is_none_def intro: exec_reaches)
  have "highPri ?w' = highPri ?w" "highPri ?w \<noteq> []"
    by (simp_all add: high_arrives_def New_def step_defs high_cap_def low_cap_def Let_def demo_job_def)
  then have j: "?j \<in> set (highPri ?w)" "?j \<in> set (highPri ?w')" by simp_all
  show ?thesis using high_priority_next [OF r e j] r e j some(3) by auto
qed

section \<open>Progress\<close>

definition run_actions :: "'db action list" where
  "run_actions = [RunTop, RunHigh, RunLow, RunExit, DrainHigh, DrainLow, RunClose, Begin 0, End 0]"

definition caller_actions :: "nat \<Rightarrow> 'db action list" where
  "caller_actions i = [Enter i 0, Offer i, OfferStopped i, WaitResult i, WaitStopped i]"

lemma run_not_stuck:
  assumes "\<not> is_Exited (pc w)" and "is_Inner (pc w) \<Longrightarrow> highPri w \<noteq> [] \<or> lowPri w \<noteq> []"
  shows "\<exists>a \<in> set run_actions. sched_step a w \<noteq> None"
  using assms by (cases "pc w") (auto simp: run_actions_def step_defs Let_def split: step_splits)

text \<open>
  C11: no caller is ever stuck. In every reachable state, for every call that has not returned, the
  caller itself can take a step or the scheduler goroutine can; after the scheduler has stopped it is
  always the caller. Contexts need not be cancelled for this.
\<close>

theorem callers_not_stuck:
  assumes "reaches (New d) w" and "calls w i = Some c" and "\<not> is_Returned c"
  shows "\<exists>a \<in> set (caller_actions i) \<union> (if stopped w then {} else set run_actions). sched_step a w \<noteq> None"
proof -
  have inv: "jobs_inv w" "results_inv w" using New_reaches [OF assms(1)] by (simp_all add: sched_inv_def)
  have st: "stopped w = is_Exited (pc w)" using inv(2) by (simp add: results_inv_def)
  have run: "\<exists>a \<in> set (caller_actions i) \<union> (if stopped w then {} else set run_actions). sched_step a w \<noteq> None"
    if "\<not> stopped w" "is_Inner (pc w) \<Longrightarrow> highPri w \<noteq> [] \<or> lowPri w \<noteq> []"
    using run_not_stuck [of w] that st by auto
  show ?thesis
  proof (cases c)
    case (Entering p label fn)
    then have "sched_step (Enter i 0) w \<noteq> None" using assms(2) by (simp add: submit_enter_def)
    then show ?thesis by (auto simp: caller_actions_def)
  next
    case (Offering p j)
    then have "stopped w \<Longrightarrow> sched_step (OfferStopped i) w \<noteq> None" using assms(2) by (simp add: offer_stopped_def)
    moreover have "highPri w = [] \<Longrightarrow> lowPri w = [] \<Longrightarrow> sched_step (Offer i) w \<noteq> None"
      using assms(2) Offering by (simp add: submit_offer_def Let_def high_cap_def low_cap_def)
    ultimately show ?thesis using run by (cases "stopped w") (auto simp: caller_actions_def)
  next
    case (Waiting j)
    have c: "results w i = result_of w i" "j \<in># accepted w" "j_id j = i"
      using results_invD [OF inv(2) assms(2)] jobs_invD [OF inv(1) assms(2)] Waiting by simp_all
    have "stopped w \<Longrightarrow> sched_step (WaitStopped i) w \<noteq> None" using assms(2) Waiting by (simp add: wait_stopped_def)
    moreover have "result_of w i \<noteq> None \<Longrightarrow> sched_step (WaitResult i) w \<noteq> None" using assms(2) Waiting c by (auto simp: wait_result_def)
    moreover have "highPri w \<noteq> [] \<or> lowPri w \<noteq> []" if "result_of w i = None" "is_Inner (pc w)"
      using c that by (auto simp: accepted_def result_of_ran ran_def in_flight_def is_Inner_def)
    ultimately show ?thesis using run by (cases "stopped w"; cases "result_of w i = None") (auto simp: caller_actions_def)
  qed (use assms(3) in simp)
qed

theorem callers_not_stuck_witness:
  "\<exists>w a. reaches (New ([] :: int list)) w \<and> stopped w \<and> calls w 7 \<noteq> None \<and> a \<in> set (caller_actions 7) \<and> sched_step a w \<noteq> None"
proof -
  let ?w = "the (exec (butlast late_submit) (New ([] :: int list)))"
  have some: "\<not> Option.is_none (exec (butlast late_submit) (New ([] :: int list)))" "stopped ?w" "is_Waiting (the (calls ?w 7))"
    "\<not> Option.is_none (calls ?w 7)" by code_simp+
  then have r: "reaches (New ([] :: int list)) ?w" by (auto simp: Option.is_none_def intro: exec_reaches)
  obtain c where c: "calls ?w 7 = Some c" "\<not> is_Returned c" using some(3,4) by (auto simp: Option.is_none_def is_Waiting_def)
  show ?thesis using callers_not_stuck [OF r c] some(2) r c(1) by auto
qed

end
