(* ===== verification/MetricChains.thy ===== *)
theory MetricChains
  imports Float64
begin

text \<open>
  Counters shared by several producers, \<^verbatim>\<open>internal/metrics/interleaved.go\<close>. Pods that send a counter
  under one label set leave their running totals alternating on one series. \<open>Interleaved\<close> recognises
  the shape, and \<open>ChainPrevious\<close> splits the vals into rising chains, one per producer. A value is a
  finite \<^verbatim>\<open>float64\<close>; the index -1 stands for none, as in the source.
\<close>

section \<open>Definitions\<close>

definition minRebounds :: nat where
  "minRebounds = 2"

fun rebound_loop :: "nat \<Rightarrow> rat list \<Rightarrow> bool" where
  "rebound_loop rebounds (x # y # z # vals) =
     (if y < x \<and> z \<ge> x then
        if rebounds + 1 \<ge> minRebounds then True else rebound_loop (rebounds + 1) (y # z # vals)
      else rebound_loop rebounds (y # z # vals))"
| "rebound_loop rebounds _ = False"

definition Interleaved :: "rat list \<Rightarrow> bool" where
  "Interleaved vals = rebound_loop 0 vals"

text \<open>One iteration of the loop of \<open>widestStepOver\<close>, for the step that ends at \<open>j\<close>.\<close>

definition wider_step :: "rat list \<Rightarrow> int list \<Rightarrow> nat \<Rightarrow> nat \<Rightarrow> int \<times> rat \<Rightarrow> int \<times> rat" where
  "wider_step vals prev i j bw =
     (if prev ! j < 0 \<or> vals ! nat (prev ! j) > vals ! i \<or> vals ! j < vals ! i then bw
      else let w = fl64 (vals ! j - vals ! nat (prev ! j)) in if w > snd bw then (int j, w) else bw)"

definition widestStepOver :: "rat list \<Rightarrow> int list \<Rightarrow> nat \<Rightarrow> int" where
  "widestStepOver vals prev i = fst (fold (wider_step vals prev i) [0..<i] (- 1, 0))"

lemma widest_loop_cases:
  "fst (fold (wider_step vals prev i) js bw) = fst bw
   \<or> (\<exists>j \<in> set js. fst (fold (wider_step vals prev i) js bw) = int j \<and> 0 \<le> prev ! j
        \<and> vals ! nat (prev ! j) \<le> vals ! i \<and> vals ! i \<le> vals ! j)"
proof (induction js arbitrary: bw)
  case (Cons j js)
  show ?case
    using Cons.IH [of "wider_step vals prev i j bw"]
    by (auto simp: wider_step_def Let_def split: if_splits)
qed simp

lemma widestStepOver_cases:
  "widestStepOver vals prev i = - 1
   \<or> (\<exists>j < i. widestStepOver vals prev i = int j \<and> 0 \<le> prev ! j
        \<and> vals ! nat (prev ! j) \<le> vals ! i \<and> vals ! i \<le> vals ! j)"
  using widest_loop_cases [of vals prev i "[0..<i]" "(- 1, 0)"] by (auto simp: widestStepOver_def)

function startChain :: "rat list \<Rightarrow> int list \<Rightarrow> nat \<Rightarrow> int list" where
  "startChain vals prev i =
     (let j = widestStepOver vals prev i in
      if j < 0 then prev[i := - 1] else startChain vals (prev[i := prev ! nat j]) (nat j))"
  by pat_completeness auto
termination
proof (relation "measure (\<lambda>(vals, prev, i). i)")
  fix vals prev i j assume "j = widestStepOver vals prev i" "\<not> j < 0"
  then show "((vals, prev[i := prev ! nat j], nat j), vals, prev, i) \<in> measure (\<lambda>(vals, prev, i). i)"
    using widestStepOver_cases [of vals prev i] by auto
qed simp

declare startChain.simps [simp del]

text \<open>The chain whose last value is the largest one not above \<open>v\<close>, by its position in \<open>lasts\<close>.\<close>

definition better_chain :: "rat list \<Rightarrow> nat list \<Rightarrow> rat \<Rightarrow> nat \<Rightarrow> int \<Rightarrow> int" where
  "better_chain vals lasts v c best =
     (if vals ! (lasts ! c) \<le> v \<and> (best < 0 \<or> vals ! (lasts ! c) > vals ! (lasts ! nat best)) then int c else best)"

definition best_chain :: "rat list \<Rightarrow> nat list \<Rightarrow> rat \<Rightarrow> int" where
  "best_chain vals lasts v = fold (better_chain vals lasts v) [0..<length lasts] (- 1)"

definition chain_step :: "rat list \<Rightarrow> nat \<Rightarrow> int list \<times> nat list \<Rightarrow> int list \<times> nat list" where
  "chain_step vals i s =
     (case s of (prev, lasts) \<Rightarrow>
        let best = best_chain vals lasts (vals ! i) in
        if best < 0 then (startChain vals prev i, lasts @ [i])
        else (prev[i := int (lasts ! nat best)], lasts[nat best := i]))"

definition ChainPrevious :: "rat list \<Rightarrow> int list" where
  "ChainPrevious vals = fst (fold (chain_step vals) [0..<length vals] (replicate (length vals) 0, []))"

text \<open>The step up to each value on its chain: what the source adds where \<open>prev[i] >= 0\<close>.\<close>

definition chain_increase :: "rat list \<Rightarrow> int list \<Rightarrow> nat \<Rightarrow> rat" where
  "chain_increase vals prev i = (if prev ! i \<ge> 0 then vals ! i - vals ! nat (prev ! i) else 0)"

section \<open>Chains\<close>

text \<open>
  A pairing of the first \<open>n\<close> vals is sound when every value follows an earlier one that is not
  above it, or none, and no value is followed twice.
\<close>

definition follows_earlier :: "rat list \<Rightarrow> int list \<Rightarrow> nat \<Rightarrow> bool" where
  "follows_earlier vals prev i \<longleftrightarrow>
     prev ! i = - 1 \<or> 0 \<le> prev ! i \<and> nat (prev ! i) < i \<and> vals ! nat (prev ! i) \<le> vals ! i"

definition sound_on :: "rat list \<Rightarrow> int list \<Rightarrow> nat set \<Rightarrow> bool" where
  "sound_on vals prev K \<longleftrightarrow> (\<forall>i \<in> K. follows_earlier vals prev i)
     \<and> (\<forall>i \<in> K. \<forall>j \<in> K. 0 \<le> prev ! i \<longrightarrow> prev ! i = prev ! j \<longrightarrow> i = j)"

definition followed_on :: "int list \<Rightarrow> nat set \<Rightarrow> nat set" where
  "followed_on prev K = {nat (prev ! i) | i. i \<in> K \<and> 0 \<le> prev ! i}"

lemma followed_onI: "i \<in> K \<Longrightarrow> 0 \<le> prev ! i \<Longrightarrow> nat (prev ! i) \<in> followed_on prev K"
  by (auto simp: followed_on_def)

lemma sound_on_subset: "sound_on vals prev K \<Longrightarrow> L \<subseteq> K \<Longrightarrow> sound_on vals prev L"
  by (auto simp: sound_on_def)

lemma sound_on_set:
  assumes s: "sound_on vals prev (K - {i})" and i: "i < length prev" and p: "follows_earlier vals (prev[i := p]) i"
    and new: "0 \<le> p \<Longrightarrow> nat p \<notin> followed_on prev (K - {i})"
  shows "sound_on vals (prev[i := p]) K"
proof -
  have same: "prev[i := p] ! k = prev ! k" if "k \<noteq> i" for k using that by simp
  have "follows_earlier vals (prev[i := p]) k" if "k \<in> K" for k
    using that s p same by (cases "k = i") (auto simp: sound_on_def follows_earlier_def)
  moreover have "k = j" if "k \<in> K" "j \<in> K" "0 \<le> prev[i := p] ! k" "prev[i := p] ! k = prev[i := p] ! j" for k j
  proof (cases "k = i \<or> j = i")
    case True
    then show ?thesis using that i new followed_onI [of k "K - {i}" prev] followed_onI [of j "K - {i}" prev]
      by (cases "k = j") (auto simp: nth_list_update split: if_splits)
  next
    case False
    then show ?thesis using that s by (auto simp: sound_on_def)
  qed
  ultimately show ?thesis unfolding sound_on_def by blast
qed

lemma followed_on_set:
  "i < length prev \<Longrightarrow> followed_on (prev[i := p]) K = followed_on prev (K - {i}) \<union> (if i \<in> K \<and> 0 \<le> p then {nat p} else {})"
  by (auto simp: followed_on_def nth_list_update)

lemma startChain_length [simp]: "length (startChain vals prev i) = length prev"
proof (induction vals prev i rule: startChain.induct)
  case (1 vals prev i)
  then show ?case by (simp add: startChain.simps [of vals prev i] Let_def)
qed

text \<open>
  While \<open>startChain\<close> runs, one position awaits its predecessor and all others are sound. It keeps
  which values are followed.
\<close>

lemma startChain_sound:
  "sound_on vals prev (K - {i}) \<Longrightarrow> i < length prev \<Longrightarrow> {..i} \<subseteq> K \<Longrightarrow>
   sound_on vals (startChain vals prev i) K \<and> followed_on (startChain vals prev i) K = followed_on prev (K - {i})"
proof (induction vals prev i rule: startChain.induct)
  case (1 vals prev i)
  show ?case
  proof (cases "widestStepOver vals prev i < 0")
    case True
    then have s: "startChain vals prev i = prev[i := - 1]" by (simp add: startChain.simps [of vals prev i])
    show ?thesis unfolding s using 1(2-4)
      by (intro conjI sound_on_set) (auto simp: follows_earlier_def followed_on_set)
  next
    case False
    then obtain j where j: "widestStepOver vals prev i = int j" "j < i" "0 \<le> prev ! j"
      "vals ! nat (prev ! j) \<le> vals ! i" "vals ! i \<le> vals ! j"
      using widestStepOver_cases [of vals prev i] by auto
    let ?p = "prev[i := prev ! j]"
    have s: "startChain vals prev i = startChain vals ?p j"
      using False j(1) by (simp add: startChain.simps [of vals prev i])
    have jK: "j \<in> K - {i}" using j(2) 1(4) by auto
    then have fe: "follows_earlier vals prev j" using 1(2) by (auto simp: sound_on_def)
    have fresh: "nat (prev ! j) \<notin> followed_on prev (K - {j} - {i})"
      using 1(2) jK j(3) by (auto simp: sound_on_def followed_on_def nat_eq_iff)
    have "sound_on vals ?p (K - {j})"
    proof (rule sound_on_set)
      show "sound_on vals prev (K - {j} - {i})" using 1(2) by (rule sound_on_subset) auto
      show "follows_earlier vals ?p i" using fe j 1(3) by (auto simp: follows_earlier_def)
    qed (use 1(3) fresh in auto)
    moreover have "followed_on ?p (K - {j}) = followed_on prev (K - {i})"
    proof -
      have "followed_on prev (K - {i}) = followed_on prev (K - {j} - {i}) \<union> {nat (prev ! j)}"
        using jK j(3) by (auto simp: followed_on_def)
      then show ?thesis using 1(3,4) j(2,3) by (auto simp: followed_on_set)
    qed
    moreover have "{..j} \<subseteq> K" using j(2) 1(4) by auto
    ultimately show ?thesis using 1(1) [OF refl False] j(1) 1(3) j(2) by (simp add: s)
  qed
qed

definition best_among :: "rat list \<Rightarrow> nat list \<Rightarrow> rat \<Rightarrow> nat \<Rightarrow> int \<Rightarrow> bool" where
  "best_among vals lasts v m b \<longleftrightarrow>
     (if b < 0 then \<forall>c < m. v < vals ! (lasts ! c)
      else nat b < m \<and> vals ! (lasts ! nat b) \<le> v
        \<and> (\<forall>c < m. vals ! (lasts ! c) \<le> v \<longrightarrow> vals ! (lasts ! c) \<le> vals ! (lasts ! nat b)))"

lemma better_chain_best: "best_among vals lasts v m b \<Longrightarrow> best_among vals lasts v (Suc m) (better_chain vals lasts v m b)"
  by (cases "b < 0") (auto simp: best_among_def better_chain_def less_Suc_eq not_le intro: order.trans less_imp_le)

lemma best_chain_prefix: "best_among vals lasts v m (fold (better_chain vals lasts v) [0..<m] (- 1))"
proof (induction m)
  case (Suc m)
  then show ?case using better_chain_best by simp
qed (simp add: best_among_def)

lemma best_chain_cases:
  obtains "best_chain vals lasts v < 0" "\<forall>c < length lasts. v < vals ! (lasts ! c)"
  | b where "best_chain vals lasts v = int b" "b < length lasts" "vals ! (lasts ! b) \<le> v"
      "\<forall>c < length lasts. vals ! (lasts ! c) \<le> v \<longrightarrow> vals ! (lasts ! c) \<le> vals ! (lasts ! b)"
  using best_chain_prefix [of vals lasts v "length lasts"] that(1) that(2) [of "nat (best_chain vals lasts v)"]
  by (auto simp: best_chain_def best_among_def split: if_splits)

text \<open>
  The chains in the order they were started have strictly falling last values, and below the last
  value of the \<open>c\<close>-th chain there is a falling run of \<open>c + 1\<close> values.
\<close>

definition falling :: "rat list \<Rightarrow> nat list \<Rightarrow> bool" where
  "falling vals ks \<longleftrightarrow> sorted_wrt (\<lambda>a b. a < b \<and> vals ! b < vals ! a) ks"

definition chain_inv :: "rat list \<Rightarrow> nat \<Rightarrow> int list \<times> nat list \<Rightarrow> bool" where
  "chain_inv vals i s \<longleftrightarrow> (case s of (prev, lasts) \<Rightarrow>
     length prev = length vals \<and> sound_on vals prev {..<i} \<and> distinct lasts
     \<and> set lasts = {..<i} - followed_on prev {..<i}
     \<and> (\<forall>c d. c < d \<longrightarrow> d < length lasts \<longrightarrow> vals ! (lasts ! d) < vals ! (lasts ! c))
     \<and> (\<forall>c < length lasts. \<exists>ks. length ks = c \<and> falling vals (ks @ [lasts ! c])))"

lemma falling_snoc:
  assumes "falling vals (ks @ [a])" and "a < i" and "vals ! i < vals ! a"
  shows "falling vals ((ks @ [a]) @ [i])"
  using assms by (auto simp: falling_def sorted_wrt_append intro: less_trans)

lemma sound_prev_less:
  assumes "sound_on vals prev {..<n}" and "i < n" and "0 \<le> prev ! i"
  shows "nat (prev ! i) < i"
proof -
  have "follows_earlier vals prev i" using assms(1,2) by (simp add: sound_on_def)
  then show ?thesis using assms(3) by (auto simp: follows_earlier_def)
qed

lemma followed_on_less: "sound_on vals prev {..<i} \<Longrightarrow> k \<in> followed_on prev {..<i} \<Longrightarrow> k < i"
  by (auto simp: followed_on_def dest: sound_prev_less)

lemma chain_start:
  assumes inv: "chain_inv vals i (prev, lasts)" and i: "i < length vals"
    and low: "\<forall>c < length lasts. vals ! i < vals ! (lasts ! c)"
  shows "chain_inv vals (Suc i) (startChain vals prev i, lasts @ [i])"
proof -
  have K: "{..<Suc i} - {i} = {..<i}" by auto
  note inv = inv [unfolded chain_inv_def prod.case]
  have s: "sound_on vals (startChain vals prev i) {..<Suc i}"
    "followed_on (startChain vals prev i) {..<Suc i} = followed_on prev {..<i}"
    using startChain_sound [of vals prev "{..<Suc i}" i] inv i unfolding K by (simp_all add: lessThan_Suc_atMost)
  have lt: "l < i" if "l \<in> set lasts" for l using inv that by auto
  have "\<exists>ks. length ks = length lasts \<and> falling vals (ks @ [i])"
  proof (cases lasts rule: rev_cases)
    case (snoc ls l)
    then obtain ks where ks: "length ks = length ls" "falling vals (ks @ [l])" using inv by auto
    have "falling vals ((ks @ [l]) @ [i])" using low lt snoc by (intro falling_snoc [OF ks(2)]) auto
    then show ?thesis using ks(1) snoc by (intro exI [of _ "ks @ [l]"]) simp
  qed (simp add: falling_def)
  moreover have "set (lasts @ [i]) = {..<Suc i} - followed_on prev {..<i}"
    using inv followed_on_less [of vals prev i i] by (auto simp: less_Suc_eq)
  ultimately show ?thesis using inv s low lt
    by (auto simp: chain_inv_def nth_append less_Suc_eq)
qed

lemma chain_join:
  assumes inv: "chain_inv vals i (prev, lasts)" and i: "i < length vals" and b: "b < length lasts" "vals ! (lasts ! b) \<le> vals ! i"
    and best: "\<forall>c < length lasts. vals ! (lasts ! c) \<le> vals ! i \<longrightarrow> vals ! (lasts ! c) \<le> vals ! (lasts ! b)"
  shows "chain_inv vals (Suc i) (prev[i := int (lasts ! b)], lasts[b := i])"
proof -
  have K: "{..<Suc i} - {i} = {..<i}" by auto
  note inv = inv [unfolded chain_inv_def prod.case]
  have lt: "l < i" if "l \<in> set lasts" for l using inv that by auto
  have lb: "lasts ! b < i" "lasts ! b \<notin> followed_on prev {..<i}" using inv b(1) nth_mem [of b lasts] by auto
  have s: "sound_on vals (prev[i := int (lasts ! b)]) {..<Suc i}"
    using inv i lb b(2) by (intro sound_on_set) (auto simp: K follows_earlier_def)
  have f: "followed_on (prev[i := int (lasts ! b)]) {..<Suc i} = insert (lasts ! b) (followed_on prev {..<i})"
    using inv i by (auto simp: followed_on_set K)
  have "set (lasts[b := i]) = insert i (set lasts - {lasts ! b})" using inv b(1) by (simp add: set_update_distinct)
  also have "\<dots> = {..<Suc i} - insert (lasts ! b) (followed_on prev {..<i})"
    using inv followed_on_less [of vals prev i i] lb by (auto simp: less_Suc_eq)
  finally have set: "set (lasts[b := i]) = {..<Suc i} - insert (lasts ! b) (followed_on prev {..<i})" .
  have above: "vals ! i < vals ! (lasts ! c)" if "c < b" for c
    using inv b(1) best that by (metis less_trans not_le)
  have below: "vals ! (lasts ! c) < vals ! i" if "b < c" "c < length lasts" for c
    using inv b(2) that by (metis less_le_trans)
  have dist: "distinct (lasts[b := i])" using inv lt by (auto intro!: distinct_list_update)
  have order: "vals ! (lasts[b := i] ! d) < vals ! (lasts[b := i] ! c)" if "c < d" "d < length lasts" for c d
    using inv that above below b(1) by (cases "d = b"; cases "c = b") simp_all
  have run: "\<exists>ks. length ks = c \<and> falling vals (ks @ [lasts[b := i] ! c])" if "c < length lasts" for c
  proof (cases "c = b")
    case True
    show ?thesis
    proof (cases b)
      case 0
      then show ?thesis using True by (simp add: falling_def)
    next
      case (Suc b')
      then have "b' < length lasts" using b(1) by simp
      then obtain ks where ks: "length ks = b'" "falling vals (ks @ [lasts ! b'])" using inv by blast
      have "falling vals ((ks @ [lasts ! b']) @ [i])"
        using above [of b'] lt Suc b(1) by (intro falling_snoc [OF ks(2)]) auto
      then show ?thesis using True Suc b(1) ks(1) by (intro exI [of _ "ks @ [lasts ! b']"]) simp
    qed
  next
    case False
    then show ?thesis using inv that by simp
  qed
  show ?thesis unfolding chain_inv_def prod.case using inv s f set dist order run by simp
qed

lemma chain_inv_step:
  assumes "chain_inv vals i s" and "i < length vals"
  shows "chain_inv vals (Suc i) (chain_step vals i s)"
proof -
  obtain prev lasts where s: "s = (prev, lasts)" by (cases s)
  show ?thesis
  proof (rule best_chain_cases [of vals lasts "vals ! i"])
    assume "best_chain vals lasts (vals ! i) < 0" "\<forall>c < length lasts. vals ! i < vals ! (lasts ! c)"
    then show ?thesis using chain_start assms by (simp add: s chain_step_def)
  next
    fix b assume "best_chain vals lasts (vals ! i) = int b" "b < length lasts" "vals ! (lasts ! b) \<le> vals ! i"
      "\<forall>c < length lasts. vals ! (lasts ! c) \<le> vals ! i \<longrightarrow> vals ! (lasts ! c) \<le> vals ! (lasts ! b)"
    then show ?thesis using chain_join assms by (simp add: s chain_step_def)
  qed
qed

lemma chain_inv_fold:
  "i \<le> length vals \<Longrightarrow> chain_inv vals i (fold (chain_step vals) [0..<i] (replicate (length vals) 0, []))"
proof (induction i)
  case 0
  then show ?case by (simp add: chain_inv_def sound_on_def followed_on_def)
next
  case (Suc i)
  then show ?case by (simp add: chain_inv_step)
qed

section \<open>Results\<close>

definition chain_starts :: "int list \<Rightarrow> nat set" where
  "chain_starts prev = {i. i < length prev \<and> prev ! i = - 1}"

definition chain_ends :: "int list \<Rightarrow> nat set" where
  "chain_ends prev = {..<length prev} - followed_on prev {..<length prev}"

lemma chain_starts_code [code]: "chain_starts prev = set (filter (\<lambda>i. prev ! i = - 1) [0..<length prev])"
  by (auto simp: chain_starts_def)

lemma chain_ends_code [code]:
  "chain_ends prev = set (filter (\<lambda>e. \<not> list_ex (\<lambda>i. prev ! i = int e) [0..<length prev]) [0..<length prev])"
  by (fastforce simp: chain_ends_def followed_on_def list_ex_iff)

lemma ChainPrevious_inv:
  obtains lasts where "chain_inv vals (length vals) (ChainPrevious vals, lasts)"
  using chain_inv_fold [of "length vals" vals] by (cases "fold (chain_step vals) [0..<length vals] (replicate (length vals) 0, [])")
    (auto simp: ChainPrevious_def)

lemma ChainPrevious_length [simp]: "length (ChainPrevious vals) = length vals"
  by (rule ChainPrevious_inv [of vals]) (simp add: chain_inv_def)

lemma ChainPrevious_sound: "sound_on vals (ChainPrevious vals) {..<length vals}"
  by (rule ChainPrevious_inv [of vals]) (simp add: chain_inv_def)

text \<open>The positions that follow another one correspond to the positions that are followed.\<close>

lemma followed_bij:
  assumes "sound_on vals prev {..<n}"
  shows "bij_betw (\<lambda>i. nat (prev ! i)) {i. i < n \<and> 0 \<le> prev ! i} (followed_on prev {..<n})"
  using assms by (auto simp: bij_betw_def inj_on_def followed_on_def sound_on_def nat_eq_iff)

lemma sound_split:
  assumes "sound_on vals prev {..<n}" and "length prev = n"
  shows "{..<n} = chain_starts prev \<union> {i. i < n \<and> 0 \<le> prev ! i}" and "chain_starts prev \<inter> {i. i < n \<and> 0 \<le> prev ! i} = {}"
  using assms by (auto simp: chain_starts_def sound_on_def follows_earlier_def)

lemma sum_increases:
  assumes s: "sound_on vals prev {..<n}" and l: "length prev = n"
  shows "(\<Sum>i<n. chain_increase vals prev i) = (\<Sum>i \<in> chain_ends prev. vals ! i) - (\<Sum>i \<in> chain_starts prev. vals ! i)"
proof -
  let ?J = "{i. i < n \<and> 0 \<le> prev ! i}" and ?F = "followed_on prev {..<n}"
  have fin: "finite (chain_starts prev)" "finite ?J" by (auto simp: chain_starts_def)
  have "(\<Sum>i<n. chain_increase vals prev i) = (\<Sum>i \<in> chain_starts prev. chain_increase vals prev i) + (\<Sum>i \<in> ?J. chain_increase vals prev i)"
    unfolding sound_split(1) [OF s l] by (rule sum.union_disjoint [OF fin sound_split(2) [OF s l]])
  also have "\<dots> = (\<Sum>i \<in> ?J. vals ! i) - (\<Sum>i \<in> ?J. vals ! nat (prev ! i))"
    by (simp add: chain_increase_def chain_starts_def sum_subtractf)
  also have "(\<Sum>i \<in> ?J. vals ! nat (prev ! i)) = (\<Sum>i \<in> ?F. vals ! i)"
    by (rule sum.reindex_bij_betw [OF followed_bij [OF s]])
  also have "(\<Sum>i \<in> ?J. vals ! i) = (\<Sum>i<n. vals ! i) - (\<Sum>i \<in> chain_starts prev. vals ! i)"
    unfolding sound_split(1) [OF s l] using sum.union_disjoint [OF fin sound_split(2) [OF s l], of "\<lambda>i. vals ! i"] by simp
  also have "(\<Sum>i<n. vals ! i) = (\<Sum>i \<in> chain_ends prev. vals ! i) + (\<Sum>i \<in> ?F. vals ! i)"
    using followed_on_less [OF s] l by (auto simp: chain_ends_def intro!: sum.subset_diff)
  finally show ?thesis by simp
qed

lemma card_starts_ends:
  assumes s: "sound_on vals prev {..<n}" and l: "length prev = n"
  shows "card (chain_starts prev) = card (chain_ends prev)"
proof -
  let ?J = "{i. i < n \<and> 0 \<le> prev ! i}" and ?F = "followed_on prev {..<n}"
  have fin: "finite (chain_starts prev)" "finite ?J" by (auto simp: chain_starts_def)
  have F: "?F \<subseteq> {..<n}" using followed_on_less [OF s] by auto
  have "card (chain_starts prev) + card ?J = n"
    using card_Un_disjoint [OF fin sound_split(2) [OF s l]] sound_split(1) [OF s l] by (metis card_lessThan)
  moreover have "card (chain_ends prev) = n - card ?F"
    using F l by (simp add: chain_ends_def card_Diff_subset finite_subset)
  moreover have "card ?F \<le> n" using card_mono [OF _ F] by simp
  ultimately show ?thesis using bij_betw_same_card [OF followed_bij [OF s]] by simp
qed

text \<open>A falling run takes one producer per value.\<close>

lemma falling_producers:
  assumes "falling vals ks" and "\<And>i j. i < j \<Longrightarrow> j < n \<Longrightarrow> producer i = producer j \<Longrightarrow> vals ! i \<le> vals ! j" and "set ks \<subseteq> {..<n}"
  shows "distinct (map producer ks)"
  using assms(1,3)
proof (induction ks)
  case (Cons a ks)
  have "producer a \<noteq> producer b" if "b \<in> set ks" for b
  proof -
    have "b < n" "a < b" "vals ! b < vals ! a" using Cons.prems that by (auto simp: falling_def)
    then show ?thesis using assms(2) [of a b] by auto
  qed
  then show ?case using Cons by (auto simp: falling_def)
qed simp

text \<open>
  C25: splitting an interleaved counter never invents producers. If the values come from at most \<open>k\<close>
  producers whose totals never fall, \<^verbatim>\<open>ChainPrevious\<close> starts at most \<open>k\<close> chains, so no more values than
  producers are left without a predecessor.
\<close>

theorem ChainPrevious_fewest_chains:
  assumes "\<And>i. i < length vals \<Longrightarrow> producer i < k"
    and "\<And>i j. i < j \<Longrightarrow> j < length vals \<Longrightarrow> producer i = producer j \<Longrightarrow> vals ! i \<le> vals ! j"
  shows "card (chain_starts (ChainPrevious vals)) \<le> k"
proof (rule ChainPrevious_inv [of vals])
  fix lasts assume inv: "chain_inv vals (length vals) (ChainPrevious vals, lasts)"
  then have "chain_ends (ChainPrevious vals) = set lasts" "distinct lasts" by (simp_all add: chain_inv_def chain_ends_def)
  then have card: "card (chain_starts (ChainPrevious vals)) = length lasts"
    using card_starts_ends [OF ChainPrevious_sound, of vals] by (simp add: distinct_card)
  show ?thesis
  proof (rule ccontr)
    assume "\<not> ?thesis"
    then have k: "k < length lasts" using card by simp
    then obtain ks where ks: "length ks = k" "falling vals (ks @ [lasts ! k])" using inv by (auto simp: chain_inv_def)
    have "lasts ! k < length vals" using inv nth_mem [OF k] by (auto simp: chain_inv_def)
    then have sub: "set (ks @ [lasts ! k]) \<subseteq> {..<length vals}" using ks(2) by (auto simp: falling_def sorted_wrt_append)
    have "distinct (map producer (ks @ [lasts ! k]))" by (rule falling_producers [OF ks(2) _ sub]) (rule assms(2))
    moreover have "set (map producer (ks @ [lasts ! k])) \<subseteq> {..<k}" using sub assms(1) by auto
    ultimately have "length (map producer (ks @ [lasts ! k])) \<le> k" by (metis card_lessThan card_mono distinct_card finite_lessThan)
    then show False using ks(1) by simp
  qed
qed

text \<open>Two pods: 40, 8000, 41, 8001, 42, 8002.\<close>

definition two_pods :: "rat list" where
  "two_pods = [40, 8000, 41, 8001, 42, 8002]"

theorem ChainPrevious_fewest_chains_witness:
  "ChainPrevious two_pods = [- 1, - 1, 0, 1, 2, 3] \<and> card (chain_starts (ChainPrevious two_pods)) \<le> 2"
proof -
  have r: "j = 0 \<or> j = 1 \<or> j = 2 \<or> j = 3 \<or> j = 4 \<or> j = 5" if "j < length two_pods" for j using that by (auto simp: two_pods_def)
  have "card (chain_starts (ChainPrevious two_pods)) \<le> 2"
  proof (rule ChainPrevious_fewest_chains [where producer = "\<lambda>i. i mod 2"])
    fix i j assume "i < j" "j < length two_pods" "i mod 2 = j mod 2"
    then show "two_pods ! i \<le> two_pods ! j" using r [of i] r [of j] by (auto simp: two_pods_def)
  qed simp
  moreover have "ChainPrevious two_pods = [- 1, - 1, 0, 1, 2, 3]" by code_simp
  ultimately show ?thesis by blast
qed

end
