(* ===== verification/MetricRates.thy ===== *)
theory MetricRates
  imports MetricChains
begin

text \<open>
  Growth of counters: the rate derivation of \<^verbatim>\<open>internal/metrics/derive.go\<close>, its interleaved case in
  \<^verbatim>\<open>internal/metrics/interleaved.go\<close>, and the increase of one series in \<^verbatim>\<open>internal/metrics/totals.go\<close>. A
  loop that indexes a slice gives \<open>None\<close> where Go would panic on an index out of range.
\<close>

section \<open>Points\<close>

record InputPoint =
  ip_T :: int
  ip_Value :: rat
  ip_Count :: int
  ip_Extra :: string
  ip_Attributes :: "(string \<times> string) list"
  ip_Delta :: bool
  ip_IntervalNano :: int

record DerivedPoint =
  dp_T :: int
  dp_Value :: rat
  dp_P50 :: "rat option"
  dp_P95 :: "rat option"
  dp_P99 :: "rat option"
  dp_Count :: int

definition rate_point :: "InputPoint \<Rightarrow> rat \<Rightarrow> DerivedPoint" where
  "rate_point cur v = \<lparr>dp_T = ip_T cur, dp_Value = v, dp_P50 = None, dp_P95 = None, dp_P99 = None, dp_Count = ip_Count cur\<rparr>"

datatype RenderKind = RenderLine | RenderRate | RenderPercentile

definition RenderFor :: "string \<Rightarrow> RenderKind" where
  "RenderFor metricType =
     (if metricType = ''sum'' then RenderRate
      else if metricType \<in> set [''histogram'', ''exp_histogram'', ''summary''] then RenderPercentile
      else RenderLine)"

definition deriveGauge :: "InputPoint list \<Rightarrow> DerivedPoint list" where
  "deriveGauge points = map (\<lambda>p. rate_point p (ip_Value p)) points"

definition cumulativeValues :: "InputPoint list \<Rightarrow> rat list option" where
  "cumulativeValues points = (if list_ex ip_Delta points then None else Some (map ip_Value points))"

section \<open>Rates\<close>

definition seconds :: "int \<Rightarrow> rat" where
  "seconds ns = fl64 (fl64 (of_int ns) / 1000000000)"

definition pointRate :: "InputPoint option \<Rightarrow> InputPoint \<Rightarrow> rat option" where
  "pointRate prev cur =
     (if ip_Delta cur then
        let width = (case prev of Some p \<Rightarrow> if ip_IntervalNano cur \<le> 0 then s64 (ip_T cur - ip_T p) else ip_IntervalNano cur
                     | None \<Rightarrow> ip_IntervalNano cur) in
        if width \<le> 0 then None else Some (fl64 (ip_Value cur / seconds width))
      else
        case prev of
          None \<Rightarrow> None
        | Some p \<Rightarrow>
            let dtSec = seconds (s64 (ip_T cur - ip_T p)) in
            if dtSec \<le> 0 then None
            else let delta = fl64 (ip_Value cur - ip_Value p) in
              Some (fl64 ((if delta < 0 then ip_Value cur else delta) / dtSec)))"

text \<open>The step up to the value at \<open>i\<close> on its chain, rounded.\<close>

definition chain_delta :: "rat list \<Rightarrow> int list \<Rightarrow> nat \<Rightarrow> rat" where
  "chain_delta vals prev i = fl64 (vals ! i - vals ! nat (prev ! i))"

definition gaps :: "InputPoint list \<Rightarrow> int list \<Rightarrow> int list" where
  "gaps points prev =
     [s64 (ip_T (points ! i) - ip_T (points ! nat (prev ! i))).
        i \<leftarrow> [0..<length prev], 0 \<le> prev ! i \<and> ip_T (points ! i) > ip_T (points ! nat (prev ! i))]"

definition reportingInterval :: "InputPoint list \<Rightarrow> int list \<Rightarrow> int" where
  "reportingInterval points prev =
     (let gs = gaps points prev in if gs = [] then 0 else sort gs ! (length gs div 2))"

text \<open>The inner loop: the steps that fell out of the window are taken off again.\<close>

function leave_window :: "InputPoint list \<Rightarrow> rat list \<Rightarrow> int list \<Rightarrow> int \<Rightarrow> rat \<Rightarrow> nat \<Rightarrow> (rat \<times> nat) option" where
  "leave_window points vals prev limit inWindow start =
     (if start \<ge> length points then None
      else if ip_T (points ! start) \<le> limit then
        leave_window points vals prev limit
          (if prev ! start \<ge> 0 then fl64 (inWindow - chain_delta vals prev start) else inWindow) (start + 1)
      else Some (inWindow, start))"
  by pat_completeness auto
termination
  by (relation "measure (\<lambda>(points, vals, prev, limit, inWindow, start). length points - start)") auto

declare leave_window.simps [simp del]

fun rates_loop :: "InputPoint list \<Rightarrow> rat list \<Rightarrow> int list \<Rightarrow> int \<Rightarrow> nat list \<Rightarrow> rat \<Rightarrow> nat \<Rightarrow> DerivedPoint list option" where
  "rates_loop points vals prev width [] inWindow start = Some []"
| "rates_loop points vals prev width (i # is) inWindow start =
     (let cur = points ! i; inWindow = (if prev ! i \<ge> 0 then fl64 (inWindow + chain_delta vals prev i) else inWindow) in
      case leave_window points vals prev (s64 (ip_T cur - width)) inWindow start of
        None \<Rightarrow> None
      | Some (inWindow, start) \<Rightarrow>
          (case rates_loop points vals prev width is inWindow start of
             None \<Rightarrow> None
           | Some out \<Rightarrow> Some (if prev ! i \<ge> 0 then rate_point cur (fl64 (inWindow / seconds width)) # out else out)))"

definition interleavedRates :: "InputPoint list \<Rightarrow> rat list \<Rightarrow> DerivedPoint list option" where
  "interleavedRates points vals =
     (let prev = ChainPrevious vals; width = reportingInterval points prev in
      if width \<le> 0 then Some [] else rates_loop points vals prev width [0..<length points] 0 0)"

text \<open>The rate of each point from the one before it, where it has one.\<close>

fun point_rates :: "InputPoint option \<Rightarrow> InputPoint list \<Rightarrow> DerivedPoint list" where
  "point_rates prev [] = []"
| "point_rates prev (cur # points) =
     (case pointRate prev cur of None \<Rightarrow> [] | Some v \<Rightarrow> [rate_point cur v]) @ point_rates (Some cur) points"

definition deriveRate :: "InputPoint list \<Rightarrow> DerivedPoint list option" where
  "deriveRate points =
     (case cumulativeValues points of
        Some vals \<Rightarrow> if Interleaved vals then interleavedRates points vals else Some (point_rates None points)
      | None \<Rightarrow> Some (point_rates None points))"

section \<open>Totals\<close>

definition add_chain_delta :: "rat list \<Rightarrow> int list \<Rightarrow> nat \<Rightarrow> rat \<Rightarrow> rat" where
  "add_chain_delta vals prev i acc = (if prev ! i \<ge> 0 then fl64 (acc + chain_delta vals prev i) else acc)"

fun add_increases :: "InputPoint option \<Rightarrow> InputPoint list \<Rightarrow> rat \<Rightarrow> rat" where
  "add_increases prev [] acc = acc"
| "add_increases prev (p # pts) acc =
     add_increases (Some p) pts
       (if ip_Delta p then fl64 (acc + ip_Value p)
        else case prev of
          None \<Rightarrow> acc
        | Some q \<Rightarrow> fl64 (acc + (if ip_Value p \<ge> ip_Value q then fl64 (ip_Value p - ip_Value q) else ip_Value p)))"

definition increase :: "InputPoint list \<Rightarrow> rat" where
  "increase pts =
     (case cumulativeValues pts of
        Some vals \<Rightarrow>
          if Interleaved vals then let prev = ChainPrevious vals in fold (add_chain_delta vals prev) [0..<length vals] 0
          else add_increases None pts 0
      | None \<Rightarrow> add_increases None pts 0)"

section \<open>Whole numbers\<close>

text \<open>
  Most counters count: their values are whole numbers. As long as these are small enough for a double to
  hold their sum, all the arithmetic on their chains is exact. The code has no such restriction: the
  facts below that assume \<open>whole_counter\<close> say nothing about counters of fractional values, such as seconds,
  whose steps are rounded.
\<close>

definition whole_counter :: "int list \<Rightarrow> bool" where
  "whole_counter ns \<longleftrightarrow> list_all (\<lambda>n. 0 \<le> n) ns \<and> sum_list ns \<le> 2 ^ 53"

definition growth :: "int list \<Rightarrow> int list \<Rightarrow> nat \<Rightarrow> int" where
  "growth ns prev i = (if prev ! i \<ge> 0 then ns ! i - ns ! nat (prev ! i) else 0)"

lemma growth_bounds:
  assumes "sound_on (map of_int ns) prev {..<length ns}" and "whole_counter ns" and "i < length ns"
  shows "0 \<le> growth ns prev i \<and> growth ns prev i \<le> ns ! i"
proof -
  have nn: "0 \<le> ns ! k" if "k < length ns" for k using assms(2) that by (auto simp: whole_counter_def list_all_length)
  have "follows_earlier (map of_int ns) prev i" using assms(1,3) by (auto simp: sound_on_def)
  then show ?thesis using nn [of i] nn [of "nat (prev ! i)"] assms(3) by (auto simp: follows_earlier_def growth_def)
qed

lemma growth_sum:
  assumes "sound_on (map of_int ns) prev {..<length ns}" and "whole_counter ns" and "K \<subseteq> {..<length ns}"
  shows "0 \<le> (\<Sum>k \<in> K. growth ns prev k) \<and> (\<Sum>k \<in> K. growth ns prev k) \<le> 2 ^ 53"
proof -
  have nn: "0 \<le> ns ! k" if "k < length ns" for k using assms(2) that by (auto simp: whole_counter_def list_all_length)
  have "(\<Sum>k \<in> K. growth ns prev k) \<le> (\<Sum>k \<in> K. ns ! k)" using growth_bounds [OF assms(1,2)] assms(3) by (intro sum_mono) auto
  also have "\<dots> \<le> (\<Sum>k < length ns. ns ! k)" using assms(3) nn by (intro sum_mono2) auto
  also have "\<dots> = sum_list ns" by (simp add: sum_list_sum_nth atLeast0LessThan)
  finally show ?thesis using growth_bounds [OF assms(1,2)] assms(2,3) by (auto simp: whole_counter_def intro: sum_nonneg)
qed

lemma chain_delta_growth:
  assumes "sound_on (map of_int ns) prev {..<length ns}" and "whole_counter ns" and "i < length ns" and "0 \<le> prev ! i"
  shows "chain_delta (map of_int ns) prev i = of_int (growth ns prev i)"
proof -
  have "nat (prev ! i) < length ns" using sound_prev_less [OF assms(1,3,4)] assms(3) by simp
  then have "chain_delta (map of_int ns) prev i = fl64 (of_int (growth ns prev i))"
    using assms(3,4) by (simp add: chain_delta_def growth_def)
  then show ?thesis using growth_sum [OF assms(1,2), of "{i}"] assms(3) by (simp add: fl64_int)
qed

lemma fold_growth:
  assumes "sound_on (map of_int ns) prev {..<length ns}" and "whole_counter ns" and "m \<le> length ns"
  shows "fold (add_chain_delta (map of_int ns) prev) [0..<m] 0 = of_int (\<Sum>k < m. growth ns prev k)"
  using assms(3)
proof (induction m)
  case (Suc m)
  then have IH: "fold (add_chain_delta (map of_int ns) prev) [0..<m] 0 = of_int (\<Sum>k < m. growth ns prev k)" by simp
  show ?case
  proof (cases "0 \<le> prev ! m")
    case True
    have "\<bar>(\<Sum>k < Suc m. growth ns prev k)\<bar> \<le> 2 ^ 53" using growth_sum [OF assms(1,2), of "{..<Suc m}"] Suc.prems by auto
    from fl64_int [OF this] show ?thesis
      using True chain_delta_growth [OF assms(1,2), of m] Suc.prems IH by (simp add: add_chain_delta_def [of _ prev m] add.commute)
  next
    case False
    then show ?thesis using IH by (simp add: add_chain_delta_def [of _ prev m] growth_def [of ns prev m])
  qed
qed simp

text \<open>
  C26: for a counter of non-negative whole numbers whose values add up to at most 2 ^ 53, the increase of
  an interleaved series is exactly the sum of where its chains end less the sum of where they start.
\<close>

theorem increase_interleaved:
  assumes "cumulativeValues pts = Some (map of_int ns)" and "Interleaved (map of_int ns)" and "whole_counter ns"
  shows "increase pts = (\<Sum>i \<in> chain_ends (ChainPrevious (map of_int ns)). of_int (ns ! i))
    - (\<Sum>i \<in> chain_starts (ChainPrevious (map of_int ns)). of_int (ns ! i))"
proof -
  let ?vals = "map of_int ns :: rat list" let ?prev = "ChainPrevious ?vals"
  have s: "sound_on ?vals ?prev {..<length ns}" using ChainPrevious_sound [of ?vals] by simp
  have "increase pts = of_int (\<Sum>k < length ns. growth ns ?prev k)"
    using assms(1,2) fold_growth [OF s assms(3) order_refl] by (simp add: increase_def Let_def)
  also have "\<dots> = (\<Sum>k < length ns. chain_increase ?vals ?prev k)"
  proof (simp, rule sum.cong)
    fix k assume "k \<in> {..<length ns}"
    then show "of_int (growth ns ?prev k) = chain_increase ?vals ?prev k"
      using sound_prev_less [OF s, of k] by (auto simp: growth_def chain_increase_def)
  qed simp
  also have "\<dots> = (\<Sum>i \<in> chain_ends ?prev. ?vals ! i) - (\<Sum>i \<in> chain_starts ?prev. ?vals ! i)"
    by (rule sum_increases [OF s]) simp
  finally show ?thesis by (simp add: chain_ends_def chain_starts_def)
qed

definition counter_point :: "int \<times> int \<Rightarrow> InputPoint" where
  "counter_point tv = \<lparr>ip_T = fst tv, ip_Value = of_int (snd tv), ip_Count = 1, ip_Extra = [], ip_Attributes = [], ip_Delta = False, ip_IntervalNano = 0\<rparr>"

definition pod_points :: "InputPoint list" where
  "pod_points = map counter_point [(0, 40), (1, 8000), (60, 41), (61, 8001), (120, 42), (121, 8002)]"

theorem increase_interleaved_witness: "increase pod_points = (8002 + 42) - (8000 + 40)"
proof -
  let ?ns = "[40, 8000, 41, 8001, 42, 8002]"
  have "cumulativeValues pod_points = Some (map of_int ?ns)" "Interleaved (map of_int ?ns)" "whole_counter ?ns" by code_simp+
  note r = increase_interleaved [OF this]
  have p: "ChainPrevious (map of_int ?ns) = [- 1, - 1, 0, 1, 2, 3]" by code_simp
  have "(\<Sum>i \<in> chain_starts [- 1, - 1, 0, 1, 2, 3]. of_int (?ns ! i)) = (8000 + 40 :: rat)"
    "(\<Sum>i \<in> chain_ends [- 1, - 1, 0, 1, 2, 3]. of_int (?ns ! i)) = (8002 + 42 :: rat)" by code_simp+
  then show ?thesis using r unfolding p by simp
qed

section \<open>The trailing window\<close>

lemma leave_window_growth:
  assumes "sound_on (map of_int ns) prev {..<length ns}" and "whole_counter ns" and "length points = length ns"
    and "i < length ns" and "limit < ip_T (points ! i)"
  shows "start \<le> i \<Longrightarrow>
    \<exists>start'. start \<le> start' \<and> start' \<le> i \<and>
      leave_window points (map of_int ns) prev limit (of_int (\<Sum>k \<in> {start..i}. growth ns prev k)) start
        = Some (of_int (\<Sum>k \<in> {start'..i}. growth ns prev k), start')"
proof (induction "i - start" arbitrary: start)
  case 0
  then show ?case using assms(3-5) by (intro exI [of _ i]) (auto simp: leave_window.simps [of points _ prev limit _ start])
next
  case (Suc d)
  let ?S = "\<lambda>s. \<Sum>k \<in> {s..i}. growth ns prev k"
  show ?case
  proof (cases "ip_T (points ! start) \<le> limit")
    case True
    have lt: "start < i" using Suc by simp
    have split: "?S start = growth ns prev start + ?S (Suc start)" using lt by (simp add: sum.atLeast_Suc_atMost)
    have "{Suc start..i} \<subseteq> {..<length ns}" using assms(4) by auto
    from growth_sum [OF assms(1,2) this] have "\<bar>?S (Suc start)\<bar> \<le> 2 ^ 53" by simp
    note exact = fl64_int [OF this]
    have step: "(if prev ! start \<ge> 0 then fl64 (of_int (?S start) - chain_delta (map of_int ns) prev start) else of_int (?S start)) = of_int (?S (Suc start))"
      using chain_delta_growth [OF assms(1,2), of start] lt assms(4) exact by (simp add: split) (simp add: growth_def)
    have d: "d = i - Suc start" using Suc.hyps(2) by simp
    obtain s' where s': "Suc start \<le> s'" "s' \<le> i"
      "leave_window points (map of_int ns) prev limit (of_int (?S (Suc start))) (Suc start) = Some (of_int (?S s'), s')"
      using Suc.hyps(1) [OF d] lt by (auto simp: Suc_le_eq)
    then show ?thesis using True lt assms(3,4) step
      by (intro exI [of _ s']) (simp add: leave_window.simps [of points _ prev limit _ start] del: of_int_sum)
  next
    case False
    then show ?thesis using Suc.prems assms(3,4)
      by (intro exI [of _ start]) (auto simp: leave_window.simps [of points _ prev limit _ start])
  qed
qed

lemma rates_loop_nonneg:
  assumes "sound_on (map of_int ns) prev {..<length ns}" and "whole_counter ns" and "length points = length ns" and "0 < width" "in_s64 width"
    and "\<And>p. p \<in> set points \<Longrightarrow> 0 \<le> ip_T p \<and> ip_T p < 2 ^ 62"
  shows "i \<le> length ns \<Longrightarrow> start \<le> i \<Longrightarrow>
    \<exists>out. rates_loop points (map of_int ns) prev width [i..<length ns] (of_int (\<Sum>k \<in> {start..<i}. growth ns prev k)) start = Some out
      \<and> (\<forall>d \<in> set out. 0 \<le> dp_Value d)"
proof (induction "length ns - i" arbitrary: i start)
  case 0
  then show ?case by simp
next
  case (Suc m)
  then have lt: "i < length ns" by simp
  have upt: "[i..<length ns] = i # [Suc i..<length ns]" using lt by (simp add: upt_conv_Cons)
  let ?cur = "points ! i"
  have T: "0 \<le> ip_T ?cur" "ip_T ?cur < 2 ^ 62" using assms(6) [of ?cur] lt assms(3) by auto
  then have lim: "s64 (ip_T ?cur - width) < ip_T ?cur"
    using assms(4,5) by (subst s64_id) (auto simp: in_s64_def)
  have split: "(\<Sum>k \<in> {start..i}. growth ns prev k) = (\<Sum>k \<in> {start..<i}. growth ns prev k) + growth ns prev i"
    using Suc.prems(2) by (simp add: sum.nat_ivl_Suc' atLeastLessThanSuc_atLeastAtMost [symmetric])
  have sub: "{s..i} \<subseteq> {..<length ns}" for s using lt by auto
  have "\<bar>\<Sum>k \<in> {start..i}. growth ns prev k\<bar> \<le> 2 ^ 53" using growth_sum [OF assms(1,2) sub, of start] by simp
  note exact = fl64_int [OF this]
  have enter: "(if prev ! i \<ge> 0 then fl64 (of_int (\<Sum>k \<in> {start..<i}. growth ns prev k) + chain_delta (map of_int ns) prev i)
      else of_int (\<Sum>k \<in> {start..<i}. growth ns prev k)) = of_int (\<Sum>k \<in> {start..i}. growth ns prev k)"
    using chain_delta_growth [OF assms(1,2) lt] exact by (simp add: split) (simp add: growth_def)
  obtain s' where s': "s' \<le> i" "leave_window points (map of_int ns) prev (s64 (ip_T ?cur - width)) (of_int (\<Sum>k \<in> {start..i}. growth ns prev k)) start
      = Some (of_int (\<Sum>k \<in> {s'..i}. growth ns prev k), s')"
    using leave_window_growth [OF assms(1-3) lt lim Suc.prems(2)] by blast
  have m: "m = length ns - Suc i" using Suc.hyps(2) by simp
  obtain out where out: "rates_loop points (map of_int ns) prev width [Suc i..<length ns] (of_int (\<Sum>k \<in> {s'..i}. growth ns prev k)) s' = Some out"
    "\<forall>d \<in> set out. 0 \<le> dp_Value d"
    using Suc.hyps(1) [OF m, of s'] lt s'(1) by (auto simp: atLeastLessThanSuc_atLeastAtMost)
  have "0 \<le> (of_int (\<Sum>k \<in> {s'..i}. growth ns prev k) :: rat)"
    using growth_sum [OF assms(1,2) sub, of s'] unfolding of_int_0_le_iff by blast
  then have "0 \<le> fl64 (of_int (\<Sum>k \<in> {s'..i}. growth ns prev k) / seconds width)"
    using assms(4) by (intro fl64_nonneg divide_nonneg_nonneg) (auto simp: seconds_def intro!: fl64_nonneg)
  then show ?case using enter s'(2) out unfolding upt by (auto simp: Let_def rate_point_def)
qed

lemma seconds_nonneg: "0 \<le> ns \<Longrightarrow> 0 \<le> seconds ns"
  by (simp add: seconds_def fl64_nonneg)

lemma pointRate_nonneg: "pointRate prev cur = Some v \<Longrightarrow> 0 \<le> ip_Value cur \<Longrightarrow> 0 \<le> v"
  by (auto simp: pointRate_def Let_def not_le not_less seconds_nonneg split: option.splits if_splits
      intro!: fl64_nonneg divide_nonneg_nonneg)

lemma point_rates_nonneg:
  "\<forall>p \<in> set points. 0 \<le> ip_Value p \<Longrightarrow> d \<in> set (point_rates prev points) \<Longrightarrow> 0 \<le> dp_Value d"
  by (induction points arbitrary: prev) (auto simp: rate_point_def split: option.splits intro: pointRate_nonneg)

lemma reportingInterval_range: "in_s64 (reportingInterval points prev)"
proof -
  have "in_s64 g" if "g \<in> set (gaps points prev)" for g using that by (auto simp: gaps_def s64_range)
  moreover have "sort (gaps points prev) ! (length (gaps points prev) div 2) \<in> set (gaps points prev)" if "gaps points prev \<noteq> []"
    using that nth_mem [of "length (gaps points prev) div 2" "sort (gaps points prev)"] by simp
  ultimately show ?thesis by (auto simp: reportingInterval_def Let_def in_s64_def)
qed

text \<open>Whatever the values, the window never runs past the point it ends at.\<close>

lemma leave_window_total:
  "limit < ip_T (points ! i) \<Longrightarrow> i < length points \<Longrightarrow> start \<le> i \<Longrightarrow>
   \<exists>w start'. start' \<le> i \<and> leave_window points vals prev limit inWindow start = Some (w, start')"
proof (induction "i - start" arbitrary: start inWindow)
  case 0
  then show ?case by (auto simp: leave_window.simps [of points vals prev limit inWindow start])
next
  case (Suc d)
  show ?case
  proof (cases "ip_T (points ! start) \<le> limit")
    case True
    then have "d = i - (start + 1)" "start + 1 \<le> i" using Suc.hyps(2) Suc.prems by auto
    then show ?thesis
      using Suc.hyps(1) [of "start + 1"] Suc.prems True by (auto simp: leave_window.simps [of points vals prev limit inWindow start])
  next
    case False
    then show ?thesis using Suc.prems by (auto simp: leave_window.simps [of points vals prev limit inWindow start])
  qed
qed

lemma window_limit_before: "0 \<le> t \<Longrightarrow> t < 2 ^ 62 \<Longrightarrow> 0 < width \<Longrightarrow> in_s64 width \<Longrightarrow> s64 (t - width) < t"
  by (subst s64_id) (auto simp: in_s64_def)

lemma rates_loop_total:
  assumes "0 < width" "in_s64 width" and "\<And>p. p \<in> set points \<Longrightarrow> 0 \<le> ip_T p \<and> ip_T p < 2 ^ 62"
  shows "i \<le> length points \<Longrightarrow> start \<le> i \<Longrightarrow> \<exists>out. rates_loop points vals prev width [i..<length points] inWindow start = Some out"
proof (induction "length points - i" arbitrary: i start inWindow)
  case (Suc m)
  then have lt: "i < length points" by simp
  have m: "m = length points - Suc i" using Suc.hyps(2) by simp
  have upt: "[i..<length points] = i # [Suc i..<length points]" using lt by (simp add: upt_conv_Cons)
  let ?w = "if prev ! i \<ge> 0 then fl64 (inWindow + chain_delta vals prev i) else inWindow"
  have "s64 (ip_T (points ! i) - width) < ip_T (points ! i)"
    using window_limit_before assms lt by simp
  then obtain w start' where w: "start' \<le> i" "leave_window points vals prev (s64 (ip_T (points ! i) - width)) ?w start = Some (w, start')"
    using leave_window_total lt Suc.prems(2) by blast
  moreover obtain out where "rates_loop points vals prev width [Suc i..<length points] w start' = Some out"
    using Suc.hyps(1) [OF m, of start' w] lt w(1) by auto
  ultimately show ?case unfolding upt by (auto simp: Let_def)
qed simp

lemma deriveRate_total:
  assumes "\<And>p. p \<in> set points \<Longrightarrow> 0 \<le> ip_T p \<and> ip_T p < 2 ^ 62"
  shows "\<exists>out. deriveRate points = Some out"
proof -
  have "\<exists>out. interleavedRates points vals = Some out" for vals
  proof (cases "reportingInterval points (ChainPrevious vals) \<le> 0")
    case False
    then show ?thesis
      using rates_loop_total [OF _ reportingInterval_range assms, where i = 0 and start = 0] by (simp add: interleavedRates_def Let_def)
  qed (simp add: interleavedRates_def Let_def)
  then show ?thesis by (simp add: deriveRate_def split: option.splits)
qed

lemma interleavedRates_nonneg:
  assumes "map ip_Value points = map of_int ns" and "whole_counter ns"
    and "\<And>p. p \<in> set points \<Longrightarrow> 0 \<le> ip_T p \<and> ip_T p < 2 ^ 62"
  shows "\<exists>out. interleavedRates points (map of_int ns) = Some out \<and> (\<forall>d \<in> set out. 0 \<le> dp_Value d)"
proof -
  have len: "length points = length ns" using assms(1) by (metis length_map)
  let ?prev = "ChainPrevious (map of_int ns)" let ?w = "reportingInterval points ?prev"
  have s: "sound_on (map of_int ns) ?prev {..<length ns}" using ChainPrevious_sound [of "map of_int ns"] by simp
  show ?thesis
  proof (cases "?w \<le> 0")
    case False
    then show ?thesis
      using rates_loop_nonneg [OF s assms(2) len _ reportingInterval_range assms(3), where i = 0 and start = 0] len
      by (simp add: interleavedRates_def Let_def)
  qed (simp add: interleavedRates_def Let_def)
qed

text \<open>
  C27: deriving the rate of a counter always succeeds: whatever its values, no index leaves the slice as
  long as its timestamps are between 0 and 2 ^ 62. With values that are not negative no rate is negative,
  provided that an interleaved series consists of whole numbers that add up to at most 2 ^ 53; taking steps
  off the window again then never drives the sum below zero.
\<close>

theorem deriveRate_nonneg:
  assumes "\<And>p. p \<in> set points \<Longrightarrow> 0 \<le> ip_T p \<and> ip_T p < 2 ^ 62"
  shows "\<exists>out. deriveRate points = Some out \<and>
    ((\<forall>p \<in> set points. 0 \<le> ip_Value p)
      \<and> (\<forall>vals. cumulativeValues points = Some vals \<and> Interleaved vals \<longrightarrow> (\<exists>ns. vals = map of_int ns \<and> whole_counter ns))
     \<longrightarrow> (\<forall>d \<in> set out. 0 \<le> dp_Value d))"
proof -
  obtain out where out: "deriveRate points = Some out" using deriveRate_total [OF assms] by blast
  have "\<forall>d \<in> set out. 0 \<le> dp_Value d"
    if nn: "\<forall>p \<in> set points. 0 \<le> ip_Value p"
      and whole: "\<forall>vals. cumulativeValues points = Some vals \<and> Interleaved vals \<longrightarrow> (\<exists>ns. vals = map of_int ns \<and> whole_counter ns)"
  proof (cases "\<exists>vals. cumulativeValues points = Some vals \<and> Interleaved vals")
    case True
    then obtain ns where ns: "cumulativeValues points = Some (map of_int ns)" "Interleaved (map of_int ns)" "whole_counter ns"
      using whole by blast
    have "map ip_Value points = map of_int ns" using ns(1) by (simp add: cumulativeValues_def split: if_splits)
    from interleavedRates_nonneg [OF this ns(3) assms] show ?thesis using out ns by (simp add: deriveRate_def)
  next
    case False
    then have "out = point_rates None points" using out by (auto simp: deriveRate_def split: option.splits if_splits)
    then show ?thesis using point_rates_nonneg [OF nn] by blast
  qed
  with out show ?thesis by blast
qed

theorem deriveRate_nonneg_witness:
  "\<exists>out. deriveRate pod_points = Some out \<and> list_all (\<lambda>d. 0 \<le> dp_Value d) out"
proof -
  have c: "cumulativeValues pod_points = Some (map of_int [40, 8000, 41, 8001, 42, 8002])" "whole_counter [40, 8000, 41, 8001, 42, 8002]"
    "list_all (\<lambda>p. 0 \<le> ip_Value p) pod_points" "list_all (\<lambda>p. 0 \<le> ip_T p \<and> ip_T p < 2 ^ 62) pod_points" by code_simp+
  obtain out where out: "deriveRate pod_points = Some out"
    "(\<forall>p \<in> set pod_points. 0 \<le> ip_Value p)
      \<and> (\<forall>vals. cumulativeValues pod_points = Some vals \<and> Interleaved vals \<longrightarrow> (\<exists>ns. vals = map of_int ns \<and> whole_counter ns))
     \<longrightarrow> (\<forall>d \<in> set out. 0 \<le> dp_Value d)"
    using deriveRate_nonneg [of pod_points] c(4) unfolding list_all_iff by blast
  have "\<exists>ns. vals = map of_int ns \<and> whole_counter ns" if "cumulativeValues pod_points = Some vals" for vals
    using that c(1,2) by (metis option.inject)
  then show ?thesis using out c(3) unfolding list_all_iff by blast
qed

text \<open>
  With fractional values the rounding errors of the steps need not cancel when they leave the window: two
  producers at 0, 0.1, 0.1 and 12.3, 12.5, 12.5 that report every minute get a negative rate.
\<close>

definition fraction_point :: "int \<times> int \<Rightarrow> InputPoint" where
  "fraction_point tv = \<lparr>ip_T = fst tv * 1000000000, ip_Value = fl64 (of_int (snd tv) / 10), ip_Count = 1, ip_Extra = [],
     ip_Attributes = [], ip_Delta = False, ip_IntervalNano = 0\<rparr>"

lemma fractional_rate_negative:
  "\<exists>out. deriveRate (map fraction_point [(0, 0), (1, 123), (60, 1), (61, 125), (120, 1), (121, 125)]) = Some out
     \<and> list_ex (\<lambda>d. dp_Value d < 0) out"
proof -
  have "case deriveRate (map fraction_point [(0, 0), (1, 123), (60, 1), (61, 125), (120, 1), (121, 125)]) of
      None \<Rightarrow> False | Some out \<Rightarrow> list_ex (\<lambda>d. dp_Value d < 0) out" by code_simp
  then show ?thesis by (auto split: option.splits)
qed

end
