(* ===== verification/MetricAttributes.thy ===== *)
theory MetricAttributes
  imports Prelude "HOL-Library.Word" "HOL-Library.Char_ord" "HOL-Library.List_Lexorder"
begin

text \<open>
  Label sets of metrics: \<^verbatim>\<open>internal/metrics/attributes.go\<close>. A label set is a Go map, so an
  association list with distinct keys. The JSON reader and writer of Go's library are arguments: the
  reader gives the members of an object, each with the text \<^verbatim>\<open>%v\<close> prints for a value that is neither a
  string nor null, and the writer gets the members in the order of their keys, as \<^verbatim>\<open>json.Marshal\<close>
  documents for maps.
\<close>

section \<open>Model\<close>

unbundle bit_operations_syntax

type_synonym labels = "(string \<times> string) list"

datatype json_value = JString string | JNull | JOther string

record json =
  json_Unmarshal :: "string \<Rightarrow> (string \<times> json_value) list option"
  json_Marshal :: "labels \<Rightarrow> string option"

fun label_text :: "json_value \<Rightarrow> string" where
  "label_text (JString s) = s"
| "label_text JNull = []"
| "label_text (JOther s) = s"

definition ParseAttributes :: "json \<Rightarrow> string \<Rightarrow> labels" where
  "ParseAttributes js raw =
     (if raw = [] then []
      else if raw = ''{}'' \<or> raw = ''null'' then []
      else case json_Unmarshal js raw of
        None \<Rightarrow> []
      | Some m \<Rightarrow> fold (\<lambda>(k, v). AList.update k (label_text v)) m [])"

text \<open>\<^verbatim>\<open>fnv.New64a\<close>: xor the byte in, then multiply by the prime.\<close>

definition fnv_offset :: "64 word" where
  "fnv_offset = 14695981039346656037"

definition fnv_prime :: "64 word" where
  "fnv_prime = 1099511628211"

definition fnv_byte :: "64 word \<Rightarrow> char \<Rightarrow> 64 word" where
  "fnv_byte h c = (h XOR of_nat (of_char c)) * fnv_prime"

definition fnv_Write :: "string \<Rightarrow> 64 word \<Rightarrow> 64 word" where
  "fnv_Write s h = foldl fnv_byte h s"

definition hex_digit :: "nat \<Rightarrow> char" where
  "hex_digit d = char_of (if d < 10 then 48 + d else 87 + d)"

text \<open>\<^verbatim>\<open>%016x\<close> of a 64-bit number: its sixteen hex digits.\<close>

definition show_hex16 :: "64 word \<Rightarrow> string" where
  "show_hex16 w = map (\<lambda>i. hex_digit (unat w div 16 ^ (15 - i) mod 16)) [0..<16]"

definition Fingerprint :: "labels \<Rightarrow> string" where
  "Fingerprint attrs =
     show_hex16 (fold (\<lambda>k h. fnv_Write [NUL] (fnv_Write (the (map_of attrs k)) (fnv_Write [NUL] (fnv_Write k h))))
       (sort (map fst attrs)) fnv_offset)"

definition CanonicalAttributes :: "json \<Rightarrow> labels \<Rightarrow> string" where
  "CanonicalAttributes js attrs =
     (if attrs = [] then ''{}''
      else case json_Marshal js (map (\<lambda>k. (k, the (map_of attrs k))) (sort (map fst attrs))) of
        None \<Rightarrow> ''{}''
      | Some b \<Rightarrow> b)"

section \<open>Label sets\<close>

text \<open>Two label sets hold the same labels, whatever the order in which their entries stand.\<close>

definition same_labels :: "labels \<Rightarrow> labels \<Rightarrow> bool" where
  "same_labels a b \<longleftrightarrow> map_of a = map_of b"

lemma ParseAttributes_wf: "gomap_wf (ParseAttributes js raw)"
proof -
  have "gomap_wf (fold (\<lambda>(k, v). AList.update k (label_text v)) m acc)" if "gomap_wf acc" for m and acc :: labels
    using that by (induction m arbitrary: acc) (auto simp: distinct_update)
  from this [of "[]"] show ?thesis by (simp add: ParseAttributes_def split: option.splits)
qed

lemma same_labels_keys:
  assumes "gomap_wf a" "gomap_wf b" "same_labels a b"
  shows "sort (map fst a) = sort (map fst b)"
proof -
  have "set (map fst a) = set (map fst b)"
    using assms(3) dom_map_of_conv_image_fst [of a] dom_map_of_conv_image_fst [of b] by (simp add: same_labels_def)
  moreover have "distinct (map fst a)" "distinct (map fst b)" using assms by simp_all
  ultimately have "mset (map fst a) = mset (map fst b)" using set_eq_iff_mset_eq_distinct by blast
  then show ?thesis by (metis mset_sort sorted_sort properties_for_sort)
qed

lemma Fingerprint_same:
  assumes "gomap_wf a" "gomap_wf b" "same_labels a b"
  shows "Fingerprint a = Fingerprint b"
  using assms same_labels_keys [OF assms] by (simp add: Fingerprint_def same_labels_def)

lemma CanonicalAttributes_same:
  assumes "gomap_wf a" "gomap_wf b" "same_labels a b"
  shows "CanonicalAttributes js a = CanonicalAttributes js b"
proof -
  have "a = [] \<longleftrightarrow> b = []"
    using assms(3) map_of_eq_empty_iff [of a] map_of_eq_empty_iff [of b] by (simp add: same_labels_def)
  then show ?thesis
    using assms same_labels_keys [OF assms] by (simp add: CanonicalAttributes_def same_labels_def)
qed

lemma Fingerprint_length: "length (Fingerprint attrs) = 16"
  by (simp add: Fingerprint_def show_hex16_def)

end
