(* ===== verification/RollupTiers.thy ===== *)
theory RollupTiers
  imports Prelude
begin

text \<open>
  The buckets of the metric rollup tiers, \<^verbatim>\<open>internal/rollup/tiers.go\<close>. Hours and days are multiples of
  a duration from Go's zero time, weeks start on Monday and months are calendar months, so the civil
  calendar of Go's \<^verbatim>\<open>time\<close> package is modelled here as well: the proleptic Gregorian calendar in UTC,
  over the days since 1 January of year 1, which is a Monday.
\<close>

section \<open>The calendar\<close>

definition day :: duration where
  "day = 24 * hour"

definition leap_year :: "int \<Rightarrow> bool" where
  "leap_year y \<longleftrightarrow> y mod 4 = 0 \<and> (y mod 100 \<noteq> 0 \<or> y mod 400 = 0)"

definition days_before_year :: "int \<Rightarrow> int" where
  "days_before_year y = 365 * (y - 1) + (y - 1) div 4 - (y - 1) div 100 + (y - 1) div 400"

text \<open>Days of a year before its month \<open>m\<close>, counted from 0.\<close>

definition days_before_month :: "bool \<Rightarrow> int \<Rightarrow> int" where
  "days_before_month leap m =
     [0, 31, 59, 90, 120, 151, 181, 212, 243, 273, 304, 334] ! nat m + (if leap \<and> m \<ge> 2 then 1 else 0)"

text \<open>The year of a day by cycles of 400, 100, 4 and 1 years, and the day within that year.\<close>

definition year_and_day :: "int \<Rightarrow> int \<times> int" where
  "year_and_day d =
     (let n400 = d div 146097; d1 = d mod 146097; n100 = min 3 (d1 div 36524); d2 = d1 - 36524 * n100;
          n4 = d2 div 1461; d3 = d2 mod 1461; n1 = min 3 (d3 div 365)
      in (400 * n400 + 100 * n100 + 4 * n4 + n1 + 1, d3 - 365 * n1))"

definition month_in_year :: "bool \<Rightarrow> int \<Rightarrow> int" where
  "month_in_year leap yday = int (length (takeWhile (\<lambda>m. days_before_month leap (int m) \<le> yday) [1..<12]))"

text \<open>Months are numbered through: \<open>12 * year + month\<close>, with months from 0.\<close>

definition month_number :: "int \<Rightarrow> int" where
  "month_number d = (case year_and_day d of (y, yday) \<Rightarrow> 12 * y + month_in_year (leap_year y) yday)"

definition month_start :: "int \<Rightarrow> int" where
  "month_start n = days_before_year (n div 12) + days_before_month (leap_year (n div 12)) (n mod 12)"

definition add_months :: "int \<Rightarrow> gotime \<Rightarrow> gotime" where
  "add_months k t =
     (let d = t div day; n = month_number d in (month_start (n + k) + (d - month_start n)) * day + t mod day)"

definition add_days :: "int \<Rightarrow> gotime \<Rightarrow> gotime" where
  "add_days k t = t + k * day"

definition Weekday :: "int \<Rightarrow> int" where
  "Weekday d = (d + 1) mod 7"

text \<open>\<^verbatim>\<open>Time.Truncate\<close>: down to a multiple of the duration since the zero time.\<close>

definition time_Truncate :: "gotime \<Rightarrow> duration \<Rightarrow> gotime" where
  "time_Truncate t d = (if d \<le> 0 then t else t - t mod d)"

section \<open>Tiers\<close>

definition Step5m :: int where "Step5m = 300"
definition StepHour :: int where "StepHour = 3600"
definition StepDay :: int where "StepDay = 86400"
definition StepWeek :: int where "StepWeek = 604800"
definition StepMonth :: int where "StepMonth = 2592000"

lemmas steps = Step5m_def StepHour_def StepDay_def StepWeek_def StepMonth_def

record Tier =
  t_Step :: int
  t_Source :: int
  t_Label :: string

definition Ladder :: "Tier list" where
  "Ladder =
     [\<lparr>t_Step = StepHour, t_Source = Step5m, t_Label = ''hourly''\<rparr>,
      \<lparr>t_Step = StepDay, t_Source = StepHour, t_Label = ''daily''\<rparr>,
      \<lparr>t_Step = StepWeek, t_Source = StepDay, t_Label = ''weekly''\<rparr>,
      \<lparr>t_Step = StepMonth, t_Source = StepWeek, t_Label = ''monthly''\<rparr>]"

definition TruncateBucket :: "gotime \<Rightarrow> int \<Rightarrow> gotime" where
  "TruncateBucket t step =
     (if step = StepMonth then month_start (month_number (t div day)) * day
      else if step = StepWeek then
        let d = t div day; offset = (Weekday d + 6) mod 7 in add_days (- offset) (d * day)
      else if step \<le> 0 then t
      else time_Truncate t (s64 (step * second)))"

definition NextBucket :: "gotime \<Rightarrow> int \<Rightarrow> gotime" where
  "NextBucket start step =
     (if step = StepMonth then add_months 1 start
      else if step = StepWeek then add_days 7 start
      else if step \<le> 0 then start
      else start + s64 (step * second))"

definition PrevBucket :: "gotime \<Rightarrow> int \<Rightarrow> gotime" where
  "PrevBucket start step =
     (if step = StepMonth then add_months (- 1) start
      else if step = StepWeek then add_days (- 7) start
      else if step \<le> 0 then start
      else start + s64 (- step * second))"

definition sourceWindow :: "Tier \<Rightarrow> gotime \<Rightarrow> gotime \<times> gotime" where
  "sourceWindow tier bucket =
     (TruncateBucket bucket (t_Source tier), TruncateBucket (NextBucket bucket (t_Step tier)) (t_Source tier))"

definition BucketClosed :: "gotime \<Rightarrow> int \<Rightarrow> gotime \<Rightarrow> bool" where
  "BucketClosed start step now \<longleftrightarrow> \<not> NextBucket start step > now"

section \<open>Facts about the calendar\<close>

lemma day_pos [simp]: "0 < day" "0 \<le> day" "day \<noteq> 0"
  by (simp_all add: day_def time_units)

lemma div_step:
  assumes "(k :: int) > 1"
  shows "y div k = (y - 1) div k + (if y mod k = 0 then 1 else 0)"
proof -
  have y: "y = k * (y div k) + y mod k" "0 \<le> y mod k" "y mod k < k" using assms by simp_all
  show ?thesis
  proof (cases "y mod k = 0")
    case True
    have "(y - 1) div k = y div k - 1"
      by (rule int_div_pos_eq [of _ _ _ "k - 1"]) (use y(1) True assms in \<open>simp_all add: algebra_simps\<close>)
    then show ?thesis using True by simp
  next
    case False
    then have "0 \<le> y mod k - 1" using y(2) by linarith
    then have "(y - 1) div k = y div k"
      by (intro int_div_pos_eq [of _ _ _ "y mod k - 1"]) (use y in linarith)+
    then show ?thesis using False by simp
  qed
qed

lemma nested_indicators:
  "(C \<Longrightarrow> B) \<Longrightarrow> (B \<Longrightarrow> A) \<Longrightarrow>
   (if A \<and> (\<not> B \<or> C) then 1 else 0 :: int) = (if A then 1 else 0) - (if B then 1 else 0) + (if C then 1 else 0)"
  by (cases A; cases B; cases C) simp_all

lemma leap_year_alt: "(if leap_year y then 1 else 0 :: int)
    = (if y mod 4 = 0 then 1 else 0) - (if y mod 100 = 0 then 1 else 0) + (if y mod 400 = 0 then 1 else 0)"
  unfolding leap_year_def
proof (rule nested_indicators)
  show "y mod 400 = 0 \<Longrightarrow> y mod 100 = 0" unfolding mod_eq_0_iff_dvd by (erule dvd_trans [rotated]) simp
  show "y mod 100 = 0 \<Longrightarrow> y mod 4 = 0" unfolding mod_eq_0_iff_dvd by (erule dvd_trans [rotated]) simp
qed

lemma days_before_next_year: "days_before_year (y + 1) = days_before_year y + (if leap_year y then 366 else 365)"
proof -
  define p q r where "p = (y - 1) div 4" and "q = (y - 1) div 100" and "r = (y - 1) div 400"
  have "y div 4 = p + (if y mod 4 = 0 then 1 else 0)" "y div 100 = q + (if y mod 100 = 0 then 1 else 0)"
    "y div 400 = r + (if y mod 400 = 0 then 1 else 0)"
    using div_step [of 4 y] div_step [of 100 y] div_step [of 400 y] by (simp_all only: p_def q_def r_def)
  then have "days_before_year (y + 1) = 365 * y + p - q + r + (if leap_year y then 1 else 0)"
    unfolding leap_year_alt days_before_year_def add_diff_cancel_right' by (simp only:)
  moreover have "days_before_year y = 365 * (y - 1) + p - q + r" by (simp only: days_before_year_def p_def q_def r_def)
  ultimately show ?thesis by simp
qed

lemma days_before_cycles:
  fixes a b c e :: int
  assumes "0 \<le> b" "b \<le> 3" "0 \<le> c" "c \<le> 24" "0 \<le> e" "e \<le> 3"
  shows "days_before_year (400 * a + 100 * b + 4 * c + e + 1) = 146097 * a + 36524 * b + 1461 * c + 365 * e"
proof -
  let ?z = "400 * a + 100 * b + 4 * c + e"
  have "?z div 4 = 100 * a + 25 * b + c" by (rule int_div_pos_eq [of _ _ _ e]) (use assms in simp_all)
  moreover have "?z div 100 = 4 * a + b" by (rule int_div_pos_eq [of _ _ _ "4 * c + e"]) (use assms in simp_all)
  moreover have "?z div 400 = a" by (rule int_div_pos_eq [of _ _ _ "100 * b + 4 * c + e"]) (use assms in simp_all)
  ultimately show ?thesis by (simp add: days_before_year_def)
qed

lemma year_and_day_correct:
  assumes "year_and_day d = (y, yday)"
  shows "days_before_year y + yday = d \<and> 0 \<le> yday \<and> yday < (if leap_year y then 366 else 365)"
proof -
  define a d1 where "a = d div 146097" and "d1 = d mod 146097"
  define b d2 where "b = min 3 (d1 div 36524)" and "d2 = d1 - 36524 * b"
  define c d3 where "c = d2 div 1461" and "d3 = d2 mod 1461"
  define e where "e = min 3 (d3 div 365)"
  have y: "y = 400 * a + 100 * b + 4 * c + e + 1" "yday = d3 - 365 * e"
    using assms unfolding year_and_day_def Let_def a_def [symmetric] d1_def [symmetric] b_def [symmetric] d2_def [symmetric]
      c_def [symmetric] d3_def [symmetric] e_def [symmetric] by blast+
  have d: "d = 146097 * a + d1" "0 \<le> d1" "d1 < 146097" by (simp_all add: a_def d1_def)
  define q r where "q = d1 div 36524" and "r = d1 mod 36524"
  have q: "q \<le> 4" "0 \<le> q" "d1 = 36524 * q + r" "0 \<le> r" "r < 36524"
    using d(2,3) zdiv_mono1 [of d1 146096 36524] by (simp_all add: q_def r_def)
  have bq: "b = min 3 q" by (simp add: b_def q_def)
  have b: "0 \<le> b" "b \<le> 3" "0 \<le> d2" "b < 3 \<Longrightarrow> d2 < 36524" "d2 \<le> 36524"
    using q d(3) by (auto simp: bq d2_def min_def split: if_splits)
  have c: "0 \<le> c" "c \<le> 24" "d2 = 1461 * c + d3" "0 \<le> d3" "d3 < 1461"
    using b(3,5) zdiv_mono1 [of d2 36524 1461] by (simp_all add: c_def d3_def)
  define u v where "u = d3 div 365" and "v = d3 mod 365"
  have u: "0 \<le> u" "d3 = 365 * u + v" "0 \<le> v" "v < 365" "e = min 3 u" using c(4) by (simp_all add: u_def v_def e_def)
  have e: "0 \<le> e" "e \<le> 3" "0 \<le> yday" "yday \<le> 365" "yday = 365 \<Longrightarrow> e = 3 \<and> d3 = 1460"
    using c(5) u by (auto simp: y(2) min_def split: if_splits)
  have sum: "days_before_year y + yday = d" using days_before_cycles [OF b(1,2) c(1,2) e(1,2), of a] d(1) c(3) by (simp add: y d2_def)
  have "leap_year y" if "yday = 365"
  proof -
    have e3: "e = 3" "d3 = 1460" using e(5) that by simp_all
    have y4: "y = 4 * (100 * a + 25 * b + c + 1)" using y(1) e3 by simp
    show ?thesis
    proof (cases "c = 24")
      case True
      then have "b = 3" using b c(3) e3 by force
      then have "y = 400 * (a + 1)" using y4 True by simp
      then show ?thesis by (simp add: leap_year_def)
    next
      case False
      have "y mod 100 = 4 * c + 4"
        by (rule int_mod_pos_eq [of _ _ "4 * a + b"]) (use c(1,2) y4 False in simp_all)
      then show ?thesis using c(1) by (simp add: leap_year_def y4)
    qed
  qed
  then show ?thesis using sum e(3,4) by (cases "yday = 365") auto
qed

lemma month_length:
  assumes "0 \<le> m" "m < 11"
  shows "days_before_month leap m < days_before_month leap (m + 1)"
proof -
  obtain k where k: "m = int k" using assms(1) by (rule nonneg_int_cases)
  then have "k \<in> set [0..<11]" using assms(2) by simp
  then have "k = 0 \<or> k = 1 \<or> k = 2 \<or> k = 3 \<or> k = 4 \<or> k = 5 \<or> k = 6 \<or> k = 7 \<or> k = 8 \<or> k = 9 \<or> k = 10"
    by (auto simp: numeral_eq_Suc less_Suc_eq)
  then show ?thesis by (elim disjE) (simp_all add: k days_before_month_def)
qed

lemma month_start_step: "month_start n < month_start (n + 1)"
proof (cases "n mod 12 = 11")
  case True
  then have n: "n = 12 * (n div 12) + 11" by (metis mult_div_mod_eq)
  then have "(n + 1) div 12 = n div 12 + 1" "(n + 1) mod 12 = 0"
    by (intro int_div_pos_eq [of _ _ _ 0] int_mod_pos_eq [of _ _ "n div 12 + 1"]; simp)+
  then show ?thesis using True by (simp add: month_start_def days_before_next_year days_before_month_def)
next
  case False
  then have "0 \<le> n mod 12" "n mod 12 < 11" using pos_mod_bound [of 12 n] pos_mod_sign [of 12 n] by linarith+
  moreover from this have "(n + 1) div 12 = n div 12" "(n + 1) mod 12 = n mod 12 + 1"
    by (intro int_div_pos_eq [of _ _ _ "n mod 12 + 1"] int_mod_pos_eq [of _ _ "n div 12"]; simp)+
  ultimately show ?thesis using month_length by (simp add: month_start_def)
qed

lemma month_start_mono:
  assumes "n < n'"
  shows "month_start n < month_start n'"
proof -
  have "month_start n < month_start (n + 1 + int k)" for k
  proof (induction k)
    case (Suc k)
    then show ?case using month_start_step [of "n + 1 + int k"] by (simp add: add.commute add.left_commute)
  qed (simp add: month_start_step)
  from this [of "nat (n' - n - 1)"] show ?thesis using assms by simp
qed

lemma month_start_mono_le: "n \<le> n' \<Longrightarrow> month_start n \<le> month_start n'"
  using month_start_mono [of n n'] by (cases "n = n'") auto

lemma month_start_unique:
  assumes "month_start n \<le> d" "d < month_start (n + 1)" "month_start n' \<le> d" "d < month_start (n' + 1)"
  shows "n = n'"
proof (rule ccontr)
  assume "n \<noteq> n'"
  then have "n + 1 \<le> n' \<or> n' + 1 \<le> n" by linarith
  then show False using month_start_mono_le [of "n + 1" n'] month_start_mono_le [of "n' + 1" n] assms by linarith
qed

lemma month_in_year_bounds:
  assumes "0 \<le> yday"
  shows "0 \<le> month_in_year leap yday \<and> month_in_year leap yday < 12 \<and> days_before_month leap (month_in_year leap yday) \<le> yday
    \<and> (month_in_year leap yday < 11 \<longrightarrow> yday < days_before_month leap (month_in_year leap yday + 1))"
proof -
  let ?P = "\<lambda>m. days_before_month leap (int m) \<le> yday" and ?xs = "[1..<12]"
  define k where "k = length (takeWhile ?P ?xs)"
  have m: "month_in_year leap yday = int k" by (simp add: month_in_year_def k_def)
  have k: "k \<le> 11" using length_takeWhile_le [of ?P ?xs] by (simp add: k_def)
  have "yday < days_before_month leap (int k + 1)" if "k < 11"
    using nth_length_takeWhile [of ?P ?xs] that by (simp add: k_def not_le add.commute)
  moreover have "?P k"
  proof (cases k)
    case 0
    then show ?thesis using assms by (simp add: days_before_month_def)
  next
    case (Suc i)
    then have "takeWhile ?P ?xs ! i \<in> set (takeWhile ?P ?xs)" by (intro nth_mem) (simp add: k_def)
    moreover have "takeWhile ?P ?xs ! i = k" using Suc k by (simp add: takeWhile_nth k_def)
    ultimately show ?thesis using set_takeWhileD by fastforce
  qed
  ultimately show ?thesis using k by (simp add: m)
qed

lemma month_number_bounds: "month_start (month_number d) \<le> d \<and> d < month_start (month_number d + 1)"
proof -
  obtain y yday where yd: "year_and_day d = (y, yday)" by (cases "year_and_day d")
  let ?m = "month_in_year (leap_year y) yday"
  have c: "days_before_year y + yday = d" "0 \<le> yday" "yday < (if leap_year y then 366 else 365)"
    using year_and_day_correct [OF yd] by simp_all
  have b: "0 \<le> ?m" "?m < 12" "days_before_month (leap_year y) ?m \<le> yday" "?m < 11 \<Longrightarrow> yday < days_before_month (leap_year y) (?m + 1)"
    using month_in_year_bounds [OF c(2)] by blast+
  have n: "month_number d = 12 * y + ?m" by (simp add: month_number_def yd)
  have start: "month_start (12 * y + k) = days_before_year y + days_before_month (leap_year y) k" if "0 \<le> k" "k < 12" for k
    using that by (simp add: month_start_def)
  have "d < month_start (12 * y + ?m + 1)"
  proof (cases "?m < 11")
    case True
    then show ?thesis using start [of "?m + 1"] b(1,4) c(1) by (simp add: add.assoc)
  next
    case False
    then have "12 * y + ?m + 1 = 12 * (y + 1) + 0" using b(2) by simp
    then have "month_start (12 * y + ?m + 1) = days_before_year (y + 1)" by (simp add: month_start_def days_before_month_def add.commute)
    then show ?thesis using days_before_next_year [of y] c(1,3) by simp
  qed
  then show ?thesis using start [OF b(1,2)] b(3) c(1) by (simp add: n)
qed

lemma month_number_start: "month_number (month_start n) = n"
  using month_number_bounds [of "month_start n"] month_start_step [of n]
  by (intro month_start_unique [of _ "month_start n"]) auto

section \<open>Buckets as a partition of time\<close>

text \<open>What every tier promises: its buckets are the intervals from a bucket start to the next one.\<close>

locale bucketing =
  fixes trunc nxt :: "gotime \<Rightarrow> gotime"
  assumes trunc_le: "trunc t \<le> t"
    and lt_next: "t < nxt (trunc t)"
    and trunc_between: "trunc b = b \<Longrightarrow> b \<le> t \<Longrightarrow> t < nxt b \<Longrightarrow> trunc t = b"
    and trunc_idem: "trunc (trunc t) = trunc t"
begin

lemma one_bucket: "\<exists>!b. trunc b = b \<and> b \<le> t \<and> t < nxt b"
proof (rule ex1I)
  show "trunc (trunc t) = trunc t \<and> trunc t \<le> t \<and> t < nxt (trunc t)" using trunc_le lt_next trunc_idem by simp
  show "b = trunc t" if "trunc b = b \<and> b \<le> t \<and> t < nxt b" for b using trunc_between [of b t] that by simp
qed

lemma start_iff:
  assumes "trunc s = s"
  shows "trunc x \<le> s \<longleftrightarrow> x < nxt s"
proof
  assume le: "trunc x \<le> s"
  show "x < nxt s"
  proof (rule ccontr)
    assume "\<not> x < nxt s"
    moreover have "s < nxt s" using lt_next [of s] assms by simp
    ultimately have "trunc s = trunc x" using trunc_between [OF trunc_idem le] lt_next [of x] by simp
    then show False using lt_next [of x] assms \<open>\<not> x < nxt s\<close> by simp
  qed
next
  assume "x < nxt s"
  then show "trunc x \<le> s" using trunc_between [OF assms, of "trunc x"] trunc_le [of x] trunc_idem [of x] by force
qed

end

text \<open>A tier built from another one, with the source window of a bucket as in \<open>sourceWindow\<close>.\<close>

locale tiering = src: bucketing strunc snext + tgt: bucketing ttrunc tnext
  for strunc snext ttrunc tnext :: "gotime \<Rightarrow> gotime"
begin

lemma window_iff:
  assumes "strunc s = s"
  shows "strunc b \<le> s \<and> s < strunc (tnext b) \<longleftrightarrow> b \<le> snext s - 1 \<and> snext s - 1 < tnext b"
  using src.start_iff [OF assms, of b] src.start_iff [OF assms, of "tnext b"] by auto

lemma source_in_one_target:
  assumes "strunc s = s"
  shows "\<exists>!b. ttrunc b = b \<and> strunc b \<le> s \<and> s < strunc (tnext b)"
  using tgt.one_bucket [of "snext s - 1"] unfolding window_iff [OF assms] .

lemma source_closed_first:
  assumes "strunc s = s" and "s < strunc (tnext b)"
  shows "snext s \<le> tnext b"
  using src.start_iff [OF assms(1), of "tnext b"] assms(2) by auto

end

lemma fixed_bucketing:
  assumes "0 < d"
  shows "bucketing (\<lambda>t. t - t mod d) (\<lambda>b. b + d)"
proof
  fix t b :: int
  show "t - t mod d \<le> t" "t < t - t mod d + d" using assms by simp_all
  show "t - t mod d - (t - t mod d) mod d = t - t mod d" by simp
  assume "b - b mod d = b" "b \<le> t" "t < b + d"
  then have "t mod d = t - b" by (intro int_mod_pos_eq [of _ _ "b div d"]) (use div_mult_mod_eq [of b d] in \<open>simp_all add: mult.commute\<close>)
  then show "t - t mod d = b" by simp
qed

lemma step_bucketing:
  assumes "0 < step" "step * second < 2 ^ 63" "step \<noteq> StepMonth" "step \<noteq> StepWeek"
  shows "bucketing (\<lambda>t. TruncateBucket t step) (\<lambda>b. NextBucket b step)"
proof -
  have "s64 (step * second) = step * second" using assms(1,2) by (intro s64_id) (auto simp: in_s64_def time_units)
  moreover have "0 < step * second" using assms(1) by (simp add: time_units)
  ultimately show ?thesis
    using fixed_bucketing [of "step * second"] assms by (simp add: TruncateBucket_def NextBucket_def time_Truncate_def)
qed

lemma week_bucketing: "bucketing (\<lambda>t. TruncateBucket t StepWeek) (\<lambda>b. NextBucket b StepWeek)"
proof -
  have "TruncateBucket t StepWeek = t - t mod (7 * day)" for t
  proof -
    have "(Weekday (t div day) + 6) mod 7 = t div day mod 7" by (simp add: Weekday_def mod_add_left_eq)
    moreover have "t mod (7 * day) = day * (t div day mod 7) + t mod day" using zmod_zmult2_eq [of 7 t day] by (simp add: mult.commute)
    moreover have "t div day * day = t - t mod day" by (simp add: minus_mod_eq_div_mult)
    ultimately show ?thesis by (simp add: TruncateBucket_def steps add_days_def Let_def algebra_simps)
  qed
  moreover have "NextBucket b StepWeek = b + 7 * day" for b by (simp add: NextBucket_def steps add_days_def)
  ultimately show ?thesis using fixed_bucketing [of "7 * day"] by simp
qed

lemma month_bucketing: "bucketing (\<lambda>t. TruncateBucket t StepMonth) (\<lambda>b. NextBucket b StepMonth)"
proof
  fix t b :: int
  have T: "TruncateBucket x StepMonth = month_start (month_number (x div day)) * day" for x by (simp add: TruncateBucket_def)
  have N: "NextBucket (month_start n * day) StepMonth = month_start (n + 1) * day" for n
    by (simp add: NextBucket_def add_months_def Let_def month_number_start)
  have t: "t div day * day \<le> t" "t < (t div day + 1) * day"
    using pos_mod_bound [OF day_pos(1), of t] pos_mod_sign [OF day_pos(1), of t] div_mult_mod_eq [of t day]
    unfolding distrib_right mult_1 by linarith+
  have m: "month_start (month_number (t div day)) \<le> t div day" "t div day + 1 \<le> month_start (month_number (t div day) + 1)"
    using month_number_bounds [of "t div day"] by auto
  show "TruncateBucket t StepMonth \<le> t"
    unfolding T by (rule order.trans [OF mult_right_mono [OF m(1) day_pos(2)] t(1)])
  show "t < NextBucket (TruncateBucket t StepMonth) StepMonth"
    unfolding T N by (rule less_le_trans [OF t(2) mult_right_mono [OF m(2) day_pos(2)]])
  show "TruncateBucket (TruncateBucket t StepMonth) StepMonth = TruncateBucket t StepMonth"
    unfolding T by (simp add: month_number_start)
  assume b: "TruncateBucket b StepMonth = b" "b \<le> t" "t < NextBucket b StepMonth"
  define n where "n = month_number (b div day)"
  have bn: "b = month_start n * day" using b(1) by (simp add: T n_def)
  then have le: "month_start n * day \<le> t" and less: "t < month_start (n + 1) * day" using b(2,3) N by auto
  have "month_start n \<le> t div day" using zdiv_mono1 [OF le day_pos(1)] by simp
  moreover have "t div day < month_start (n + 1)"
    using mult_right_mono [OF _ day_pos(2), of "month_start (n + 1)" "t div day"] t(1) less by linarith
  ultimately have "month_number (t div day) = n" using month_number_bounds month_start_unique by blast
  then show "TruncateBucket t StepMonth = b" by (simp add: T bn)
qed

interpretation five_minutes: bucketing "\<lambda>t. TruncateBucket t Step5m" "\<lambda>b. NextBucket b Step5m"
  by (rule step_bucketing) (simp_all add: steps time_units)

interpretation hourly: tiering "\<lambda>t. TruncateBucket t Step5m" "\<lambda>b. NextBucket b Step5m"
  "\<lambda>t. TruncateBucket t StepHour" "\<lambda>b. NextBucket b StepHour"
  by (intro tiering.intro step_bucketing) (simp_all add: steps time_units)

interpretation daily: tiering "\<lambda>t. TruncateBucket t StepHour" "\<lambda>b. NextBucket b StepHour"
  "\<lambda>t. TruncateBucket t StepDay" "\<lambda>b. NextBucket b StepDay"
  by (intro tiering.intro step_bucketing) (simp_all add: steps time_units)

interpretation weekly: tiering "\<lambda>t. TruncateBucket t StepDay" "\<lambda>b. NextBucket b StepDay"
  "\<lambda>t. TruncateBucket t StepWeek" "\<lambda>b. NextBucket b StepWeek"
  by (intro tiering.intro week_bucketing step_bucketing) (simp_all add: steps time_units)

interpretation monthly: tiering "\<lambda>t. TruncateBucket t StepWeek" "\<lambda>b. NextBucket b StepWeek"
  "\<lambda>t. TruncateBucket t StepMonth" "\<lambda>b. NextBucket b StepMonth"
  by (intro tiering.intro week_bucketing month_bucketing)

section \<open>Properties\<close>

text \<open>
  C23: the buckets of every tier partition time, calendar months and ISO weeks included. Every instant
  lies in exactly one bucket, the one \<^verbatim>\<open>TruncateBucket\<close> names, and it ends where \<^verbatim>\<open>NextBucket\<close> says.
\<close>

theorem buckets_partition_time:
  assumes "step \<in> {Step5m, StepHour, StepDay, StepWeek, StepMonth}"
  shows "TruncateBucket t step \<le> t \<and> t < NextBucket (TruncateBucket t step) step
    \<and> (\<exists>!b. TruncateBucket b step = b \<and> b \<le> t \<and> t < NextBucket b step)"
  using assms
  by (elim insertE emptyE; hypsubst)
    (intro conjI five_minutes.trunc_le five_minutes.lt_next five_minutes.one_bucket hourly.tgt.trunc_le hourly.tgt.lt_next
      hourly.tgt.one_bucket daily.tgt.trunc_le daily.tgt.lt_next daily.tgt.one_bucket weekly.tgt.trunc_le weekly.tgt.lt_next
      weekly.tgt.one_bucket monthly.tgt.trunc_le monthly.tgt.lt_next monthly.tgt.one_bucket)+

text \<open>16 November 2026, 12:00:00 UTC falls in the month that starts on 1 November.\<close>

theorem buckets_partition_time_witness:
  "TruncateBucket (739935 * day + 12 * hour) StepMonth = 739920 * day
   \<and> TruncateBucket (739935 * day + 12 * hour) StepMonth \<le> 739935 * day + 12 * hour"
proof -
  have "TruncateBucket (739935 * day + 12 * hour) StepMonth = 739920 * day" by code_simp
  then show ?thesis using buckets_partition_time [of StepMonth "739935 * day + 12 * hour"] by simp
qed

lemma ladder_tiering:
  "tier \<in> set Ladder \<Longrightarrow> tiering (\<lambda>t. TruncateBucket t (t_Source tier)) (\<lambda>b. NextBucket b (t_Source tier))
     (\<lambda>t. TruncateBucket t (t_Step tier)) (\<lambda>b. NextBucket b (t_Step tier))"
  using hourly.tiering_axioms daily.tiering_axioms weekly.tiering_axioms monthly.tiering_axioms
  by (auto simp: Ladder_def)

text \<open>
  C24: compaction counts every source bucket once and only when it is complete. On every rung of the
  ladder each source bucket lies in the source window of exactly one target bucket, a week that
  straddles two months included, and it is closed whenever that target bucket is.
\<close>

theorem source_windows_partition:
  assumes "tier \<in> set Ladder" and "TruncateBucket s (t_Source tier) = s"
  shows "(\<exists>!b. TruncateBucket b (t_Step tier) = b \<and> fst (sourceWindow tier b) \<le> s \<and> s < snd (sourceWindow tier b))
    \<and> (\<forall>b now. s < snd (sourceWindow tier b) \<longrightarrow> BucketClosed b (t_Step tier) now \<longrightarrow> BucketClosed s (t_Source tier) now)"
proof (intro conjI allI impI)
  note tiers = ladder_tiering [OF assms(1)]
  show "\<exists>!b. TruncateBucket b (t_Step tier) = b \<and> fst (sourceWindow tier b) \<le> s \<and> s < snd (sourceWindow tier b)"
    unfolding sourceWindow_def fst_conv snd_conv by (rule tiering.source_in_one_target [OF tiers assms(2)])
  fix b now assume "s < snd (sourceWindow tier b)" "BucketClosed b (t_Step tier) now"
  then show "BucketClosed s (t_Source tier) now"
    using tiering.source_closed_first [OF tiers assms(2), of b] unfolding sourceWindow_def snd_conv BucketClosed_def by linarith
qed

text \<open>The week that starts on Monday 28 September 2026 ends in October and belongs to it.\<close>

theorem source_windows_partition_witness:
  "\<exists>tier \<in> set Ladder. TruncateBucket (739886 * day) (t_Source tier) = 739886 * day
     \<and> (\<exists>!b. TruncateBucket b (t_Step tier) = b \<and> fst (sourceWindow tier b) \<le> 739886 * day \<and> 739886 * day < snd (sourceWindow tier b))
     \<and> sourceWindow tier (739889 * day) = (739886 * day, 739914 * day)"
proof (intro bexI conjI)
  let ?tier = "\<lparr>t_Step = StepMonth, t_Source = StepWeek, t_Label = ''monthly''\<rparr>"
  show t: "?tier \<in> set Ladder" by (simp add: Ladder_def)
  show s: "TruncateBucket (739886 * day) (t_Source ?tier) = 739886 * day" by code_simp
  show "\<exists>!b. TruncateBucket b (t_Step ?tier) = b \<and> fst (sourceWindow ?tier b) \<le> 739886 * day \<and> 739886 * day < snd (sourceWindow ?tier b)"
    by (rule source_windows_partition [OF t s, THEN conjunct1])
  show "sourceWindow ?tier (739889 * day) = (739886 * day, 739914 * day)" by code_simp
qed

text \<open>Stepping back undoes stepping forward.\<close>

lemma PrevBucket_NextBucket:
  assumes "step \<in> {Step5m, StepHour, StepDay, StepWeek, StepMonth}" and "TruncateBucket b step = b"
  shows "PrevBucket (NextBucket b step) step = b"
proof (cases "step = StepMonth")
  case True
  define n where "n = month_number (b div day)"
  have "b = month_start n * day" using assms(2) True by (simp add: TruncateBucket_def n_def)
  then show ?thesis using True by (simp add: NextBucket_def PrevBucket_def add_months_def Let_def month_number_start)
next
  case False
  then show ?thesis using assms(1)
    by (elim insertE emptyE) (simp_all add: NextBucket_def PrevBucket_def add_days_def steps time_units s64_id in_s64_def)
qed

end
