(* ===== verification/RollupMerge.thy ===== *)
theory RollupMerge
  imports MetricChains MetricAttributes RollupTiers
begin

text \<open>
  Building a coarser rollup tier from a finer one: \<^verbatim>\<open>internal/rollup/histogram.go\<close>, \<^verbatim>\<open>attrs.go\<close> and
  \<^verbatim>\<open>merge.go\<close>. Histograms are values here: the sources only ever change one they have just copied. The
  JSON of label sets and of the extra column is read and written by functions of the record \<open>codec\<close>,
  which stand for Go's library. Rows of one series have distinct buckets, so sorting them by
  bucket leaves no choice.
\<close>

section \<open>Rows\<close>

record MetricRollup =
  mr_ProjectID :: int
  mr_Name :: string
  mr_Type :: string
  mr_Unit :: string
  mr_AttrFingerprint :: string
  mr_Attributes :: string
  mr_Bucket :: gotime
  mr_Count :: int
  mr_Sum :: rat
  mr_Min :: rat
  mr_Max :: rat
  mr_Last :: rat
  mr_ObsCount :: int
  mr_Extra :: string
  mr_Temporality :: string
  mr_StepSeconds :: int

definition zero_rollup :: MetricRollup where
  "zero_rollup = \<lparr>mr_ProjectID = 0, mr_Name = [], mr_Type = [], mr_Unit = [], mr_AttrFingerprint = [], mr_Attributes = [],
     mr_Bucket = zero_time, mr_Count = 0, mr_Sum = 0, mr_Min = 0, mr_Max = 0, mr_Last = 0, mr_ObsCount = 0, mr_Extra = [],
     mr_Temporality = [], mr_StepSeconds = 0\<rparr>"

definition CoarseSeriesKey :: "string \<Rightarrow> string \<Rightarrow> string" where
  "CoarseSeriesKey name fingerprint = name @ NUL # fingerprint"

definition SourceTailKey :: "MetricRollup \<Rightarrow> string" where
  "SourceTailKey m = FormatInt (mr_ProjectID m) @ NUL # CoarseSeriesKey (mr_Name m) (mr_AttrFingerprint m)"

section \<open>Histograms\<close>

record histogram =
  h_Bounds :: "rat list"
  h_Counts :: "rat list"

record codec =
  read_histogram :: "string \<Rightarrow> histogram option"
  show_histogram :: "histogram \<Rightarrow> string"
  label_json :: json

definition histogramOf :: "codec \<Rightarrow> MetricRollup \<Rightarrow> histogram option" where
  "histogramOf cd m =
     (if mr_Type m \<noteq> ''histogram'' \<or> mr_Extra m = [] then None
      else case read_histogram cd (mr_Extra m) of
        None \<Rightarrow> None
      | Some h \<Rightarrow> if h_Counts h = [] then None else Some h)"

text \<open>The differences so far, or \<open>None\<close> once a bucket has shrunk.\<close>

fun sub_counts :: "rat list \<Rightarrow> rat list \<Rightarrow> rat list option" where
  "sub_counts (c # cs) (p # ps) =
     (let d = fl64 (c - p) in
      if d < 0 then None else case sub_counts cs ps of None \<Rightarrow> None | Some ds \<Rightarrow> Some (d # ds))"
| "sub_counts _ _ = Some []"

definition histogram_sub :: "histogram option \<Rightarrow> histogram option \<Rightarrow> histogram option" where
  "histogram_sub h prev =
     (case h of
        None \<Rightarrow> None
      | Some h \<Rightarrow>
          (case prev of
             None \<Rightarrow> None
           | Some p \<Rightarrow>
               if length (h_Counts p) \<noteq> length (h_Counts h) then None
               else case sub_counts (h_Counts h) (h_Counts p) of
                 None \<Rightarrow> Some h
               | Some ds \<Rightarrow> Some (h\<lparr>h_Counts := ds\<rparr>)))"

definition histogram_total :: "histogram option \<Rightarrow> rat" where
  "histogram_total h = (case h of None \<Rightarrow> 0 | Some h \<Rightarrow> foldl (\<lambda>n c. fl64 (n + c)) 0 (h_Counts h))"

definition histogram_marshal :: "codec \<Rightarrow> histogram option \<Rightarrow> string" where
  "histogram_marshal cd h = (case h of None \<Rightarrow> [] | Some h \<Rightarrow> if h_Counts h = [] then [] else show_histogram cd h)"

definition addHistogram :: "histogram option \<Rightarrow> histogram option \<Rightarrow> histogram option" where
  "addHistogram dst src =
     (case src of
        None \<Rightarrow> dst
      | Some s \<Rightarrow>
          (case dst of
             None \<Rightarrow> Some s
           | Some d \<Rightarrow>
               if length (h_Counts d) \<noteq> length (h_Counts s) then
                 if histogram_total src > histogram_total dst then Some s else Some d
               else Some (d\<lparr>h_Counts := map2 (\<lambda>x y. fl64 (x + y)) (h_Counts d) (h_Counts s)\<rparr>)))"

section \<open>Dropped attributes\<close>

record DropPolicy =
  dp_Hourly :: "string list"
  dp_Daily :: "string list"

definition DefaultDropPolicy :: DropPolicy where
  "DefaultDropPolicy =
     \<lparr>dp_Hourly = [''service.version'', ''service.instance.id'', ''server.port'', ''net.host.port'', ''net.host.name'', ''host.name'',
        ''k8s.pod.name'', ''process.pid'', ''session.id'', ''telemetry.sdk.*'', ''network.protocol.*'', ''url.scheme'', ''http.scheme'',
        ''http.flavor''],
      dp_Daily = [''path'', ''url.path'', ''url.full'', ''http.url'', ''http.target'', ''server.address'', ''http.host'',
        ''http.server_name'']\<rparr>"

definition keysFor :: "DropPolicy \<Rightarrow> int \<Rightarrow> string list" where
  "keysFor p step =
     (if step \<ge> StepDay then dp_Hourly p @ dp_Daily p else if step \<ge> StepHour then dp_Hourly p else [])"

definition HasPrefix :: "string \<Rightarrow> string \<Rightarrow> bool" where
  "HasPrefix s prefix \<longleftrightarrow> take (length prefix) s = prefix"

definition dropMatching :: "labels \<Rightarrow> string \<Rightarrow> labels" where
  "dropMatching attrs pattern =
     (if pattern = [] \<or> last pattern \<noteq> CHR ''*'' then AList.delete pattern attrs
      else filter (\<lambda>(k, _). \<not> HasPrefix k (butlast pattern)) attrs)"

definition Reduce :: "codec \<Rightarrow> DropPolicy \<Rightarrow> string \<Rightarrow> int \<Rightarrow> string \<times> string" where
  "Reduce cd p attributes step =
     (let attrs = foldl dropMatching (ParseAttributes (label_json cd) attributes) (keysFor p step)
      in (CanonicalAttributes (label_json cd) attrs, Fingerprint attrs))"

section \<open>Running totals\<close>

definition TemporalityDelta :: string where
  "TemporalityDelta = ''delta''"

record cumulativeState =
  cs_cumulative :: bool
  cs_haveLast :: bool
  cs_last :: rat
  cs_hist :: "histogram option"
  cs_haveDist :: bool
  cs_sum :: rat
  cs_obsCount :: int

definition new_state :: "bool \<Rightarrow> cumulativeState" where
  "new_state cumulative = \<lparr>cs_cumulative = cumulative, cs_haveLast = False, cs_last = 0, cs_hist = None, cs_haveDist = False,
     cs_sum = 0, cs_obsCount = 0\<rparr>"

definition state_start :: "codec \<Rightarrow> cumulativeState \<Rightarrow> MetricRollup \<Rightarrow> cumulativeState" where
  "state_start cd s prev =
     (if \<not> cs_cumulative s then s
      else s\<lparr>cs_haveLast := True, cs_last := mr_Last prev, cs_hist := histogramOf cd prev, cs_haveDist := True,
             cs_sum := mr_Sum prev, cs_obsCount := mr_ObsCount prev\<rparr>)"

definition state_distribution :: "cumulativeState \<Rightarrow> MetricRollup \<Rightarrow> (rat \<times> int) \<times> cumulativeState" where
  "state_distribution s r =
     (if \<not> cs_cumulative s then ((mr_Sum r, mr_ObsCount r), s)
      else
        ((if cs_haveDist s \<and> mr_Sum r \<ge> cs_sum s \<and> mr_ObsCount r \<ge> cs_obsCount s
          then (fl64 (mr_Sum r - cs_sum s), s64 (mr_ObsCount r - cs_obsCount s))
          else if \<not> cs_haveDist s then (0, 0)
          else (mr_Sum r, mr_ObsCount r)),
         s\<lparr>cs_haveDist := True, cs_sum := mr_Sum r, cs_obsCount := mr_ObsCount r\<rparr>))"

definition state_increase :: "cumulativeState \<Rightarrow> MetricRollup \<Rightarrow> rat \<times> cumulativeState" where
  "state_increase s r =
     (if \<not> cs_cumulative s then (mr_Sum r, s)
      else
        (if \<not> cs_haveLast s then 0 else if mr_Last r \<ge> cs_last s then fl64 (mr_Last r - cs_last s) else mr_Last r,
         s\<lparr>cs_haveLast := True, cs_last := mr_Last r\<rparr>))"

definition state_histogram :: "codec \<Rightarrow> cumulativeState \<Rightarrow> MetricRollup \<Rightarrow> histogram option \<times> cumulativeState" where
  "state_histogram cd s r =
     (let cur = histogramOf cd r in
      if \<not> cs_cumulative s then (cur, s)
      else (histogram_sub cur (cs_hist s), if cur = None then s else s\<lparr>cs_hist := cur\<rparr>))"

section \<open>Contributions\<close>

record contribution =
  co_row :: MetricRollup
  co_count :: int
  co_sum :: rat
  co_obsCount :: int
  co_last :: rat
  co_min :: rat
  co_max :: rat
  co_haveVal :: bool
  co_hist :: "histogram option"
  co_extra :: string

definition chain_steps :: "rat list \<Rightarrow> nat \<Rightarrow> rat list" where
  "chain_steps vals offset =
     (let previous = ChainPrevious vals in
      map (\<lambda>i. if previous ! i \<ge> 0 then fl64 (vals ! i - vals ! nat (previous ! i)) else 0) [offset..<length vals])"

definition interleavedSteps :: "MetricRollup list \<Rightarrow> MetricRollup \<Rightarrow> bool \<Rightarrow> rat list option" where
  "interleavedSteps rows prev cumulative =
     (if \<not> cumulative \<or> mr_Type (hd rows) \<noteq> ''sum'' then None
      else
        let before = (if IsZero (mr_Bucket prev) then [] else [mr_Last prev]);
            vals = before @ map mr_Last rows
        in if \<not> Interleaved vals then None else Some (chain_steps vals (length before)))"

definition observe_row :: "MetricRollup \<Rightarrow> contribution \<Rightarrow> contribution" where
  "observe_row r c =
     c\<lparr>co_min := (if \<not> co_haveVal c \<or> mr_Min r < co_min c then mr_Min r else co_min c),
       co_max := (if \<not> co_haveVal c \<or> mr_Max r > co_max c then mr_Max r else co_max c),
       co_haveVal := True\<rparr>"

text \<open>One iteration of the loop over a series' rows; \<open>step\<close> is the row's entry of the interleaved steps.\<close>

definition add_row :: "codec \<Rightarrow> MetricRollup \<times> rat option \<Rightarrow> contribution \<times> cumulativeState \<Rightarrow> contribution \<times> cumulativeState" where
  "add_row cd rs cs =
     (case (rs, cs) of ((r, step), (c, s)) \<Rightarrow>
        let c = observe_row r (c\<lparr>co_count := s64 (co_count c + mr_Count r)\<rparr>) in
        if mr_Type r = ''sum'' then
          let (inc, s) = (case step of Some d \<Rightarrow> (d, s) | None \<Rightarrow> state_increase s r)
          in (c\<lparr>co_sum := fl64 (co_sum c + inc), co_obsCount := s64 (co_obsCount c + mr_ObsCount r)\<rparr>, s)
        else if mr_Type r = ''histogram'' then
          let ((sm, obs), s) = state_distribution s r; (h, s) = state_histogram cd s r
          in (c\<lparr>co_sum := fl64 (co_sum c + sm), co_obsCount := s64 (co_obsCount c + obs), co_hist := addHistogram (co_hist c) h\<rparr>, s)
        else if mr_Type r = ''exp_histogram'' \<or> mr_Type r = ''summary'' then
          let ((sm, obs), s) = (if mr_StepSeconds r = 0 then state_distribution s r else ((mr_Sum r, mr_ObsCount r), s))
          in (c\<lparr>co_sum := fl64 (co_sum c + sm), co_obsCount := s64 (co_obsCount c + obs)\<rparr>, s)
        else (c\<lparr>co_sum := fl64 (co_sum c + mr_Sum r), co_obsCount := s64 (co_obsCount c + mr_ObsCount r)\<rparr>, s))"

definition seriesContribution :: "codec \<Rightarrow> MetricRollup list \<Rightarrow> MetricRollup \<Rightarrow> int \<Rightarrow> contribution" where
  "seriesContribution cd rows prev source =
     (let newest = last rows;
          c = \<lparr>co_row = newest, co_count = 0, co_sum = 0, co_obsCount = 0, co_last = mr_Last newest, co_min = 0, co_max = 0,
               co_haveVal = False, co_hist = None, co_extra = mr_Extra newest\<rparr>;
          cumulative = (mr_Temporality newest \<noteq> TemporalityDelta \<and> source = Step5m);
          state = new_state cumulative;
          state = (if \<not> IsZero (mr_Bucket prev) then state_start cd state prev else state);
          steps = (case interleavedSteps rows prev cumulative of None \<Rightarrow> map (\<lambda>_. None) rows | Some ds \<Rightarrow> map Some ds)
      in fst (fold (add_row cd) (zip rows steps) (c, state)))"

text \<open>Grouping in the order in which keys are first seen: the slice of keys and the map of the source in one.\<close>

definition add_to_group :: "('a \<Rightarrow> 'k) \<Rightarrow> 'a \<Rightarrow> ('k \<times> 'a list) list \<Rightarrow> ('k \<times> 'a list) list" where
  "add_to_group f x gs = AList.update (f x) ((case map_of gs (f x) of None \<Rightarrow> [] | Some xs \<Rightarrow> xs) @ [x]) gs"

definition group_rows :: "('a \<Rightarrow> 'k) \<Rightarrow> 'a list \<Rightarrow> ('k \<times> 'a list) list" where
  "group_rows f xs = fold (add_to_group f) xs []"

type_synonym tails = "(string \<times> MetricRollup) list"

record Carry =
  SourceTail :: tails
  TargetLast :: "(string \<times> rat) list"

definition seriesKey :: "MetricRollup \<Rightarrow> int \<times> string \<times> string" where
  "seriesKey m = (mr_ProjectID m, mr_Name m, mr_AttrFingerprint m)"

definition contributionsBySeries :: "codec \<Rightarrow> MetricRollup list \<Rightarrow> Carry \<Rightarrow> int \<Rightarrow> contribution list" where
  "contributionsBySeries cd src carry source =
     map (\<lambda>(_, rows).
        let rows = sort_key mr_Bucket rows;
            prev = (case map_of (SourceTail carry) (SourceTailKey (hd rows)) of None \<Rightarrow> zero_rollup | Some r \<Rightarrow> r)
        in seriesContribution cd rows prev source)
      (group_rows seriesKey src)"

section \<open>Merging\<close>

record targetAcc =
  ta_row :: MetricRollup
  ta_hist :: "histogram option"
  ta_haveVal :: bool

definition newTargetAcc :: "MetricRollup \<Rightarrow> int \<Rightarrow> string \<Rightarrow> string \<Rightarrow> int \<Rightarrow> gotime \<Rightarrow> targetAcc" where
  "newTargetAcc from projectID attrs fingerprint step bucket =
     \<lparr>ta_row = zero_rollup\<lparr>mr_ProjectID := projectID, mr_Name := mr_Name from, mr_Type := mr_Type from, mr_Unit := mr_Unit from,
        mr_Temporality := mr_Temporality from, mr_AttrFingerprint := fingerprint, mr_Attributes := attrs,
        mr_StepSeconds := step, mr_Bucket := bucket\<rparr>,
      ta_hist = None, ta_haveVal = False\<rparr>"

definition acc_add :: "contribution \<Rightarrow> targetAcc \<Rightarrow> targetAcc" where
  "acc_add c a =
     (let row = ta_row a;
          row = row\<lparr>mr_Count := s64 (mr_Count row + co_count c), mr_Sum := fl64 (mr_Sum row + co_sum c),
                    mr_ObsCount := s64 (mr_ObsCount row + co_obsCount c)\<rparr>;
          row = (if co_haveVal c then
                   row\<lparr>mr_Min := (if \<not> ta_haveVal a \<or> co_min c < mr_Min row then co_min c else mr_Min row),
                       mr_Max := (if \<not> ta_haveVal a \<or> co_max c > mr_Max row then co_max c else mr_Max row)\<rparr>
                 else row);
          a = a\<lparr>ta_row := row, ta_haveVal := ta_haveVal a \<or> co_haveVal c\<rparr>
      in if mr_Type row = ''histogram'' then a\<lparr>ta_hist := addHistogram (ta_hist a) (co_hist c)\<rparr>
         else if mr_Type row = ''exp_histogram'' \<or> mr_Type row = ''summary'' then
           if co_extra c \<noteq> [] then a\<lparr>ta_row := row\<lparr>mr_Extra := co_extra c\<rparr>\<rparr> else a
         else a\<lparr>ta_row := row\<lparr>mr_Last := fl64 (mr_Last row + co_last c)\<rparr>\<rparr>)"

definition acc_finish :: "codec \<Rightarrow> rat \<Rightarrow> targetAcc \<Rightarrow> MetricRollup" where
  "acc_finish cd prevTargetLast a =
     (let row = ta_row a;
          row = (if mr_Type row = ''sum'' then row\<lparr>mr_Last := fl64 (prevTargetLast + mr_Sum row)\<rparr> else row)
      in if mr_Type row = ''histogram'' then
           let row = row\<lparr>mr_Extra := histogram_marshal cd (ta_hist a)\<rparr>
           in if mr_ObsCount row = 0 then row\<lparr>mr_ObsCount := trunc (histogram_total (ta_hist a))\<rparr> else row
         else row)"

definition merge_one :: "codec \<Rightarrow> Tier \<Rightarrow> gotime \<Rightarrow> int \<Rightarrow> DropPolicy \<Rightarrow> contribution
    \<Rightarrow> (string \<times> targetAcc) list \<Rightarrow> (string \<times> targetAcc) list" where
  "merge_one cd tier bucket projectID policy c accs =
     (let (attrs, fp) = Reduce cd policy (mr_Attributes (co_row c)) (t_Step tier);
          key = CoarseSeriesKey (mr_Name (co_row c)) fp;
          acc = (case map_of accs key of
                   None \<Rightarrow> newTargetAcc (co_row c) projectID attrs fp (t_Step tier) bucket | Some a \<Rightarrow> a)
      in AList.update key (acc_add c acc) accs)"

definition Merge :: "codec \<Rightarrow> Tier \<Rightarrow> gotime \<Rightarrow> int \<Rightarrow> MetricRollup list \<Rightarrow> DropPolicy \<Rightarrow> Carry \<Rightarrow> MetricRollup list" where
  "Merge cd tier bucket projectID src policy carry =
     (if src = [] then []
      else map (\<lambda>(key, acc). acc_finish cd (case map_of (TargetLast carry) key of None \<Rightarrow> 0 | Some v \<Rightarrow> v) acc)
        (fold (merge_one cd tier bucket projectID policy) (contributionsBySeries cd src carry (t_Source tier)) []))"

section \<open>Grouping\<close>

lemma add_to_group_keys: "distinct (map fst gs) \<Longrightarrow> distinct (map fst (add_to_group f x gs))"
  by (simp add: add_to_group_def distinct_update)

lemma add_to_group_mset:
  assumes "distinct (map fst gs)"
  shows "mset (concat (map snd (add_to_group f x gs))) = add_mset x (mset (concat (map snd gs)))"
proof -
  have "mset (concat (map snd (AList.update k ((case map_of gs k of None \<Rightarrow> [] | Some xs \<Rightarrow> xs) @ [x]) gs)))
      = add_mset x (mset (concat (map snd gs)))" for k
    using assms by (induction gs) auto
  then show ?thesis by (simp add: add_to_group_def)
qed

lemma add_to_group_all:
  assumes "\<forall>(k, xs) \<in> set gs. xs \<noteq> [] \<and> (\<forall>y \<in> set xs. f y = k)" and "distinct (map fst gs)"
  shows "\<forall>(k, xs) \<in> set (add_to_group f x gs). xs \<noteq> [] \<and> (\<forall>y \<in> set xs. f y = k)"
proof -
  have "xs \<noteq> [] \<and> (\<forall>y \<in> set xs. f y = k)" if "(k, xs) \<in> set (add_to_group f x gs)" for k xs
  proof (cases "k = f x")
    case True
    then have "map_of (add_to_group f x gs) (f x) = Some xs"
      using that add_to_group_keys [OF assms(2), of f x] by simp
    then have xs: "xs = (case map_of gs (f x) of None \<Rightarrow> [] | Some xs \<Rightarrow> xs) @ [x]"
      by (simp add: add_to_group_def update_conv)
    show ?thesis
    proof (cases "map_of gs (f x)")
      case (Some ys)
      then have "(f x, ys) \<in> set gs" by (rule map_of_SomeD)
      then show ?thesis using assms(1) True xs Some by auto
    qed (simp add: xs True)
  next
    case False
    have "map_of (add_to_group f x gs) k = Some xs" using that add_to_group_keys [OF assms(2), of f x] by simp
    then have "map_of gs k = Some xs" using False by (simp add: add_to_group_def update_conv)
    then have "(k, xs) \<in> set gs" by (rule map_of_SomeD)
    then show ?thesis using assms(1) by auto
  qed
  then show ?thesis by blast
qed

lemma group_rows_inv:
  "distinct (map fst (group_rows f xs)) \<and> mset (concat (map snd (group_rows f xs))) = mset xs
   \<and> (\<forall>(k, ys) \<in> set (group_rows f xs). ys \<noteq> [] \<and> (\<forall>y \<in> set ys. f y = k))"
proof (induction xs rule: rev_induct)
  case (snoc x xs)
  then show ?case
    using add_to_group_keys [of "group_rows f xs" f x] add_to_group_mset [of "group_rows f xs" f x] add_to_group_all [of "group_rows f xs" f x]
    by (simp add: group_rows_def)
qed (simp add: group_rows_def)

section \<open>What a series contributes\<close>

lemma chain_steps_length: "length (chain_steps vals n) = length vals - n"
  by (simp add: chain_steps_def Let_def)

lemma chain_steps_nonneg:
  assumes "d \<in> set (chain_steps vals n)"
  shows "0 \<le> d"
proof -
  obtain i where i: "i < length vals" "d = (if ChainPrevious vals ! i \<ge> 0 then fl64 (vals ! i - vals ! nat (ChainPrevious vals ! i)) else 0)"
    using assms by (auto simp: chain_steps_def Let_def)
  have "follows_earlier vals (ChainPrevious vals) i" using ChainPrevious_sound [of vals] i(1) by (simp add: sound_on_def)
  then show ?thesis using i(2) by (auto simp: follows_earlier_def intro: fl64_nonneg)
qed

lemma interleavedSteps_length: "interleavedSteps rows prev b = Some ds \<Longrightarrow> length ds = length rows"
  by (auto simp: interleavedSteps_def Let_def chain_steps_length split: if_splits)

lemma interleavedSteps_nonneg: "interleavedSteps rows prev b = Some ds \<Longrightarrow> d \<in> set ds \<Longrightarrow> 0 \<le> d"
  by (auto simp: interleavedSteps_def Let_def split: if_splits intro: chain_steps_nonneg)

lemma add_row_count: "co_count (fst (add_row cd (r, step) (c, s))) = s64 (co_count c + mr_Count r)"
  by (auto simp: add_row_def observe_row_def Let_def split: prod.splits)

definition nonneg_row :: "MetricRollup \<Rightarrow> bool" where
  "nonneg_row r \<longleftrightarrow> 0 \<le> mr_Sum r \<and> 0 \<le> mr_Last r"

lemma state_increase_nonneg: "nonneg_row r \<Longrightarrow> 0 \<le> fst (state_increase s r)"
  by (auto simp: state_increase_def nonneg_row_def intro: fl64_nonneg)

lemma state_distribution_nonneg: "nonneg_row r \<Longrightarrow> 0 \<le> fst (fst (state_distribution s r))"
  by (auto simp: state_distribution_def nonneg_row_def intro: fl64_nonneg)

lemma add_row_sum:
  assumes "nonneg_row r" and "\<And>d. step = Some d \<Longrightarrow> 0 \<le> d" and "0 \<le> co_sum c"
  shows "0 \<le> co_sum (fst (add_row cd (r, step) (c, s)))"
proof -
  have "\<exists>x \<ge> 0. co_sum (fst (add_row cd (r, step) (c, s))) = fl64 (co_sum c + x)"
    using assms(1,2) state_increase_nonneg [OF assms(1), of s] state_distribution_nonneg [OF assms(1), of s]
    by (auto simp: add_row_def observe_row_def nonneg_row_def Let_def split: prod.splits option.splits)
  then show ?thesis using assms(3) by (auto intro!: fl64_nonneg add_nonneg_nonneg)
qed

lemma fold_add_row:
  assumes "\<forall>(r, step) \<in> set rs. nonneg_row r \<and> (\<forall>d. step = Some d \<longrightarrow> 0 \<le> d)" and "0 \<le> co_sum c"
  shows "0 \<le> co_sum (fst (fold (add_row cd) rs (c, s)))"
  using assms
proof (induction rs arbitrary: c s)
  case (Cons x rs)
  obtain r step where x: "x = (r, step)" by (cases x)
  obtain c' s' where c: "add_row cd (r, step) (c, s) = (c', s')" by (cases "add_row cd (r, step) (c, s)")
  have "0 \<le> co_sum c'" using add_row_sum [of r step c cd s] Cons.prems x c by auto
  then show ?case using Cons x c by simp
qed simp

lemma fold_add_row_count:
  "s64 (co_count (fst (fold (add_row cd) rs (c, s)))) = s64 (co_count c + (\<Sum>(r, step) \<leftarrow> rs. mr_Count r))"
proof (induction rs arbitrary: c s)
  case (Cons x rs)
  obtain r step where x: "x = (r, step)" by (cases x)
  obtain c' s' where c: "add_row cd (r, step) (c, s) = (c', s')" by (cases "add_row cd (r, step) (c, s)")
  have "co_count c' = s64 (co_count c + mr_Count r)" using add_row_count [of cd r step c s] c by simp
  then show ?case using Cons.IH [of c' s'] x c s64_add_s64 [of "\<Sum>(r, step) \<leftarrow> rs. mr_Count r" "co_count c + mr_Count r"] by (simp add: ac_simps)
qed simp

lemma add_row_row: "co_row (fst (add_row cd (r, step) (c, s))) = co_row c"
  by (simp only: add_row_def Let_def prod.case split_def fst_conv snd_conv if_distrib [of fst] if_distrib [of co_row])
    (simp add: observe_row_def)

lemma seriesContribution_row: "co_row (seriesContribution cd rows prev source) = last rows"
proof -
  have "co_row (fst (fold (add_row cd) rs cs)) = co_row (fst cs)" for rs cs
  proof (induction rs arbitrary: cs)
    case (Cons x rs)
    then show ?case by (cases x; cases cs) (simp add: add_row_row)
  qed simp
  then show ?thesis by (simp add: seriesContribution_def Let_def)
qed

lemma row_steps_length [simp]:
  "length (case interleavedSteps rows prev b of None \<Rightarrow> map (\<lambda>_. None) rows | Some ds \<Rightarrow> map Some ds) = length rows"
  by (auto split: option.splits dest: interleavedSteps_length)

lemma sum_list_zip: "length xs = length ys \<Longrightarrow> (\<Sum>(x, y) \<leftarrow> zip xs ys. f x) = (\<Sum>x \<leftarrow> xs. f x)"
  by (induction xs ys rule: list_induct2) auto

lemma seriesContribution_count:
  "s64 (co_count (seriesContribution cd rows prev source)) = s64 (\<Sum>r \<leftarrow> rows. mr_Count r)"
  by (simp add: seriesContribution_def Let_def fold_add_row_count sum_list_zip)

lemma seriesContribution_sum:
  assumes "\<forall>r \<in> set rows. nonneg_row r"
  shows "0 \<le> co_sum (seriesContribution cd rows prev source)"
proof -
  have "\<forall>(r, step) \<in> set (zip rows (case interleavedSteps rows prev b of None \<Rightarrow> map (\<lambda>_. None) rows | Some ds \<Rightarrow> map Some ds)).
      nonneg_row r \<and> (\<forall>d. step = Some d \<longrightarrow> 0 \<le> d)" for b
    using assms interleavedSteps_nonneg [of rows prev b] by (fastforce split: option.splits dest: set_zip_leftD set_zip_rightD)
  then show ?thesis unfolding seriesContribution_def Let_def by (intro fold_add_row) simp_all
qed

lemma s64_add_cong: "s64 a = s64 a' \<Longrightarrow> s64 b = s64 b' \<Longrightarrow> s64 (a + b) = s64 (a' + b')"
  by (metis add.commute s64_add_s64)

lemma s64_sum_cong: "(\<And>x. x \<in> set xs \<Longrightarrow> s64 (f x) = s64 (g x)) \<Longrightarrow> s64 (\<Sum>x \<leftarrow> xs. f x) = s64 (\<Sum>x \<leftarrow> xs. g x)"
  by (induction xs) (auto intro: s64_add_cong)

lemma sum_list_groups: "(\<Sum>g \<leftarrow> gs. \<Sum>r \<leftarrow> snd g. f r) = (\<Sum>r \<leftarrow> concat (map snd gs). f r)"
  by (induction gs) auto

lemma contributions_count:
  "s64 (\<Sum>c \<leftarrow> contributionsBySeries cd src carry source. co_count c) = s64 (\<Sum>r \<leftarrow> src. mr_Count r)"
proof -
  let ?gs = "group_rows seriesKey src"
  have sorted: "(\<Sum>r \<leftarrow> sort_key mr_Bucket rows. mr_Count r) = (\<Sum>r \<leftarrow> rows. mr_Count r)" for rows by (rule sum_list_map_perm) simp
  have "s64 (\<Sum>c \<leftarrow> contributionsBySeries cd src carry source. co_count c) = s64 (\<Sum>g \<leftarrow> ?gs. \<Sum>r \<leftarrow> snd g. mr_Count r)"
    unfolding contributionsBySeries_def map_map comp_def Let_def
    by (intro s64_sum_cong) (simp only: case_prod_beta seriesContribution_count sorted)
  moreover have "(\<Sum>r \<leftarrow> concat (map snd ?gs). mr_Count r) = (\<Sum>r \<leftarrow> src. mr_Count r)"
    by (rule sum_list_map_perm) (use group_rows_inv [of seriesKey src] in blast)
  ultimately show ?thesis unfolding sum_list_groups by simp
qed

lemma contributions_sum:
  assumes "\<forall>r \<in> set src. nonneg_row r" and "c \<in> set (contributionsBySeries cd src carry source)"
  shows "0 \<le> co_sum c"
proof -
  obtain k rows prev where g: "(k, rows) \<in> set (group_rows seriesKey src)" and c: "c = seriesContribution cd (sort_key mr_Bucket rows) prev source"
    using assms(2) by (auto simp: contributionsBySeries_def Let_def)
  have "mset (concat (map snd (group_rows seriesKey src))) = mset src" using group_rows_inv [of seriesKey src] by blast
  then have "set (concat (map snd (group_rows seriesKey src))) = set src" by (metis set_mset_mset)
  then have "set rows \<subseteq> set src" using g by force
  then show ?thesis using assms(1) unfolding c by (intro seriesContribution_sum) auto
qed

section \<open>What a target row holds\<close>

lemma acc_add_row:
  "mr_Count (ta_row (acc_add c a)) = s64 (mr_Count (ta_row a) + co_count c)"
  "mr_Sum (ta_row (acc_add c a)) = fl64 (mr_Sum (ta_row a) + co_sum c)"
  "mr_Name (ta_row (acc_add c a)) = mr_Name (ta_row a)"
  "mr_AttrFingerprint (ta_row (acc_add c a)) = mr_AttrFingerprint (ta_row a)"
  "mr_Type (ta_row (acc_add c a)) = mr_Type (ta_row a)"
  by (simp_all add: acc_add_def Let_def)

lemma acc_finish_row:
  "mr_Count (acc_finish cd v a) = mr_Count (ta_row a)" "mr_Name (acc_finish cd v a) = mr_Name (ta_row a)"
  "mr_AttrFingerprint (acc_finish cd v a) = mr_AttrFingerprint (ta_row a)" "mr_Type (acc_finish cd v a) = mr_Type (ta_row a)"
  "mr_Type (ta_row a) = ''sum'' \<Longrightarrow> mr_Last (acc_finish cd v a) = fl64 (v + mr_Sum (ta_row a))"
  by (simp_all add: acc_finish_def Let_def)

definition row_key :: "MetricRollup \<Rightarrow> string" where
  "row_key r = CoarseSeriesKey (mr_Name r) (mr_AttrFingerprint r)"

definition acc_count :: "targetAcc \<Rightarrow> int" where
  "acc_count a = mr_Count (ta_row a)"

definition accs_ok :: "(string \<times> targetAcc) list \<Rightarrow> bool" where
  "accs_ok accs \<longleftrightarrow> gomap_wf accs \<and> (\<forall>(k, a) \<in> set accs. k = row_key (ta_row a))"

definition sums_ok :: "(string \<times> targetAcc) list \<Rightarrow> bool" where
  "sums_ok accs \<longleftrightarrow> (\<forall>(k, a) \<in> set accs. 0 \<le> mr_Sum (ta_row a))"

lemma merge_one_cases:
  obtains key acc where "merge_one cd tier bucket pid policy c accs = AList.update key (acc_add c acc) accs"
    "map_of accs key = Some acc \<or> map_of accs key = None \<and> mr_Count (ta_row acc) = 0 \<and> mr_Sum (ta_row acc) = 0 \<and> key = row_key (ta_row acc)"
proof -
  obtain attrs fp where fp: "Reduce cd policy (mr_Attributes (co_row c)) (t_Step tier) = (attrs, fp)"
    by (cases "Reduce cd policy (mr_Attributes (co_row c)) (t_Step tier)")
  let ?key = "CoarseSeriesKey (mr_Name (co_row c)) fp"
  let ?new = "newTargetAcc (co_row c) pid attrs fp (t_Step tier) bucket"
  have "row_key (ta_row ?new) = ?key" "mr_Count (ta_row ?new) = 0" "mr_Sum (ta_row ?new) = 0"
    by (simp_all add: newTargetAcc_def row_key_def zero_rollup_def)
  then show ?thesis using that [of ?key "case map_of accs ?key of None \<Rightarrow> ?new | Some a \<Rightarrow> a"]
    by (simp add: merge_one_def fp Let_def split: option.splits)
qed

lemma merge_one_ok:
  assumes "accs_ok accs"
  shows "accs_ok (merge_one cd tier bucket pid policy c accs)"
proof (rule merge_one_cases [of cd tier bucket pid policy c accs])
  fix key acc assume m: "merge_one cd tier bucket pid policy c accs = AList.update key (acc_add c acc) accs"
    and acc: "map_of accs key = Some acc \<or> map_of accs key = None \<and> mr_Count (ta_row acc) = 0 \<and> mr_Sum (ta_row acc) = 0 \<and> key = row_key (ta_row acc)"
  have "key = row_key (ta_row acc)" using acc assms by (auto simp: accs_ok_def dest!: map_of_SomeD)
  then have "key = row_key (ta_row (acc_add c acc))" by (simp add: acc_add_row row_key_def)
  then show ?thesis using assms by (auto simp: m accs_ok_def distinct_update set_update split: if_splits)
qed

lemma merge_one_sums:
  assumes "accs_ok accs" and "sums_ok accs" and "0 \<le> co_sum c"
  shows "sums_ok (merge_one cd tier bucket pid policy c accs)"
proof (rule merge_one_cases [of cd tier bucket pid policy c accs])
  fix key acc assume m: "merge_one cd tier bucket pid policy c accs = AList.update key (acc_add c acc) accs"
    and acc: "map_of accs key = Some acc \<or> map_of accs key = None \<and> mr_Count (ta_row acc) = 0 \<and> mr_Sum (ta_row acc) = 0 \<and> key = row_key (ta_row acc)"
  have "0 \<le> mr_Sum (ta_row acc)" using acc assms(2) by (auto simp: sums_ok_def dest!: map_of_SomeD)
  then have "0 \<le> mr_Sum (ta_row (acc_add c acc))" using assms(3) by (auto simp: acc_add_row intro!: fl64_nonneg add_nonneg_nonneg)
  then show ?thesis using assms(1,2) by (auto simp: m accs_ok_def sums_ok_def set_update split: if_splits)
qed

lemma merge_one_count:
  assumes "gomap_wf accs"
  shows "s64 (asum acc_count (merge_one cd tier bucket pid policy c accs)) = s64 (asum acc_count accs + co_count c)"
proof (rule merge_one_cases [of cd tier bucket pid policy c accs])
  fix key acc assume m: "merge_one cd tier bucket pid policy c accs = AList.update key (acc_add c acc) accs"
    and acc: "map_of accs key = Some acc \<or> map_of accs key = None \<and> mr_Count (ta_row acc) = 0 \<and> mr_Sum (ta_row acc) = 0 \<and> key = row_key (ta_row acc)"
  let ?f = acc_count
  have new: "?f (acc_add c acc) = s64 (?f acc + co_count c)" by (simp add: acc_count_def acc_add_row)
  show ?thesis
  proof (cases "map_of accs key")
    case None
    then have "asum ?f (AList.update key (acc_add c acc) accs) = asum ?f accs + s64 (co_count c)"
      using acc new by (simp add: asum_update_new acc_count_def)
    then show ?thesis by (simp add: m s64_add_s64)
  next
    case (Some a)
    then have a: "a = acc" using acc by auto
    have "asum ?f (AList.update key (acc_add c acc) accs) = asum ?f (AList.delete key accs) + s64 (?f acc + co_count c)"
      using asum_update_old [OF assms Some, of ?f "acc_add c acc"] new by (simp add: add.commute)
    moreover have "asum ?f accs = ?f acc + asum ?f (AList.delete key accs)" using asum_split [OF assms Some, of ?f] a by simp
    ultimately show ?thesis by (simp add: m s64_add_s64 ac_simps)
  qed
qed

lemma merge_wf: "gomap_wf accs \<Longrightarrow> gomap_wf (fold (merge_one cd tier bucket pid policy) cs accs)"
proof (induction cs arbitrary: accs)
  case (Cons c cs)
  have "gomap_wf (merge_one cd tier bucket pid policy c accs)"
    using Cons.prems by (rule_tac merge_one_cases [of cd tier bucket pid policy c accs]) (simp add: distinct_update)
  then show ?case using Cons.IH by simp
qed simp

lemma merge_count:
  "gomap_wf accs \<Longrightarrow> s64 (asum acc_count (fold (merge_one cd tier bucket pid policy) cs accs))
     = s64 (asum acc_count accs + (\<Sum>c \<leftarrow> cs. co_count c))"
proof (induction cs arbitrary: accs)
  case (Cons c cs)
  let ?accs = "merge_one cd tier bucket pid policy c accs"
  have wf: "gomap_wf ?accs" using merge_wf [OF Cons.prems, of cd tier bucket pid policy "[c]"] by simp
  show ?case using Cons.IH [OF wf] s64_add_cong [OF merge_one_count [OF Cons.prems] refl, of cd tier bucket pid policy c "\<Sum>c \<leftarrow> cs. co_count c"] by (simp add: add.assoc)
qed simp

lemma merge_ok: "accs_ok accs \<Longrightarrow> accs_ok (fold (merge_one cd tier bucket pid policy) cs accs)"
  by (induction cs arbitrary: accs) (auto intro: merge_one_ok)

lemma merge_sums:
  "accs_ok accs \<Longrightarrow> sums_ok accs \<Longrightarrow> \<forall>c \<in> set cs. 0 \<le> co_sum c \<Longrightarrow> sums_ok (fold (merge_one cd tier bucket pid policy) cs accs)"
  by (induction cs arbitrary: accs) (auto intro: merge_one_ok merge_one_sums)

lemma accs_ok_Nil: "accs_ok []" "sums_ok []"
  by (simp_all add: accs_ok_def sums_ok_def)

section \<open>Properties\<close>

text \<open>
  C21: merging a bucket loses no point and counts none twice. The counts of the rows it writes add up
  to the counts of the source rows, modulo the width of an \<^verbatim>\<open>int64\<close>, and it writes one row per reduced
  series: no two rows have the same metric name and fingerprint.
\<close>

theorem Merge_conserves_count:
  "s64 (\<Sum>r \<leftarrow> Merge cd tier bucket pid src policy carry. mr_Count r) = s64 (\<Sum>r \<leftarrow> src. mr_Count r)
   \<and> distinct (map (\<lambda>r. CoarseSeriesKey (mr_Name r) (mr_AttrFingerprint r)) (Merge cd tier bucket pid src policy carry))"
proof (cases "src = []")
  case False
  define accs where "accs = fold (merge_one cd tier bucket pid policy) (contributionsBySeries cd src carry (t_Source tier)) []"
  let ?out = "Merge cd tier bucket pid src policy carry"
  have out: "?out = map (\<lambda>(key, acc). acc_finish cd (case map_of (TargetLast carry) key of None \<Rightarrow> 0 | Some v \<Rightarrow> v) acc) accs"
    using False by (simp add: Merge_def accs_def)
  have ok: "accs_ok accs" unfolding accs_def by (rule merge_ok [OF accs_ok_Nil(1)])
  have "(\<Sum>r \<leftarrow> ?out. mr_Count r) = asum acc_count accs"
    by (simp add: out asum_def acc_count_def acc_finish_row comp_def case_prod_beta)
  then have "s64 (\<Sum>r \<leftarrow> ?out. mr_Count r) = s64 (\<Sum>r \<leftarrow> src. mr_Count r)"
    using merge_count [of "[]" cd tier bucket pid policy] by (simp add: accs_def contributions_count)
  moreover have "map (\<lambda>r. CoarseSeriesKey (mr_Name r) (mr_AttrFingerprint r)) ?out = map fst accs"
    using ok by (auto simp: out accs_ok_def row_key_def acc_finish_row)
  ultimately show ?thesis using ok by (simp add: accs_ok_def)
qed (simp add: Merge_def)

text \<open>
  C20: a counter never falls from one bucket of a coarser tier to the next. Its running total in a new
  bucket is at least the one of the bucket before, whatever deploys, restarts and shared label sets the
  source series went through, as long as the source values are not negative.
\<close>

theorem Merge_counter_monotone:
  assumes "\<forall>r \<in> set src. nonneg_row r" and "\<forall>(k, v) \<in> set (TargetLast carry). fl64 v = v"
    and "out \<in> set (Merge cd tier bucket pid src policy carry)" and "mr_Type out = ''sum''"
  shows "(case map_of (TargetLast carry) (CoarseSeriesKey (mr_Name out) (mr_AttrFingerprint out)) of None \<Rightarrow> 0 | Some v \<Rightarrow> v)
    \<le> mr_Last out"
proof -
  define accs where "accs = fold (merge_one cd tier bucket pid policy) (contributionsBySeries cd src carry (t_Source tier)) []"
  obtain key acc where a: "(key, acc) \<in> set accs"
    and out: "out = acc_finish cd (case map_of (TargetLast carry) key of None \<Rightarrow> 0 | Some v \<Rightarrow> v) acc"
    using assms(3) by (auto simp: Merge_def accs_def split: if_splits)
  have "accs_ok accs" unfolding accs_def by (rule merge_ok [OF accs_ok_Nil(1)])
  then have key: "key = CoarseSeriesKey (mr_Name out) (mr_AttrFingerprint out)"
    using a by (auto simp: accs_ok_def row_key_def out acc_finish_row)
  have "sums_ok accs" unfolding accs_def
    by (rule merge_sums [OF accs_ok_Nil]) (use contributions_sum [OF assms(1)] in blast)
  then have nn: "0 \<le> mr_Sum (ta_row acc)" using a by (auto simp: sums_ok_def)
  let ?v = "case map_of (TargetLast carry) key of None \<Rightarrow> 0 | Some v \<Rightarrow> v"
  have "fl64 ?v = ?v" using assms(2) by (auto split: option.splits dest!: map_of_SomeD)
  moreover have "fl64 ?v \<le> fl64 (?v + mr_Sum (ta_row acc))" using nn by (intro fl64_mono) simp
  moreover have "mr_Last out = fl64 (?v + mr_Sum (ta_row acc))" using assms(4) by (simp add: out acc_finish_row)
  ultimately show ?thesis unfolding key by simp
qed

text \<open>A counter with a label that the hourly tier drops. The JSON of a label set is the text of its one label here.\<close>

definition demo_codec :: codec where
  "demo_codec = \<lparr>read_histogram = (\<lambda>_. None), show_histogram = (\<lambda>_. []),
     label_json = \<lparr>json_Unmarshal = (\<lambda>s. Some [(''session.id'', JString s)]), json_Marshal = (\<lambda>m. Some (concat (map snd m)))\<rparr>\<rparr>"

definition demo_policy :: DropPolicy where
  "demo_policy = \<lparr>dp_Hourly = [''session.id''], dp_Daily = []\<rparr>"

definition demo_row :: MetricRollup where
  "demo_row = zero_rollup\<lparr>mr_ProjectID := 1, mr_Name := ''requests'', mr_Type := ''sum'', mr_AttrFingerprint := ''a'',
     mr_Attributes := ''a'', mr_Bucket := 300, mr_Count := 1, mr_Last := 30, mr_Temporality := ''cumulative''\<rparr>"

definition demo_carry :: Carry where
  "demo_carry = \<lparr>SourceTail = [], TargetLast = [(CoarseSeriesKey ''requests'' (Fingerprint []), 100)]\<rparr>"

theorem Merge_counter_monotone_witness:
  "\<exists>out. Merge demo_codec (hd Ladder) 0 1 [demo_row] demo_policy demo_carry = [out] \<and> mr_Type out = ''sum'' \<and> 100 \<le> mr_Last out"
proof -
  let ?out = "Merge demo_codec (hd Ladder) 0 1 [demo_row] demo_policy demo_carry"
  have red: "Reduce demo_codec demo_policy ''a'' StepHour = (''{}'', Fingerprint [])"
    by (simp add: Reduce_def ParseAttributes_def CanonicalAttributes_def demo_codec_def demo_policy_def keysFor_def steps dropMatching_def)
  have row: "mr_Name demo_row = ''requests''" "mr_Attributes demo_row = ''a''" "mr_Type demo_row = ''sum''"
    by (simp_all add: demo_row_def)
  obtain r where r: "?out = [r]" "mr_Type r = ''sum''" "mr_Name r = ''requests''" "mr_AttrFingerprint r = Fingerprint []"
    by (simp add: Merge_def contributionsBySeries_def group_rows_def add_to_group_def merge_one_def Let_def Ladder_def seriesContribution_row row red
        newTargetAcc_def acc_finish_row acc_add_row zero_rollup_def)
  have nn: "\<forall>r \<in> set [demo_row]. nonneg_row r" by (simp add: demo_row_def nonneg_row_def zero_rollup_def)
  have rep: "\<forall>(k, v) \<in> set (TargetLast demo_carry). fl64 v = v" using fl64_int [of 100] by (simp add: demo_carry_def)
  have "100 \<le> mr_Last r"
    using Merge_counter_monotone [OF nn rep, of r demo_codec "hd Ladder" 0 1 demo_policy] r by (simp add: demo_carry_def)
  then show ?thesis using r by simp
qed

section \<open>Which series meet in a coarser row\<close>

definition matches_pattern :: "string \<Rightarrow> string \<Rightarrow> bool" where
  "matches_pattern pattern k =
     (if pattern = [] \<or> last pattern \<noteq> CHR ''*'' then k = pattern else HasPrefix k (butlast pattern))"

definition dropped_key :: "DropPolicy \<Rightarrow> int \<Rightarrow> string \<Rightarrow> bool" where
  "dropped_key p step k = list_ex (\<lambda>pattern. matches_pattern pattern k) (keysFor p step)"

lemma map_of_filter_key: "map_of (filter (\<lambda>(k, _). P k) xs) k = (if P k then map_of xs k else None)"
  by (induction xs) auto

lemma dropMatching_map_of: "map_of (dropMatching attrs pattern) k = (if matches_pattern pattern k then None else map_of attrs k)"
  by (auto simp: dropMatching_def matches_pattern_def map_of_filter_key delete_conv)

lemma dropMatching_wf: "gomap_wf attrs \<Longrightarrow> gomap_wf (dropMatching attrs pattern)"
  by (simp add: dropMatching_def distinct_delete distinct_map_filter)

lemma foldl_dropMatching:
  "map_of (foldl dropMatching attrs patterns) k =
     (if list_ex (\<lambda>pattern. matches_pattern pattern k) patterns then None else map_of attrs k)"
  by (induction patterns arbitrary: attrs) (auto simp: dropMatching_map_of)

lemma foldl_dropMatching_wf: "gomap_wf attrs \<Longrightarrow> gomap_wf (foldl dropMatching attrs patterns)"
  by (induction patterns arbitrary: attrs) (auto intro: dropMatching_wf)

lemma keysFor_mono: "step \<le> step' \<Longrightarrow> dropped_key p step k \<Longrightarrow> dropped_key p step' k"
  by (auto simp: dropped_key_def keysFor_def steps split: if_splits)

text \<open>
  C22: two label sets that agree outside the attributes a tier drops reduce to the same JSON and the
  same fingerprint, whatever the order of their entries, so their series share one row of that tier.
\<close>

theorem Reduce_merges:
  assumes "\<forall>k. \<not> dropped_key p step k \<longrightarrow>
    map_of (ParseAttributes (label_json cd) a) k = map_of (ParseAttributes (label_json cd) b) k"
  shows "Reduce cd p a step = Reduce cd p b step"
proof -
  let ?r = "\<lambda>s. foldl dropMatching (ParseAttributes (label_json cd) s) (keysFor p step)"
  have "same_labels (?r a) (?r b)"
    using assms by (auto simp: same_labels_def foldl_dropMatching dropped_key_def)
  moreover have "gomap_wf (?r s)" for s by (intro foldl_dropMatching_wf ParseAttributes_wf)
  ultimately have "Fingerprint (?r a) = Fingerprint (?r b)"
      "CanonicalAttributes (label_json cd) (?r a) = CanonicalAttributes (label_json cd) (?r b)"
    by (auto intro: Fingerprint_same CanonicalAttributes_same)
  then show ?thesis by (simp add: Reduce_def Let_def)
qed

text \<open>Two pods of one service: their label sets differ in the pod's name and in the order of the entries.\<close>

definition pods_json :: json where
  "pods_json = \<lparr>json_Unmarshal = (\<lambda>s. Some (if s = ''first'' then [(''k8s.pod.name'', JString ''a''), (''http.route'', JString ''r'')]
       else [(''http.route'', JString ''r''), (''k8s.pod.name'', JString ''b'')])),
     json_Marshal = (\<lambda>m. Some (concat (map snd m)))\<rparr>"

theorem Reduce_merges_witness:
  "Reduce (demo_codec\<lparr>label_json := pods_json\<rparr>) DefaultDropPolicy ''first'' StepHour =
   Reduce (demo_codec\<lparr>label_json := pods_json\<rparr>) DefaultDropPolicy ''second'' StepHour"
proof (rule Reduce_merges, intro allI impI)
  let ?cd = "demo_codec\<lparr>label_json := pods_json\<rparr>"
  fix k
  assume "\<not> dropped_key DefaultDropPolicy StepHour k"
  then have "k \<noteq> ''k8s.pod.name''"
    by (auto simp: dropped_key_def keysFor_def steps DefaultDropPolicy_def matches_pattern_def)
  then show "map_of (ParseAttributes (label_json ?cd) ''first'') k = map_of (ParseAttributes (label_json ?cd) ''second'') k"
    by (simp add: ParseAttributes_def pods_json_def)
qed

end
