(* ===== verification/Spec2Isabelle.thy ===== *)
theory Spec2Isabelle
  imports TraceWeights SpanHistCodec SpanHistPercentile SpanFilter WriteScheduler MetricRates RollupMerge
begin

text \<open>
  SpanBarn is a Go service that receives OpenTelemetry spans, metrics and logs, keeps a sample of the
  traces, stores what it keeps in SQLite and answers queries over it. This library models the parts of
  it that compute, each in a theory of its own, and proves what makes them correct.

  \<^bold>\<open>Ingest.\<close> A span enters through a ring queue (\<open>RingQueue\<close>, \<^verbatim>\<open>internal/ingest/queue.go\<close>) and is
  collected per trace by the trace buffer (\<open>TraceBuffer\<close>, \<^verbatim>\<open>internal/ingest/trace_buffer*.go\<close>), which
  decides each trace as a whole once it is complete or old enough. The decision asks for a sample ratio
  (\<open>SampleRatio\<close>, \<^verbatim>\<open>sample_ratio.go\<close>) and a survival floor (\<open>MinuteFloor\<close>,
  \<^verbatim>\<open>internal/sampling/minute_floor.go\<close>). Dropped traces are counted until a kept trace of the same
  operation carries their number as its weight (\<open>CarryTally\<close>, \<^verbatim>\<open>trace_buffer_carry.go\<close>), spans that
  arrive after the decision follow it (\<open>DecidedTraces\<close>, \<^verbatim>\<open>trace_buffer_decided.go\<close>), and every span is
  entered in a ledger (\<open>SpanLedger\<close>, \<^verbatim>\<open>internal/spanledger\<close>). \<open>SpanModel\<close> holds the records they share.
  \<open>TraceBufferRun\<close> makes the buffer a transition system: a step is one critical section of the buffer's
  lock, or, in a flush between two of them, the decision of one trace, the release of the carriers or one
  delivery that may fail. So \<^verbatim>\<open>Add\<close>, the pieces of a flush and \<^verbatim>\<open>Close\<close> interleave as that lock lets them; the
  locks of the ratio cache, the floor, the carry and the ledger, which a decision takes one after the
  other, are not interleaved within a step. Over its reachable states \<open>TraceBufferInv\<close>, \<open>TraceBufferFlush\<close>,
  \<open>TraceCount\<close>, \<open>TraceBufferProps\<close> and \<open>TraceWeights\<close> prove that the ledger balances and no error span is
  lost as long as the cap on remembered decisions has evicted none, that every rooted trace is counted
  once, that weights are positive, that the cap holds and that \<^verbatim>\<open>Close\<close> and \<^verbatim>\<open>Drain\<close> leave nothing behind.
  The queue is shown to refine a bounded list, and the ratio lookup to return the most specific setting
  among values read within its TTL.

  \<^bold>\<open>Storage.\<close> All writes go through the write scheduler (\<open>WriteScheduler\<close>, \<^verbatim>\<open>internal/writescheduler\<close>):
  a transition system with one program counter per goroutine, in which a step is one branch of a
  \<^verbatim>\<open>select\<close>. Writes are shown to be serial, high priority ones not to queue behind low priority ones,
  callers not to get stuck, and \<^verbatim>\<open>ErrStopped\<close> to mean that the write never happens.

  \<^bold>\<open>Histograms.\<close> Durations are kept in mergeable histograms (\<open>SpanHist\<close>, \<open>SpanHistCodec\<close>,
  \<open>SpanHistPercentile\<close>; \<^verbatim>\<open>internal/spanhist\<close>): observation agrees with a reference, the byte encoding
  round-trips, merging stored histograms observes all their durations, and a percentile is ordered and lies
  in the bin of the duration of the documented rank, or next to that rank where the exact product is a
  rounding error away from a tie (\<open>percentile_rank_tie\<close> is such a case). \<open>Float64\<close> gives the rounding of
  double precision they use. The bin of a duration is computed with exact integers and not with the
  rounded logarithm of \<^verbatim>\<open>math.Log2\<close>.

  \<^bold>\<open>Metrics.\<close> \<open>MetricChains\<close> and \<open>MetricRates\<close> (\<^verbatim>\<open>internal/metrics\<close>) split a counter that several producers
  share into rising chains and derive rates and increases from it. Deriving rates never fails; that no rate
  is negative and that an increase is exact is shown for counters of whole numbers that stay within
  2 ^ 53, since rounding drives the rate of a fractional counter below zero (\<open>fractional_rate_negative\<close>).
  \<open>MetricAttributes\<close> has label sets and
  their fingerprints. \<^verbatim>\<open>internal/rollup\<close> rolls 5-minute rows up into hours, days, weeks and months:
  \<open>RollupTiers\<close> has the tiers and their calendar, and shows that buckets tile time and that every source
  bucket belongs to one target bucket; \<open>RollupMerge\<close> merges source rows into a coarser row, and shows
  that no count is lost, that a counter never falls and which series share a row.

  \<^bold>\<open>Queries.\<close> Users filter by expressions and by calculated fields. \<open>CalcLex\<close>, \<open>CalcParse\<close> and \<open>CalcCompile\<close>
  (\<^verbatim>\<open>internal/calcfield\<close>) read a field's expression and compile it to SQL; \<open>SpanFilter\<close>
  (\<^verbatim>\<open>internal/filter\<close>) validates and compiles filters over them. Parsing is total, accepted input is
  within the documented caps, \<^verbatim>\<open>Validate\<close> accepts exactly the filters a separate description of their form
  admits, user text is only ever bound and never part of the SQL, placeholders and arguments agree,
  cyclic fields are refused, and the text and the arguments a field expands to are bounded.

  \<^bold>\<open>Conventions.\<close> \<open>Prelude\<close> has time as nanoseconds since Go's zero time, \<^verbatim>\<open>int64\<close> arithmetic as integers
  with \<open>s64\<close> where it can wrap, and Go maps as association lists with distinct keys; the order in which
  Go iterates over a map is an argument \<open>ord\<close> that permutes the entries. A pointer that may be nil is an
  option. A float is the rational it stands for and each operation rounds; infinities and NaN are
  left out. Errors are constructors without their texts. Code outside the repository is an argument: the
  settings reader, the sink of the ledger, the delivery callback, \<^verbatim>\<open>strconv.ParseFloat\<close> in filters, the JSON library in rollups.

  \<^bold>\<open>Bounds and fuel.\<close> The parser of calculated fields recurses on the number of tokens left; \<open>Parse_total\<close>
  shows that this never runs out. Every other recursion is structural or has a termination proof by a
  measure: the length of a queue still to scan, the positions left in a byte buffer, the number of
  fields not yet on the expansion stack, the index of a value.

  \<^bold>\<open>Not modelled.\<close> The repository and the query service, whose behaviour lies in SQL; the HTTP API,
  authentication, OTLP decoding and the forwarding and queueing of batches over Redis, files and HTTP;
  retention and alerting passes, which sequence such calls; instrumentation, configuration, the command
  line programs and the web UI.
\<close>

end
